(* ===== verification/Rdb_Prelude.thy ===== *)
theory Rdb_Prelude
  imports Main "HOL-Library.Word" "HOL-Library.List_Lexorder" "HOL-Library.Sublist"
    "HOL-Library.Monad_Syntax"
begin

text \<open>
  Shared vocabulary of the development: Rust's machine integers and byte vectors, the pieces
  of the standard library the modelled code calls on them (\<open>to_be_bytes\<close>, \<open>from_be_bytes\<close>,
  \<open>slice::get\<close>, \<open>starts_with\<close>, \<open>to_string\<close> on integers), and the generic facts on
  lexicographic byte order that every component relies on.  \<open>usize\<close> values are \<open>nat\<close>: they
  only count bytes, arguments and records, which stay below the address space.
\<close>

unbundle bit_operations_syntax

named_theorems codec_simps \<open>equations that evaluate the physical key and value encodings\<close>
named_theorems store_simps \<open>equations that evaluate batches and scans on abstract store contents\<close>

section \<open>Machine integers and bytes\<close>

type_synonym u8 = "8 word"
type_synonym u16 = "16 word"
type_synonym u32 = "32 word"
type_synonym u64 = "64 word"
type_synonym bytes = "u8 list"

text \<open>\<open>Result<T, String>\<close>: \<open>Inl\<close> is \<open>Err\<close>, \<open>Inr\<close> is \<open>Ok\<close>.\<close>
type_synonym 'a result = "string + 'a"

text \<open>A byte string literal \<open>b"..."\<close>.\<close>
definition ascii :: "string \<Rightarrow> bytes" where
  "ascii s = map of_char s"

subsection \<open>Big-endian integers\<close>

text \<open>The \<open>n\<close> low bytes of \<open>v\<close>, most significant first.\<close>
fun be_bytes :: "nat \<Rightarrow> nat \<Rightarrow> bytes" where
  "be_bytes 0 v = []"
| "be_bytes (Suc n) v = be_bytes n (v div 256) @ [word_of_nat v]"

definition be_val :: "bytes \<Rightarrow> nat" where
  "be_val bs = foldl (\<lambda>a b. a * 256 + unat b) 0 bs"

definition u64_to_be :: "u64 \<Rightarrow> bytes" where
  "u64_to_be x = be_bytes 8 (unat x)"

definition u64_from_be :: "bytes \<Rightarrow> u64" where
  "u64_from_be bs = word_of_nat (be_val bs)"

definition u32_to_be :: "u32 \<Rightarrow> bytes" where
  "u32_to_be x = be_bytes 4 (unat x)"

definition u32_from_be :: "bytes \<Rightarrow> u32" where
  "u32_from_be bs = word_of_nat (be_val bs)"

subsection \<open>Slices and decimal printing\<close>

text \<open>\<open>xs.get(a..)\<close> and \<open>xs.get(a..b)\<close>: \<open>None\<close> out of range.\<close>
definition get_from :: "nat \<Rightarrow> 'a list \<Rightarrow> 'a list option" where
  "get_from a xs = (if a \<le> length xs then Some (drop a xs) else None)"

definition get_range :: "nat \<Rightarrow> nat \<Rightarrow> 'a list \<Rightarrow> 'a list option" where
  "get_range a b xs = (if a \<le> b \<and> b \<le> length xs then Some (take (b - a) (drop a xs)) else None)"

text \<open>\<open>xs.first()\<close> and \<open>xs.get(i)\<close>.\<close>
definition first_of :: "'a list \<Rightarrow> 'a option" where
  "first_of xs = (case xs of [] \<Rightarrow> None | x # _ \<Rightarrow> Some x)"

definition get_at :: "nat \<Rightarrow> 'a list \<Rightarrow> 'a option" where
  "get_at i xs = (if i < length xs then Some (xs ! i) else None)"

text \<open>\<open>iter().position(|b| p(b))\<close>.\<close>
fun position :: "('a \<Rightarrow> bool) \<Rightarrow> 'a list \<Rightarrow> nat option" where
  "position p [] = None"
| "position p (x # xs) = (if p x then Some 0 else map_option Suc (position p xs))"

text \<open>\<open>n.to_string()\<close> for an unsigned integer.\<close>
fun dec_digits :: "nat \<Rightarrow> bytes" where
  "dec_digits n = (if n < 10 then [word_of_nat (48 + n)]
     else dec_digits (n div 10) @ [word_of_nat (48 + n mod 10)])"

declare dec_digits.simps [simp del]

text \<open>\<open>u8::is_ascii_digit\<close>.\<close>
definition is_ascii_digit :: "u8 \<Rightarrow> bool" where
  "is_ascii_digit b \<longleftrightarrow> 48 \<le> b \<and> b \<le> 57"

section \<open>Big-endian round trips and order\<close>

lemma length_be_bytes [simp]: "length (be_bytes n v) = n"
  by (induction n v rule: be_bytes.induct) auto

lemma be_val_Nil [simp]: "be_val [] = 0"
  by (simp add: be_val_def)

lemma be_val_snoc [simp]: "be_val (bs @ [b]) = be_val bs * 256 + unat b"
  by (simp add: be_val_def)

lemma be_val_bound: "be_val bs < 256 ^ length bs"
proof (induction bs rule: rev_induct)
  case Nil
  then show ?case by simp
next
  case (snoc b bs)
  have "unat b < 256"
    using unsigned_less [of b, where 'a = nat] by simp
  with snoc show ?case by simp
qed

lemma be_val_be_bytes [codec_simps]: "be_val (be_bytes n v) = v mod 256 ^ n"
proof (induction n v rule: be_bytes.induct)
  case (1 v)
  then show ?case by simp
next
  case (2 n v)
  have "v mod 256 ^ Suc n = v div 256 mod 256 ^ n * 256 + v mod 256"
    by (simp add: mod_mult2_eq)
  with 2 show ?case
    by (simp add: unat_of_nat)
qed

lemma be_bytes_be_val [codec_simps]: "be_bytes (length bs) (be_val bs) = bs"
proof (induction bs rule: rev_induct)
  case Nil
  then show ?case by simp
next
  case (snoc b bs)
  have "unat b < 256"
    using unsigned_less [of b, where 'a = nat] by simp
  then have "(be_val bs * 256 + unat b) div 256 = be_val bs"
    by simp
  moreover have "(word_of_nat (be_val bs * 256 + unat b) :: u8) = b"
  proof -
    have "(256 :: u8) = 0" by simp
    then have "(word_of_nat (be_val bs) :: u8) * 256 = 0" by (simp only: mult_zero_right)
    then show ?thesis by simp
  qed
  ultimately show ?case using snoc by simp
qed

lemma be_bytes_inject:
  assumes "a < 256 ^ n" "b < 256 ^ n"
  shows "be_bytes n a = be_bytes n b \<longleftrightarrow> a = b"
  using assms by (metis be_val_be_bytes mod_less)

lemma u64_be_roundtrip [simp, codec_simps]: "u64_from_be (u64_to_be x) = x"
proof -
  have "unat x < 256 ^ 8"
    using unsigned_less [of x, where 'a = nat] by simp
  then show ?thesis
    by (simp add: u64_from_be_def u64_to_be_def be_val_be_bytes)
qed

lemma u64_to_be_from_be [codec_simps]:
  assumes "length bs = 8"
  shows "u64_to_be (u64_from_be bs) = bs"
proof -
  have "be_val bs < 2 ^ 64"
    using be_val_bound [of bs] assms by simp
  then have "unat (word_of_nat (be_val bs) :: u64) = be_val bs"
    by (simp add: unat_of_nat)
  then show ?thesis
    using be_bytes_be_val [of bs] assms by (simp add: u64_from_be_def u64_to_be_def)
qed

lemma u32_be_roundtrip [simp, codec_simps]: "u32_from_be (u32_to_be x) = x"
proof -
  have "unat x < 256 ^ 4"
    using unsigned_less [of x, where 'a = nat] by simp
  then show ?thesis
    by (simp add: u32_from_be_def u32_to_be_def be_val_be_bytes)
qed

lemma length_u64_to_be [simp]: "length (u64_to_be x) = 8"
  by (simp add: u64_to_be_def)

lemma length_u32_to_be [simp]: "length (u32_to_be x) = 4"
  by (simp add: u32_to_be_def)

lemma u64_to_be_inject [simp]: "u64_to_be x = u64_to_be y \<longleftrightarrow> x = y"
  by (metis u64_be_roundtrip)

lemma u32_to_be_inject [simp]: "u32_to_be x = u32_to_be y \<longleftrightarrow> x = y"
  by (metis u32_be_roundtrip)

section \<open>Lexicographic order on byte strings\<close>

lemma append_less_append:
  fixes xs ys :: "'a::linorder list"
  assumes "length xs = length ys"
  shows "xs @ us < ys @ vs \<longleftrightarrow> xs < ys \<or> xs = ys \<and> us < vs"
  using assms by (induction xs ys rule: list_induct2) auto

lemma append_le_append:
  fixes xs ys :: "'a::linorder list"
  assumes "length xs = length ys"
  shows "xs @ us \<le> ys @ vs \<longleftrightarrow> xs < ys \<or> xs = ys \<and> us \<le> vs"
  using assms by (induction xs ys rule: list_induct2) auto

lemma append_less_cancel [simp]: "p @ us < p @ vs \<longleftrightarrow> us < (vs :: 'a::linorder list)"
  by (simp add: append_less_append)

lemma append_le_cancel [simp]: "p @ us \<le> p @ vs \<longleftrightarrow> us \<le> (vs :: 'a::linorder list)"
  by (simp add: append_le_append)

lemma prefix_imp_le: "prefix p k \<Longrightarrow> p \<le> (k :: 'a::linorder list)"
  by (induction p arbitrary: k) (auto simp: prefix_def)

lemma le_append [simp]: "p \<le> p @ (k :: 'a::linorder list)"
  by (simp add: prefix_imp_le)

lemma less_append_self [simp]: "p < p @ x # (k :: 'a::linorder list)"
  by (induction p) auto

lemma less_iff_div_mod:
  "a < b \<longleftrightarrow> a div n < b div n \<or> a div n = b div n \<and> a mod n < b mod (n::nat)"
proof (cases "a div n" "b div n" rule: linorder_cases)
  case less
  then have "\<not> b \<le> a" using div_le_mono [of b a n] by linarith
  with less show ?thesis by simp
next
  case equal
  then show ?thesis
    using div_mult_mod_eq [of a n] div_mult_mod_eq [of b n] by (metis add_less_cancel_left less_irrefl)
next
  case greater
  then have "\<not> a \<le> b" using div_le_mono [of a b n] by linarith
  with greater show ?thesis by simp
qed

lemma be_bytes_less_iff:
  assumes "a < 256 ^ n" "b < 256 ^ n"
  shows "be_bytes n a < be_bytes n b \<longleftrightarrow> a < b"
  using assms
proof (induction n arbitrary: a b)
  case 0
  then show ?case by simp
next
  case (Suc n)
  have bounds: "a div 256 < 256 ^ n" "b div 256 < 256 ^ n"
    using Suc.prems by (simp_all add: less_mult_imp_div_less mult.commute)
  have last: "(word_of_nat a :: u8) < word_of_nat b \<longleftrightarrow> a mod 256 < b mod 256"
    by (simp add: word_less_nat_alt unat_of_nat)
  have "be_bytes (Suc n) a < be_bytes (Suc n) b \<longleftrightarrow>
      a div 256 < b div 256 \<or> a div 256 = b div 256 \<and> a mod 256 < b mod 256"
    using Suc.IH [OF bounds] be_bytes_inject [OF bounds] last
    by (auto simp: append_less_append)
  also have "\<dots> \<longleftrightarrow> a < b"
    by (rule less_iff_div_mod [symmetric])
  finally show ?case .
qed

lemma u64_to_be_less_iff [simp]: "u64_to_be x < u64_to_be y \<longleftrightarrow> x < y"
proof -
  have "unat z < 256 ^ 8" for z :: u64
    using unsigned_less [of z, where 'a = nat] by simp
  then show ?thesis
    by (simp add: u64_to_be_def be_bytes_less_iff word_less_nat_alt)
qed

lemma u64_to_be_le_iff [simp]: "u64_to_be x \<le> u64_to_be y \<longleftrightarrow> x \<le> y"
  by (meson linorder_not_less u64_to_be_less_iff)

section \<open>Slices\<close>

lemma get_from_append [simp]: "length p = n \<Longrightarrow> get_from n (p @ xs) = Some xs"
  by (auto simp: get_from_def)

lemma get_from_length [simp]: "get_from (length p) (p @ xs) = Some xs"
  by (simp add: get_from_def)

lemma get_range_append:
  "length p = a \<Longrightarrow> b = a + length m \<Longrightarrow> get_range a b (p @ m @ xs) = Some m"
  by (auto simp: get_range_def)

lemma first_of_Cons [simp]: "first_of (x # xs) = Some x"
  and first_of_Nil [simp]: "first_of [] = None"
  by (simp_all add: first_of_def)

lemma position_None_iff: "position p xs = None \<longleftrightarrow> (\<forall>x\<in>set xs. \<not> p x)"
  by (induction xs) auto

lemma position_Some_iff:
  "position p xs = Some i \<longleftrightarrow> i < length xs \<and> p (xs ! i) \<and> (\<forall>j<i. \<not> p (xs ! j))"
proof (induction xs arbitrary: i)
  case Nil
  then show ?case by simp
next
  case (Cons x xs)
  show ?case
  proof (cases i)
    case 0
    then show ?thesis by (cases "position p xs") auto
  next
    case (Suc k)
    then show ?thesis
      using Cons.IH [of k] by (auto simp: less_Suc_eq_0_disj)
  qed
qed

section \<open>Decimal printing\<close>

lemma dec_digits_nonempty [simp]: "dec_digits n \<noteq> []"
  by (subst dec_digits.simps) simp

lemma is_ascii_digit_of_nat: "d < 10 \<Longrightarrow> is_ascii_digit (word_of_nat (48 + d))"
  by (auto simp: is_ascii_digit_def word_le_nat_alt unat_of_nat simp del: of_nat_add)

lemma dec_digits_digit: "b \<in> set (dec_digits n) \<Longrightarrow> is_ascii_digit b"
proof (induction n rule: dec_digits.induct)
  case (1 n)
  show ?case
  proof (cases "n < 10")
    case True
    with 1 show ?thesis
      by (simp add: dec_digits.simps [of n] is_ascii_digit_of_nat del: of_nat_add)
  next
    case False
    with 1 show ?thesis
      by (auto simp add: dec_digits.simps [of n] is_ascii_digit_of_nat simp del: of_nat_add)
  qed
qed

end
