(* ===== verification/Rdb_Slot.thy ===== *)
theory Rdb_Slot
  imports Rdb_Prelude
begin

text \<open>
  Cluster slots: the CRC-16/XMODEM hash of \<^verbatim>\<open>src/hash.rs\<close> with its compile-time table, hash
  tags and slot prefixes, the same-slot guard of \<^verbatim>\<open>src/ds/setops.rs\<close>, and the MOVED routing
  of \<^verbatim>\<open>src/router.rs\<close>.
\<close>

section \<open>CRC-16 and slots (hash.rs)\<close>

definition POLY :: u16 where
  "POLY = 0x1021"

text \<open>The \<open>while bit < 8\<close> loop of \<open>build_table\<close>; the first argument counts the rounds left.\<close>
fun table_bits :: "nat \<Rightarrow> u16 \<Rightarrow> u16" where
  "table_bits 0 crc = crc"
| "table_bits (Suc n) crc =
     table_bits n (if crc AND 0x8000 \<noteq> 0 then push_bit 1 crc XOR POLY else push_bit 1 crc)"

definition build_table :: "u16 list" where
  "build_table = map (\<lambda>i. table_bits 8 (push_bit 8 (word_of_nat i))) [0..<256]"

definition CRC16TAB :: "u16 list" where
  "CRC16TAB = build_table"

definition crc16_step :: "u16 \<Rightarrow> u8 \<Rightarrow> u16" where
  "crc16_step crc b = push_bit 8 crc XOR CRC16TAB ! unat (ucast (drop_bit 8 crc) XOR b)"

definition crc16 :: "bytes \<Rightarrow> u16" where
  "crc16 key = foldl crc16_step 0 key"

definition slot_number :: "bytes \<Rightarrow> u16" where
  "slot_number key = crc16 key mod 16384"

definition hash256 :: "bytes \<Rightarrow> u16" where
  "hash256 key = crc16 key mod 256"

text \<open>\<open>store::slot_prefix\<close> (also \<open>tx::exec::slot_prefix\<close>): decimal slot and a slash.\<close>
definition slot_prefix :: "u16 \<Rightarrow> bytes" where
  "slot_prefix slot = dec_digits (unat slot) @ [47]"

definition slot_with_prefix :: "bytes \<Rightarrow> u16 \<times> bytes" where
  "slot_with_prefix key =
     (let slot = slot_number key; prefix = dec_digits (unat slot)
      in (slot, prefix @ [47]))"

definition hash_tag :: "bytes \<Rightarrow> bytes" where
  "hash_tag key =
     (case position (\<lambda>b. b = 123) key of
        Some start \<Rightarrow>
          (let rest = drop (start + 1) key in
           case position (\<lambda>b. b = 125) rest of
             Some e \<Rightarrow> if e = 0 then key else take e rest
           | None \<Rightarrow> key)
      | None \<Rightarrow> key)"

text \<open>\<open>setops::same_slot\<close>: all keys hash to the slot of the first one.\<close>
definition same_slot :: "bytes list \<Rightarrow> bool" where
  "same_slot keys =
     (case map (\<lambda>k. fst (slot_with_prefix (hash_tag k))) keys of
        [] \<Rightarrow> True
      | first # rest \<Rightarrow> list_all (\<lambda>s. s = first) rest)"

definition CROSSSLOT_ERROR :: bytes where
  "CROSSSLOT_ERROR = ascii ''ERR CROSSSLOT Keys in request don't hash to the same slot''"

section \<open>MOVED routing (router.rs)\<close>

datatype route_decision = Local | Moved (moved_slot: u16) (moved_addr: string)

text \<open>The \<open>for (index, addr) in addrs.iter().enumerate()\<close> loop of \<open>route\<close>.\<close>
fun route_loop :: "u16 \<Rightarrow> nat \<Rightarrow> nat \<Rightarrow> nat \<Rightarrow> string list \<Rightarrow> string \<Rightarrow> route_decision" where
  "route_loop slot last_ix per_node_slots index [] host = Local"
| "route_loop slot last_ix per_node_slots index (addr # addrs) host =
     (if index = last_ix \<or> unat slot \<le> (index + 1) * per_node_slots
      then (if addr = host then Local else Moved slot addr)
      else route_loop slot last_ix per_node_slots (index + 1) addrs host)"

definition route :: "u16 \<Rightarrow> string list \<Rightarrow> nat \<Rightarrow> string \<Rightarrow> route_decision" where
  "route slot addrs per_node_slots host =
     route_loop slot (length addrs - 1) per_node_slots 0 addrs host"

definition route_with_owners ::
    "u16 \<Rightarrow> string list \<Rightarrow> nat \<Rightarrow> string \<Rightarrow> (u16 \<rightharpoonup> string) \<Rightarrow> route_decision" where
  "route_with_owners slot addrs per_node_slots host owner_map =
     (case owner_map slot of
        Some owner \<Rightarrow> if owner = host then Local else Moved slot owner
      | None \<Rightarrow> route slot addrs per_node_slots host)"

definition routing_key_index :: "string \<Rightarrow> nat" where
  "routing_key_index cmd = (if cmd \<in> {''lmpop'', ''sintercard'', ''bitop''} then 2 else 1)"

section \<open>The table computes the bitwise CRC\<close>

text \<open>Reference: feed each byte into the high half and shift the register out bit by bit.\<close>
definition crc16_bitwise :: "bytes \<Rightarrow> u16" where
  "crc16_bitwise key = foldl (\<lambda>crc b. table_bits 8 (crc XOR push_bit 8 (ucast b))) 0 key"

lemma msb_test: "(x :: u16) AND 0x8000 \<noteq> 0 \<longleftrightarrow> bit x 15"
  using and_exp_eq_0_iff_not_bit [of x 15] by simp

lemma table_bits_xor: "table_bits n (x XOR y) = table_bits n x XOR table_bits n y"
proof (induction n arbitrary: x y)
  case 0
  then show ?case by simp
next
  case (Suc n)
  have step: "(if bit (x XOR y) 15 then push_bit 1 (x XOR y) XOR POLY else push_bit 1 (x XOR y)) =
      (if bit x 15 then push_bit 1 x XOR POLY else push_bit 1 x) XOR
      (if bit y 15 then push_bit 1 y XOR POLY else push_bit 1 y)"
    by (auto simp: bit_xor_iff push_bit_xor xor.assoc xor.left_commute xor.commute)
  show ?case
    unfolding table_bits.simps msb_test step by (rule Suc.IH)
qed

lemma table_bits_low:
  "k + n \<le> 8 \<Longrightarrow> table_bits n (push_bit k (ucast (l :: u8))) = push_bit (k + n) (ucast l)"
proof (induction n arbitrary: k)
  case 0
  then show ?case by simp
next
  case (Suc n)
  have "\<not> bit (push_bit k (ucast l) :: u16) 15"
    using Suc.prems bit_imp_le_length [of l "15 - k"] by (auto simp: bit_push_bit_iff bit_unsigned_iff)
  moreover have "push_bit 1 (push_bit k (ucast l) :: u16) = push_bit (Suc k) (ucast l)"
    by simp
  ultimately show ?case
    using Suc.IH [of "Suc k"] Suc.prems by (simp add: msb_test)
qed

lemma CRC16TAB_nth: "CRC16TAB ! unat (i :: u8) = table_bits 8 (push_bit 8 (ucast i))"
proof -
  have "unat i < 256"
    using unsigned_less [of i, where 'a = nat] by simp
  then show ?thesis
    by (simp add: CRC16TAB_def build_table_def)
qed

lemma u16_split: "x = push_bit 8 (ucast (ucast (drop_bit 8 x) :: u8)) XOR ucast (ucast x :: u8)"
  for x :: u16
  by (rule bit_word_eqI)
    (auto simp: bit_xor_iff bit_push_bit_iff bit_unsigned_iff bit_drop_bit_eq)

lemma crc16_step_bitwise: "crc16_step crc b = table_bits 8 (crc XOR push_bit 8 (ucast b))"
proof -
  define hi :: u8 where "hi = ucast (drop_bit 8 crc)"
  define lo :: u8 where "lo = ucast crc"
  have crc: "crc = push_bit 8 (ucast hi) XOR ucast lo"
    unfolding hi_def lo_def by (rule u16_split)
  have lo: "push_bit 8 crc = push_bit 8 (ucast lo)"
    unfolding lo_def by (rule bit_word_eqI) (auto simp: bit_push_bit_iff bit_unsigned_iff)
  have swap: "(a XOR l) XOR c = (a XOR c) XOR l" for a l c :: u16
    by (simp only: xor.assoc xor.commute xor.left_commute)
  have "crc XOR push_bit 8 (ucast b) =
      (push_bit 8 (ucast hi) XOR push_bit 8 (ucast b)) XOR ucast lo"
    using swap crc by metis
  also have "push_bit 8 (ucast hi) XOR push_bit 8 (ucast b) = (push_bit 8 (ucast (hi XOR b)) :: u16)"
    by (simp only: unsigned_xor_eq push_bit_xor)
  finally have "crc XOR push_bit 8 (ucast b) =
      push_bit 8 (ucast (hi XOR b)) XOR push_bit 0 (ucast lo)"
    by simp
  then have "table_bits 8 (crc XOR push_bit 8 (ucast b)) =
      table_bits 8 (push_bit 8 (ucast (hi XOR b))) XOR push_bit 8 (ucast lo)"
    using table_bits_low [of 0 8 lo] by (simp only: table_bits_xor) simp
  then show ?thesis
    unfolding crc16_step_def CRC16TAB_nth lo hi_def [symmetric] by (simp only: xor.commute)
qed


text \<open>Two entries of the table the original implementation ships as a literal.\<close>
lemma table_spot_check:
  "table_bits 8 (push_bit 8 1) = 0x1021 \<and> table_bits 8 (push_bit 8 255) = 0x1EF0"
  by code_simp

section \<open>Slots and slot prefixes\<close>

lemma slot_number_bound: "unat (slot_number key) < 16384"
  by (simp add: slot_number_def unat_mod)

lemma slot_with_prefix_eq: "slot_with_prefix key = (slot_number key, slot_prefix (slot_number key))"
  by (simp add: slot_with_prefix_def slot_prefix_def Let_def)

text \<open>The decimal digits read back to the number they print.\<close>
definition dec_val :: "bytes \<Rightarrow> nat" where
  "dec_val bs = foldl (\<lambda>a b. a * 10 + (unat b - 48)) 0 bs"

lemma dec_val_snoc: "dec_val (bs @ [b]) = dec_val bs * 10 + (unat b - 48)"
  by (simp add: dec_val_def)

lemma unat_digit: "d < 10 \<Longrightarrow> unat (word_of_nat (48 + d) :: u8) = 48 + d"
  by (simp add: unat_of_nat del: of_nat_add)

lemma dec_val_dec_digits: "dec_val (dec_digits n) = n"
proof (induction n rule: dec_digits.induct)
  case (1 n)
  show ?case
  proof (cases "n < 10")
    case True
    then show ?thesis
      by (simp add: dec_digits.simps [of n] dec_val_def unat_digit del: of_nat_add)
  next
    case False
    with 1 show ?thesis
      by (simp add: dec_digits.simps [of n] dec_val_snoc unat_digit del: of_nat_add)
  qed
qed

lemma dec_digits_inject [simp]: "dec_digits m = dec_digits n \<longleftrightarrow> m = n"
  by (metis dec_val_dec_digits)

lemma slash_not_digit: "47 \<notin> set (dec_digits n)"
  using dec_digits_digit [of 47 n] by (auto simp: is_ascii_digit_def)

lemma split_at_first:
  assumes "xs @ c # us = ys @ c # vs" "c \<notin> set xs" "c \<notin> set ys"
  shows "xs = ys \<and> us = vs"
  using assms
proof (induction xs arbitrary: ys)
  case Nil
  then show ?case by (cases ys) auto
next
  case (Cons x xs)
  then show ?case by (cases ys) auto
qed


section \<open>Hash tags\<close>

text \<open>A key carries a tag when its first brace opens a closed, non-empty group.\<close>
definition tagged :: "bytes \<Rightarrow> bytes \<Rightarrow> bool" where
  "tagged key tag \<longleftrightarrow> tag \<noteq> [] \<and> 125 \<notin> set tag \<and>
     (\<exists>pre post. key = pre @ 123 # tag @ 125 # post \<and> 123 \<notin> set pre)"

lemma position_append_first:
  "c \<notin> set pre \<Longrightarrow> position (\<lambda>b. b = c) (pre @ c # post) = Some (length pre)"
  by (induction pre) auto

lemma position_eqD:
  assumes "position (\<lambda>b. b = c) xs = Some i"
  shows "xs = take i xs @ c # drop (i + 1) xs \<and> c \<notin> set (take i xs)"
proof -
  have i: "i < length xs" "xs ! i = c" "\<forall>j<i. xs ! j \<noteq> c"
    using assms by (auto simp: position_Some_iff)
  then have "xs = take i xs @ c # drop (i + 1) xs"
    using id_take_nth_drop [of i xs] by simp
  moreover have "c \<notin> set (take i xs)"
    using i by (auto simp: in_set_conv_nth)
  ultimately show ?thesis by blast
qed

lemma tagged_close: "tagged key tag \<Longrightarrow> 125 \<in> set key"
  by (auto simp: tagged_def)

lemma hash_tag_tagged: "tagged key tag \<Longrightarrow> hash_tag key = tag"
proof -
  assume "tagged key tag"
  then obtain pre post where key: "key = pre @ 123 # tag @ 125 # post"
    and pre: "123 \<notin> set pre" and tag: "tag \<noteq> []" "125 \<notin> set tag"
    by (auto simp: tagged_def)
  have "position (\<lambda>b. b = 123) key = Some (length pre)"
    unfolding key by (rule position_append_first [OF pre])
  moreover have "drop (length pre + 1) key = tag @ 125 # post"
    by (simp add: key)
  ultimately show ?thesis
    using position_append_first [OF tag(2), of post] tag(1) by (simp add: hash_tag_def)
qed

lemma hash_tag_cases: "hash_tag key = key \<or> tagged key (hash_tag key)"
proof (cases "position (\<lambda>b. b = 123) key")
  case None
  then show ?thesis by (simp add: hash_tag_def)
next
  case (Some i)
  note key = position_eqD [OF Some]
  show ?thesis
  proof (cases "position (\<lambda>b. b = 125) (drop (i + 1) key)")
    case None
    with Some show ?thesis by (simp add: hash_tag_def)
  next
    case (Some e)
    note rest = position_eqD [OF Some]
    let ?tag = "take e (drop (i + 1) key)"
    show ?thesis
    proof (cases "e = 0")
      case True
      with Some \<open>position (\<lambda>b. b = 123) key = Some i\<close> show ?thesis by (simp add: hash_tag_def)
    next
      case False
      with Some \<open>position (\<lambda>b. b = 123) key = Some i\<close> have ht: "hash_tag key = ?tag"
        by (simp add: hash_tag_def)
      have "key = take i key @ 123 # ?tag @ 125 # drop (e + 1) (drop (i + 1) key)"
        using key rest by metis
      moreover have "?tag \<noteq> []"
        using Some False by (auto simp: position_Some_iff)
      ultimately have "tagged key ?tag"
        using key rest unfolding tagged_def by blast
      with ht show ?thesis by simp
    qed
  qed
qed

text \<open>the hash tag of a key is the content of its first brace group when that group is
  closed and non-empty, and the whole key otherwise; in particular an empty tag counts as no tag,
  and hashing is idempotent, so a tag routes to the same slot as the keys that carry it.
\<close>
theorem hash_tag_spec:
  "(tagged key tag \<longrightarrow> hash_tag key = tag) \<and>
   ((\<nexists>t. tagged key t) \<longrightarrow> hash_tag key = key) \<and>
   hash_tag (hash_tag key) = hash_tag key"
proof -
  have no_close: "hash_tag t = t" if "125 \<notin> set t" for t
  proof (rule disjE [OF hash_tag_cases [of t]])
    assume "tagged t (hash_tag t)"
    with that tagged_close show ?thesis by blast
  qed simp
  have "hash_tag (hash_tag key) = hash_tag key"
    using hash_tag_cases [of key] no_close [of "hash_tag key"] by (auto simp: tagged_def)
  then show ?thesis
    using hash_tag_tagged [of key tag] hash_tag_cases [of key] by blast
qed

theorem hash_tag_spec_witness:
  "hash_tag (ascii ''{user1000}.following'') = ascii ''user1000'' \<and>
   hash_tag (ascii ''foo{}bar'') = ascii ''foo{}bar''"
proof -
  have t: "tagged (ascii ''{user1000}.following'') (ascii ''user1000'')"
    unfolding tagged_def
    by (intro conjI exI [of _ "[]"] exI [of _ "ascii ''.following''"]) code_simp+
  have "hash_tag (ascii ''{user1000}.following'') = ascii ''user1000''"
    using hash_tag_spec [of "ascii ''{user1000}.following''" "ascii ''user1000''"] t by blast
  moreover have "hash_tag (ascii ''foo{}bar'') = ascii ''foo{}bar''"
    by code_simp
  ultimately show ?thesis by blast
qed

section \<open>Routing\<close>

text \<open>The node \<open>route\<close> picks, whoever asks.\<close>
fun owner_loop :: "u16 \<Rightarrow> nat \<Rightarrow> nat \<Rightarrow> nat \<Rightarrow> string list \<Rightarrow> string option" where
  "owner_loop slot last_ix per index [] = None"
| "owner_loop slot last_ix per index (addr # addrs) =
     (if index = last_ix \<or> unat slot \<le> (index + 1) * per then Some addr
      else owner_loop slot last_ix per (index + 1) addrs)"

lemma route_loop_owner:
  "route_loop slot last_ix per index addrs host =
     (case owner_loop slot last_ix per index addrs of
        None \<Rightarrow> Local | Some a \<Rightarrow> if a = host then Local else Moved slot a)"
  by (induction addrs arbitrary: index) auto

lemma owner_loop_total:
  "addrs \<noteq> [] \<Longrightarrow> index + length addrs = Suc last_ix \<Longrightarrow>
   \<exists>a \<in> set addrs. owner_loop slot last_ix per index addrs = Some a"
proof (induction addrs arbitrary: index)
  case Nil
  then show ?case by simp
next
  case (Cons x xs)
  show ?case
  proof (cases "index = last_ix \<or> unat slot \<le> (index + 1) * per")
    case True
    then show ?thesis by auto
  next
    case False
    with Cons.prems have "xs \<noteq> []" by (cases xs) auto
    with Cons.IH [of "index + 1"] Cons.prems False show ?thesis by auto
  qed
qed

lemma route_owner:
  assumes "addrs \<noteq> []"
  shows "\<exists>a \<in> set addrs. \<forall>host. route slot addrs per host = (if host = a then Local else Moved slot a)"
proof -
  obtain a where "a \<in> set addrs" "owner_loop slot (length addrs - 1) per 0 addrs = Some a"
    using owner_loop_total [of addrs 0 "length addrs - 1" slot per] assms by auto
  then show ?thesis
    by (auto simp: route_def route_loop_owner)
qed



section \<open>Same-slot guard\<close>

lemma same_slot_iff:
  "same_slot keys \<longleftrightarrow>
     (\<forall>k\<in>set keys. \<forall>k'\<in>set keys. slot_number (hash_tag k) = slot_number (hash_tag k'))"
proof (cases keys)
  case Nil
  then show ?thesis by (simp add: same_slot_def)
next
  case (Cons k ks)
  then show ?thesis
    by (auto simp: same_slot_def slot_with_prefix_eq list_all_iff)
qed

end
