(* ===== verification/Rdb_Store.thy ===== *)
theory Rdb_Store
  imports Rdb_Prelude
begin

text \<open>
  The storage layer: \<^verbatim>\<open>src/store/rocksdb.rs\<close> and \<^verbatim>\<open>src/store/ops.rs\<close>.  RocksDB itself is a
  third-party engine, so it is a parameter: the record \<open>'db rocksdb\<close> holds the calls the code
  makes on a database handle, and the locales \<open>rocksdb_engine\<close> and \<open>healthy_rocksdb\<close> state what
  the code relies on, namely the documented behaviour of point reads, atomic write batches and
  ordered iterators.
\<close>

section \<open>The engine parameter\<close>

text \<open>A \<open>WriteBatch\<close> is the sequence of the updates recorded in it.\<close>
datatype batch_op = Put bytes bytes | Delete bytes | DeleteRange bytes bytes

type_synonym write_batch = "batch_op list"
type_synonym kv = "bytes \<times> bytes"

text \<open>
  \<open>db_get\<close> is a point read, \<open>db_write\<close> a synced batch write, \<open>db_forward db from upper\<close> the
  items of an ascending iterator started at \<open>from\<close> with the iterate bounds \<open>[from, upper)\<close>, and
  \<open>db_reverse db from upper\<close> those of a descending one started at the last key \<open>\<le> from\<close>.
\<close>
record 'db rocksdb =
  db_get :: "'db \<Rightarrow> bytes \<Rightarrow> bytes option result"
  db_write :: "'db \<Rightarrow> write_batch \<Rightarrow> unit result \<times> 'db"
  db_forward :: "'db \<Rightarrow> bytes \<Rightarrow> bytes option \<Rightarrow> kv result list"
  db_reverse :: "'db \<Rightarrow> bytes \<Rightarrow> bytes option \<Rightarrow> kv result list"

section \<open>The database path (rocksdb.rs)\<close>

text \<open>\<open>str::split\<close> on one character: always at least one piece.\<close>
fun split_on :: "'a \<Rightarrow> 'a list \<Rightarrow> 'a list list" where
  "split_on c [] = [[]]"
| "split_on c (x # xs) =
     (if x = c then [] # split_on c xs
      else (case split_on c xs of [] \<Rightarrow> [[x]] | p # ps \<Rightarrow> (x # p) # ps))"

text \<open>\<open>join\<close> with a one-character separator.\<close>
fun join_with :: "'a \<Rightarrow> 'a list list \<Rightarrow> 'a list" where
  "join_with c [] = []"
| "join_with c [p] = p"
| "join_with c (p # ps) = p @ c # join_with c ps"

text \<open>One iteration of the loop over the path's components.\<close>
definition clean_part :: "bool \<Rightarrow> string \<Rightarrow> string list \<Rightarrow> string list" where
  "clean_part absolute part parts =
     (if part = '''' \<or> part = ''.'' then parts
      else if part = ''..'' then
        (if parts \<noteq> [] \<and> last parts \<noteq> ''..'' then butlast parts
         else if \<not> absolute then parts @ [''..''] else parts)
      else parts @ [part])"

definition data_path :: "string \<Rightarrow> string \<Rightarrow> string" where
  "data_path store_path bnd =
     (let joined = (if store_path = '''' then bnd
                    else if bnd = '''' then store_path
                    else store_path @ ''/'' @ bnd);
          absolute = (joined \<noteq> [] \<and> hd joined = CHR ''/'');
          parts = fold (clean_part absolute) (split_on (CHR ''/'') joined) [];
          cleaned = (if absolute then ''/'' else '''') @ join_with (CHR ''/'') parts
      in if cleaned = '''' then ''.'' else cleaned)"

section \<open>Single-key operations (rocksdb.rs)\<close>

definition physical_key :: "bytes \<Rightarrow> bytes \<Rightarrow> bytes" where
  "physical_key pfx key = pfx @ key"

definition store_get :: "'db rocksdb \<Rightarrow> 'db \<Rightarrow> bytes \<Rightarrow> bytes \<Rightarrow> bytes option result" where
  "store_get R db pfx key = db_get R db (physical_key pfx key)"

definition store_set :: "'db rocksdb \<Rightarrow> 'db \<Rightarrow> bytes \<Rightarrow> bytes \<Rightarrow> bytes \<Rightarrow> unit result \<times> 'db" where
  "store_set R db pfx key val = db_write R db [Put (physical_key pfx key) val]"

definition store_del :: "'db rocksdb \<Rightarrow> 'db \<Rightarrow> bytes \<Rightarrow> bytes \<Rightarrow> bool result \<times> 'db" where
  "store_del R db pfx key =
     (let item = physical_key pfx key in
      case db_get R db item of
        Inl e \<Rightarrow> (Inl e, db)
      | Inr v \<Rightarrow>
          (let existed = v \<noteq> None in
           if existed then
             (case db_write R db [Delete item] of
                (Inl e, db') \<Rightarrow> (Inl e, db')
              | (Inr _, db') \<Rightarrow> (Inr existed, db'))
           else (Inr existed, db)))"

definition store_mget :: "'db rocksdb \<Rightarrow> 'db \<Rightarrow> bytes \<Rightarrow> bytes list \<Rightarrow> bytes list" where
  "store_mget R db pfx keys =
     map (\<lambda>key. case store_get R db pfx key of Inr (Some val) \<Rightarrow> val | _ \<Rightarrow> []) keys"

text \<open>The puts of \<open>mset\<close>: \<open>pairs.as_chunks::<2>().0\<close>.\<close>
fun mset_batch :: "bytes \<Rightarrow> bytes list \<Rightarrow> write_batch" where
  "mset_batch pfx (k # v # rest) = Put (physical_key pfx k) v # mset_batch pfx rest"
| "mset_batch pfx _ = []"

definition store_mset :: "'db rocksdb \<Rightarrow> 'db \<Rightarrow> bytes \<Rightarrow> bytes list \<Rightarrow> unit result \<times> 'db" where
  "store_mset R db pfx pairs =
     (if odd (length pairs)
      then (Inl ''mset: odd number of elements, expected key/value pairs'', db)
      else db_write R db (mset_batch pfx pairs))"

text \<open>The loop of \<open>key_upper_bound\<close> over \<open>(0..end.len()).rev()\<close>, on the reversed key.\<close>
fun upper_bound_rev :: "bytes \<Rightarrow> bytes option" where
  "upper_bound_rev [] = None"
| "upper_bound_rev (b # bs) = (if b + 1 \<noteq> 0 then Some (rev ((b + 1) # bs)) else upper_bound_rev bs)"

definition key_upper_bound :: "bytes \<Rightarrow> bytes option" where
  "key_upper_bound b = upper_bound_rev (rev b)"

text \<open>\<open>.map_while(Result::ok)\<close>.\<close>
fun map_while_ok :: "'a result list \<Rightarrow> 'a list" where
  "map_while_ok (Inr x # xs) = x # map_while_ok xs"
| "map_while_ok _ = []"

definition iter_prefix :: "'db rocksdb \<Rightarrow> 'db \<Rightarrow> bytes \<Rightarrow> kv list" where
  "iter_prefix R db pfx = map_while_ok (db_forward R db pfx (key_upper_bound pfx))"

section \<open>Batches and ordered scans (ops.rs)\<close>

definition get_physical :: "'db rocksdb \<Rightarrow> 'db \<Rightarrow> bytes \<Rightarrow> bytes option result" where
  "get_physical R db physical = db_get R db physical"

definition batch_write :: "'db rocksdb \<Rightarrow> 'db \<Rightarrow> write_batch \<Rightarrow> unit result \<times> 'db" where
  "batch_write R db batch = db_write R db batch"

text \<open>
  A scan callback is a function on the variables it captures: it returns whether to go on and
  their new values.
\<close>
type_synonym 's visitor = "bytes \<Rightarrow> bytes \<Rightarrow> 's \<Rightarrow> bool \<times> 's"

fun for_each_items ::
    "kv result list \<Rightarrow> bool \<Rightarrow> bytes \<Rightarrow> 's visitor \<Rightarrow> 's \<Rightarrow> unit result \<times> 's" where
  "for_each_items [] skip_leading from f s = (Inr (), s)"
| "for_each_items (Inl e # _) skip_leading from f s = (Inl e, s)"
| "for_each_items (Inr (k, v) # items) skip_leading from f s =
     (if skip_leading \<and> k = from then for_each_items items False from f s
      else let (go, s') = f k v s in
        if go then for_each_items items False from f s' else (Inr (), s'))"

definition for_each_from ::
    "'db rocksdb \<Rightarrow> 'db \<Rightarrow> bytes \<Rightarrow> bool \<Rightarrow> 's visitor \<Rightarrow> 's \<Rightarrow> unit result \<times> 's" where
  "for_each_from R db from excl_from f s =
     for_each_items (db_forward R db from None) excl_from from f s"

definition for_each_down_from ::
    "'db rocksdb \<Rightarrow> 'db \<Rightarrow> bytes \<Rightarrow> bool \<Rightarrow> 's visitor \<Rightarrow> 's \<Rightarrow> unit result \<times> 's" where
  "for_each_down_from R db from excl_from f s =
     for_each_items (db_reverse R db from (Some (from @ [0]))) excl_from from f s"

definition delete_range :: "'db rocksdb \<Rightarrow> 'db \<Rightarrow> bytes \<Rightarrow> bytes \<Rightarrow> unit result \<times> 'db" where
  "delete_range R db lower upper =
     (if upper = [] then
        (case for_each_from R db lower False (\<lambda>k _ batch. (True, batch @ [Delete k])) [] of
           (Inl e, _) \<Rightarrow> (Inl e, db)
         | (Inr _, batch) \<Rightarrow> batch_write R db batch)
      else batch_write R db [DeleteRange lower upper])"

text \<open>
  The body of \<open>spawn_revalidated_write\<close>: the detached task re-reads the root and commits only
  when the probe accepts the current value.
\<close>
definition revalidated_write ::
    "'db rocksdb \<Rightarrow> 'db \<Rightarrow> bytes \<Rightarrow> (bytes option \<Rightarrow> bool) \<Rightarrow> write_batch \<Rightarrow> 'db" where
  "revalidated_write R db root probe batch =
     (case db_get R db root of
        Inl e \<Rightarrow> db
      | Inr current \<Rightarrow> if probe current then snd (db_write R db batch) else db)"

definition DELETE_PAGE :: nat where
  "DELETE_PAGE = 1000"

text \<open>The callback of \<open>delete_page_once\<close>; it captures \<open>keys\<close> and \<open>next\<close>.\<close>
definition delete_page_visit :: "bytes \<Rightarrow> nat \<Rightarrow> (bytes list \<times> bytes) visitor" where
  "delete_page_visit upper page k v s =
     (let (keys, nxt) = s in
      if upper \<noteq> [] \<and> upper \<le> k then (False, (keys, nxt))
      else if length keys = page then (False, (keys, k))
      else (True, (keys @ [k], nxt)))"

definition delete_page_once ::
    "'db rocksdb \<Rightarrow> 'db \<Rightarrow> bytes \<Rightarrow> bytes \<Rightarrow> nat \<Rightarrow> (nat \<times> bytes) result \<times> 'db" where
  "delete_page_once R db cursor upper page0 =
     (let page = max page0 1 in
      case for_each_from R db cursor False (delete_page_visit upper page) ([], cursor) of
        (Inl e, _) \<Rightarrow> (Inl e, db)
      | (Inr _, (keys, nxt)) \<Rightarrow>
          if keys = [] then (Inr (0, nxt), db)
          else (case batch_write R db (map Delete keys) of
                  (Inl e, db') \<Rightarrow> (Inl e, db')
                | (Inr _, db') \<Rightarrow> (Inr (length keys, nxt), db')))"

text \<open>The \<open>loop\<close> of \<open>delete_range_paged_inner\<close>; not returning is \<open>None\<close>.\<close>
partial_function (option) delete_pages ::
    "'db rocksdb \<Rightarrow> 'db \<Rightarrow> bytes \<Rightarrow> bytes \<Rightarrow> nat \<Rightarrow> nat \<Rightarrow> (nat result \<times> 'db) option" where
  "delete_pages R db cursor upper page tot =
     (case delete_page_once R db cursor upper page of
        (Inl e, db') \<Rightarrow> Some (Inl e, db')
      | (Inr (deleted, nxt), db') \<Rightarrow>
          if deleted = 0 then Some (Inr tot, db')
          else delete_pages R db' nxt upper page (tot + deleted))"

definition delete_range_paged ::
    "'db rocksdb \<Rightarrow> 'db \<Rightarrow> bytes \<Rightarrow> bytes \<Rightarrow> (nat result \<times> 'db) option" where
  "delete_range_paged R db lower upper = delete_pages R db lower upper DELETE_PAGE 0"

definition forward_iter :: "'db rocksdb \<Rightarrow> 'db \<Rightarrow> bytes \<Rightarrow> bytes option \<Rightarrow> kv list" where
  "forward_iter R db from upper = map_while_ok (db_forward R db from upper)"

definition prefix_iter_collect :: "'db rocksdb \<Rightarrow> 'db \<Rightarrow> bytes \<Rightarrow> nat \<Rightarrow> kv list result" where
  "prefix_iter_collect R db pfx limit =
     (let items = forward_iter R db pfx (key_upper_bound pfx)
      in Inr (if limit = 0 then items else take limit items))"

definition prefix_keys_collect :: "'db rocksdb \<Rightarrow> 'db \<Rightarrow> bytes \<Rightarrow> nat \<Rightarrow> bytes list" where
  "prefix_keys_collect R db pfx limit =
     (let items = map fst (forward_iter R db pfx (key_upper_bound pfx))
      in if limit = 0 then items else take limit items)"

definition first_key_from :: "'db rocksdb \<Rightarrow> 'db \<Rightarrow> bytes \<Rightarrow> bytes option result" where
  "first_key_from R db from =
     Inr (case db_forward R db from None of Inr (k, _) # _ \<Rightarrow> Some k | _ \<Rightarrow> None)"

section \<open>What the code relies on of the engine\<close>

type_synonym content = "bytes \<rightharpoonup> bytes"

fun apply_op :: "batch_op \<Rightarrow> content \<Rightarrow> content" where
  "apply_op (Put k v) m = m(k \<mapsto> v)"
| "apply_op (Delete k) m = m(k := None)"
| "apply_op (DeleteRange lower upper) m = (\<lambda>k. if lower \<le> k \<and> k < upper then None else m k)"

definition apply_batch :: "write_batch \<Rightarrow> content \<Rightarrow> content" where
  "apply_batch batch m = fold apply_op batch m"

definition below :: "bytes option \<Rightarrow> bytes \<Rightarrow> bool" where
  "below upper k = (case upper of None \<Rightarrow> True | Some u \<Rightarrow> k < u)"

definition entries :: "content \<Rightarrow> (bytes \<Rightarrow> bool) \<Rightarrow> kv list" where
  "entries m P = map (\<lambda>k. (k, the (m k))) (sorted_list_of_set {k \<in> dom m. P k})"

text \<open>
  Point reads return the stored value, a batch is applied atomically or not at all, and an
  iterator yields the entries of its window in key order; an iterator may stop at an error.
\<close>
locale rocksdb_engine =
  fixes R :: "'db rocksdb" and content :: "'db \<Rightarrow> content"
  assumes finite_content: "finite (dom (content db))"
    and get_ok: "db_get R db k = Inr v \<Longrightarrow> v = content db k"
    and write_ok: "db_write R db b = (Inr u, db') \<Longrightarrow> content db' = apply_batch b (content db)"
    and write_err: "db_write R db b = (Inl e, db') \<Longrightarrow> content db' = content db"
    and forward_items:
      "db_forward R db from upper = map Inr (entries (content db) (\<lambda>k. from \<le> k \<and> below upper k))
       \<or> (\<exists>kvs e tl. db_forward R db from upper = map Inr kvs @ Inl e # tl \<and>
            Sublist.prefix kvs (entries (content db) (\<lambda>k. from \<le> k \<and> below upper k)))"
    and reverse_items:
      "db_reverse R db from upper =
         map Inr (rev (entries (content db) (\<lambda>k. k \<le> from \<and> below upper k)))
       \<or> (\<exists>kvs e tl. db_reverse R db from upper = map Inr kvs @ Inl e # tl \<and>
            Sublist.prefix kvs (rev (entries (content db) (\<lambda>k. k \<le> from \<and> below upper k))))"

text \<open>An engine none of whose calls fails: no I/O error occurs.\<close>
locale healthy_rocksdb = rocksdb_engine +
  assumes get_total: "\<exists>v. db_get R db k = Inr v"
    and write_total: "\<exists>u db'. db_write R db b = (Inr u, db')"
    and forward_total: "Inl e \<notin> set (db_forward R db from upper)"
    and reverse_total: "Inl e \<notin> set (db_reverse R db from upper)"

subsection \<open>Batches and windows of the content\<close>

lemma apply_batch_simps [simp, store_simps]:
  "apply_batch [] m = m"
  "apply_batch (x # xs) m = apply_batch xs (apply_op x m)"
  "apply_batch (xs @ ys) m = apply_batch ys (apply_batch xs m)"
  by (simp_all add: apply_batch_def)

lemma apply_batch_deletes [store_simps]:
  "apply_batch (map Delete ks) m = (\<lambda>k. if k \<in> set ks then None else m k)"
  by (induction ks arbitrary: m) (auto simp: fun_eq_iff)

lemma dom_restrict_away [simp]: "dom (\<lambda>k. if k \<in> S then None else m k) = dom m - S"
  by (auto split: if_splits)

lemma finite_apply_op: "finite (dom m) \<Longrightarrow> finite (dom (apply_op x m))"
  by (cases x) (auto intro: rev_finite_subset [where B = "dom m"] split: if_splits)

lemma finite_apply_batch [simp, intro]: "finite (dom m) \<Longrightarrow> finite (dom (apply_batch b m))"
  by (induction b arbitrary: m) (auto simp: finite_apply_op)

lemma entries_fst [simp]: "map fst (entries m P) = sorted_list_of_set {k \<in> dom m. P k}"
  by (simp add: entries_def comp_def)

lemma set_entries:
  "finite (dom m) \<Longrightarrow> set (entries m P) = {(k, v). m k = Some v \<and> P k}"
  by (force simp: entries_def image_iff)

lemma sorted_entries: "sorted (map fst (entries m P))"
  by simp

lemma distinct_entries: "distinct (map fst (entries m P))"
  by simp

lemma length_entries: "length (entries m P) = card {k \<in> dom m. P k}"
  by (simp add: entries_def)

lemma entries_Nil_iff: "finite (dom m) \<Longrightarrow> entries m P = [] \<longleftrightarrow> (\<forall>k \<in> dom m. \<not> P k)"
  by (auto simp: entries_def)

lemma filter_sorted_list_of_set:
  "finite A \<Longrightarrow> filter Q (sorted_list_of_set A) = sorted_list_of_set {x \<in> A. Q x}"
  by (rule sorted_distinct_set_unique) (auto intro: sorted_wrt_filter distinct_filter)

lemma filter_entries:
  assumes "finite (dom m)"
  shows "filter (\<lambda>(k, _). Q k) (entries m P) = entries m (\<lambda>k. P k \<and> Q k)"
proof -
  have "filter (\<lambda>(k, _). Q k) (entries m P)
      = map (\<lambda>k. (k, the (m k))) (filter Q (sorted_list_of_set {k \<in> dom m. P k}))"
    by (simp add: entries_def filter_map comp_def)
  then show ?thesis
    using assms by (simp add: entries_def filter_sorted_list_of_set Collect_conj_eq Int_assoc)
qed

lemma entries_cong:
  "(\<And>k. m k \<noteq> None \<Longrightarrow> P k = Q k) \<Longrightarrow> entries m P = entries m Q"
  unfolding entries_def by (rule arg_cong [where f = "\<lambda>A. map _ (sorted_list_of_set A)"]) auto

subsection \<open>Callbacks as folds\<close>

fun visit :: "kv list \<Rightarrow> 's visitor \<Rightarrow> 's \<Rightarrow> 's" where
  "visit [] f s = s"
| "visit ((k, v) # kvs) f s = (let (go, s') = f k v s in if go then visit kvs f s' else s')"

lemma for_each_items_visit:
  "for_each_items (map Inr kvs) False from f s = (Inr (), visit kvs f s)"
  by (induction kvs f s rule: visit.induct) (auto split: prod.splits)

lemma for_each_items_skip:
  assumes "distinct (map fst kvs)" "\<And>k v. (k, v) \<in> set (tl kvs) \<Longrightarrow> k \<noteq> from"
  shows "for_each_items (map Inr kvs) True from f s
       = (Inr (), visit (filter (\<lambda>(k, _). k \<noteq> from) kvs) f s)"
proof (cases kvs)
  case (Cons kv rest)
  obtain k v where kv: "kv = (k, v)" by (cases kv)
  have "filter (\<lambda>(k, _). k \<noteq> from) rest = rest"
    using assms(2) Cons by (intro filter_True) auto
  then show ?thesis
    by (auto simp: Cons kv for_each_items_visit split: prod.splits)
qed simp

text \<open>
  A callback that works while the key is in a window closed under \<open>\<le>\<close> and stops after it is a
  fold over the window of the sorted items.
\<close>
lemma visit_window:
  assumes "sorted_wrt r (map fst kvs)"
    and "\<And>k k'. r k k' \<Longrightarrow> W k' \<Longrightarrow> W k"
    and "\<And>k v s. f k v s = (if W k then (True, g k v s) else (False, s))"
  shows "visit kvs f s = fold (\<lambda>(k, v). g k v) (filter (\<lambda>(k, _). W k) kvs) s"
  using assms(1)
proof (induction kvs arbitrary: s)
  case (Cons kv kvs)
  obtain k v where kv: "kv = (k, v)" by (cases kv)
  show ?case
  proof (cases "W k")
    case True
    then show ?thesis using Cons by (simp add: kv assms(3))
  next
    case False
    then have "filter (\<lambda>(k, _). W k) kvs = []"
      using Cons.prems assms(2) by (fastforce simp: kv filter_empty_conv)
    then show ?thesis using False by (simp add: kv assms(3))
  qed
qed simp

lemma fold_collect: "fold (\<lambda>(k, v) acc. acc @ [h k v]) kvs acc = acc @ map (\<lambda>(k, v). h k v) kvs"
  by (induction kvs arbitrary: acc) auto

lemma visit_all:
  "(\<And>k v s. f k v s = (True, g k v s)) \<Longrightarrow> visit kvs f s = fold (\<lambda>(k, v). g k v) kvs s"
  by (induction kvs arbitrary: s) auto

subsection \<open>Prefix windows\<close>

lemma upper_bound_rev_append:
  "upper_bound_rev (xs @ ys) =
     (case upper_bound_rev xs of Some u \<Rightarrow> Some (rev ys @ u) | None \<Rightarrow> upper_bound_rev ys)"
  by (induction xs) auto

lemma key_upper_bound_Nil [simp]: "key_upper_bound [] = None"
  by (simp add: key_upper_bound_def)

lemma key_upper_bound_Cons:
  "key_upper_bound (b # bs) =
     (case key_upper_bound bs of
        Some u \<Rightarrow> Some (b # u)
      | None \<Rightarrow> if b + 1 \<noteq> 0 then Some [b + 1] else None)"
  by (simp add: key_upper_bound_def upper_bound_rev_append split: option.splits)

lemma word_le_less_succ: "b + 1 \<noteq> 0 \<Longrightarrow> b \<le> x \<Longrightarrow> x < b + 1 \<Longrightarrow> x = (b :: u8)"
  using unatSuc [of b] by (auto simp: word_le_nat_alt word_less_nat_alt word_unat_eq_iff add.commute)

lemma word_less_succ: "b + 1 \<noteq> 0 \<Longrightarrow> b < b + (1 :: u8)"
  using unatSuc [of b] by (simp add: word_less_nat_alt add.commute)

lemma word_top: "b + 1 = 0 \<Longrightarrow> b \<le> x \<Longrightarrow> x = (b :: u8)"
  by (metis eq_neg_iff_add_eq_0 word_order.extremum_unique)

lemma key_upper_bound_in:
  "below (key_upper_bound b) k \<and> b \<le> k \<longleftrightarrow> Sublist.prefix b k"
proof (induction b arbitrary: k)
  case Nil
  then show ?case by (simp add: below_def)
next
  case (Cons c b)
  show ?case
  proof (cases k)
    case Nil
    then show ?thesis by simp
  next
    case (Cons x xs)
    show ?thesis
    proof (cases "key_upper_bound b")
      case None
      then have b: "b \<le> xs \<longleftrightarrow> Sublist.prefix b xs"
        using Cons.IH [of xs] by (simp add: below_def)
      show ?thesis
        using None b word_le_less_succ [of c x] word_less_succ [of c] word_top [of c x]
        by (auto simp: Cons below_def key_upper_bound_Cons less_imp_le)
    next
      case (Some u)
      then have "xs < u \<and> b \<le> xs \<longleftrightarrow> Sublist.prefix b xs"
        using Cons.IH [of xs] by (simp add: below_def)
      then show ?thesis
        using Some by (auto simp: Cons below_def key_upper_bound_Cons)
    qed
  qed
qed

lemma key_upper_bound_Some_nonempty: "key_upper_bound b = Some u \<Longrightarrow> u \<noteq> []"
  by (induction b arbitrary: u)
     (auto simp: key_upper_bound_Cons split: option.splits if_splits)

subsection \<open>The operations on an engine that does not fail\<close>

context healthy_rocksdb
begin

lemma get_eq [simp]: "db_get R db k = Inr (content db k)"
  using get_total get_ok by metis

lemma finite_dom [simp, intro]: "finite (dom (content db))"
  by (rule finite_content)

lemma write_pair: "db_write R db b = (Inr (), snd (db_write R db b))"
  using write_total [of db b] by (metis old.unit.exhaust snd_conv)

lemma write_case [simp]: "case_prod h (db_write R db b) = h (Inr ()) (snd (db_write R db b))"
  using write_pair by (metis case_prod_conv)

lemma fst_write [simp]: "fst (db_write R db b) = Inr ()"
  using write_pair by (metis fst_conv)

lemma content_write [simp]: "content (snd (db_write R db b)) = apply_batch b (content db)"
  using write_pair by (rule write_ok)

lemma forward_eq [simp]:
  "db_forward R db from upper = map Inr (entries (content db) (\<lambda>k. from \<le> k \<and> below upper k))"
  using forward_items [of db "from" upper]
proof (elim disjE exE conjE)
  fix kvs e tl
  assume "db_forward R db from upper = map Inr kvs @ Inl e # tl"
  then show ?thesis using forward_total [of e db "from" upper] by simp
qed

lemma reverse_eq [simp]:
  "db_reverse R db from upper =
     map Inr (rev (entries (content db) (\<lambda>k. k \<le> from \<and> below upper k)))"
  using reverse_items [of db "from" upper]
proof (elim disjE exE conjE)
  fix kvs e tl
  assume "db_reverse R db from upper = map Inr kvs @ Inl e # tl"
  then show ?thesis using reverse_total [of e db "from" upper] by simp
qed

lemma map_while_ok_Inr [simp]: "map_while_ok (map Inr xs) = xs"
  by (induction xs) auto

lemma for_each_from_visit:
  "for_each_from R db from excl f s =
     (Inr (), visit (entries (content db) (\<lambda>k. if excl then from < k else from \<le> k)) f s)"
proof (cases excl)
  case False
  then show ?thesis by (simp add: for_each_from_def for_each_items_visit below_def)
next
  case True
  let ?kvs = "entries (content db) (\<lambda>k. from \<le> k)"
  have "k \<noteq> from" if "(k, v) \<in> set (tl ?kvs)" for k v
  proof (cases ?kvs)
    case (Cons kv rest)
    have "(k, v) \<in> set rest" using that Cons by simp
    moreover have "distinct (map fst (kv # rest))" "sorted (map fst (kv # rest))"
      using distinct_entries sorted_entries Cons by metis+
    ultimately have "fst kv \<le> k" "fst kv \<noteq> k"
      by (force simp: image_iff)+
    moreover have "from \<le> fst kv"
      using set_entries [OF finite_dom, of db "\<lambda>k. from \<le> k"] Cons
      by (metis (mono_tags, lifting) case_prodE fst_conv list.set_intros(1) mem_Collect_eq)
    ultimately show ?thesis by auto
  qed (use that in simp)
  then have "for_each_items (map Inr ?kvs) True from f s
           = (Inr (), visit (filter (\<lambda>(k, _). k \<noteq> from) ?kvs) f s)"
    by (intro for_each_items_skip distinct_entries) blast
  moreover have "filter (\<lambda>(k, _). k \<noteq> from) ?kvs = entries (content db) (\<lambda>k. from < k)"
    by (simp add: filter_entries) (rule entries_cong, auto)
  ultimately show ?thesis
    using True by (simp add: for_each_from_def below_def)
qed

lemma forward_iter_eq:
  "forward_iter R db from upper = entries (content db) (\<lambda>k. from \<le> k \<and> below upper k)"
  by (simp add: forward_iter_def)

lemma prefix_entries:
  "entries m (\<lambda>k. pfx \<le> k \<and> below (key_upper_bound pfx) k) = entries m (Sublist.prefix pfx)"
  by (rule entries_cong) (use key_upper_bound_in in blast)

lemma for_each_down_from_visit:
  "for_each_down_from R db from excl f s =
     (Inr (), visit (rev (entries (content db) (\<lambda>k. if excl then k < from else k \<le> from))) f s)"
proof -
  let ?kvs = "entries (content db) (\<lambda>k. k \<le> from)"
  have win: "entries (content db) (\<lambda>k. k \<le> from \<and> below (Some (from @ [0])) k) = ?kvs"
    by (rule entries_cong) (auto simp: below_def intro: le_less_trans [OF _ less_append_self])
  show ?thesis
  proof (cases excl)
    case False
    then show ?thesis by (simp add: for_each_down_from_def for_each_items_visit win rev_map)
  next
    case True
    have "k \<noteq> from" if "(k, v) \<in> set (tl (rev ?kvs))" for k v
    proof (cases ?kvs rule: rev_cases)
      case (snoc rest kv)
      have "(k, v) \<in> set rest" using that snoc by simp
      moreover have "distinct (map fst (rest @ [kv]))" "sorted (map fst (rest @ [kv]))"
        using distinct_entries sorted_entries snoc by metis+
      ultimately have "k \<le> fst kv" "fst kv \<noteq> k"
        by (force simp: image_iff sorted_append)+
      moreover have "fst kv \<le> from"
        using set_entries [OF finite_dom, of db "\<lambda>k. k \<le> from"] snoc
        by (metis (mono_tags, lifting) case_prodE fst_conv in_set_conv_decomp mem_Collect_eq)
      ultimately show ?thesis by auto
    qed (use that in simp)
    then have "for_each_items (map Inr (rev ?kvs)) True from f s
             = (Inr (), visit (filter (\<lambda>(k, _). k \<noteq> from) (rev ?kvs)) f s)"
      by (intro for_each_items_skip) (blast | simp add: rev_map [symmetric] distinct_rev)+
    moreover have "filter (\<lambda>(k, _). k \<noteq> from) (rev ?kvs)
                 = rev (entries (content db) (\<lambda>k. k < from))"
      by (simp add: rev_filter [symmetric] filter_entries) (rule entries_cong, auto)
    ultimately show ?thesis
      using True by (simp add: for_each_down_from_def win rev_map)
  qed
qed

lemma delete_range_content:
  "fst (delete_range R db lower upper) = Inr () \<and>
   content (snd (delete_range R db lower upper)) =
     (\<lambda>k. if lower \<le> k \<and> (upper = [] \<or> k < upper) then None else content db k)"
proof (cases "upper = []")
  case False
  then show ?thesis by (simp add: delete_range_def batch_write_def)
next
  case True
  let ?kvs = "entries (content db) (\<lambda>k. lower \<le> k)"
  have "visit ?kvs (\<lambda>k _ batch. (True, batch @ [Delete k])) [] = map (\<lambda>(k, v). Delete k) ?kvs"
    by (simp add: visit_all [where g = "\<lambda>k _ batch. batch @ [Delete k]"] fold_collect)
  also have "\<dots> = map Delete (map fst ?kvs)"
    by (simp add: case_prod_beta comp_def del: entries_fst)
  finally have "visit ?kvs (\<lambda>k _ batch. (True, batch @ [Delete k])) [] = map Delete (map fst ?kvs)" .
  then show ?thesis
    using True
    by (auto simp: delete_range_def batch_write_def for_each_from_visit apply_batch_deletes fun_eq_iff
        simp del: map_map)
qed

lemma delete_page_visit_eq:
  fixes upper :: bytes
  assumes "sorted (map fst kvs)" "length keys \<le> page"
  defines "W \<equiv> filter (\<lambda>(k, _). upper = [] \<or> k < upper) kvs"
  shows "visit kvs (delete_page_visit upper page) (keys, nxt) =
     (keys @ map fst (take (page - length keys) W),
      if page < length keys + length W then fst (W ! (page - length keys)) else nxt)"
  using assms(1,2) unfolding W_def
proof (induction kvs arbitrary: keys)
  case (Cons kv kvs)
  obtain k v where kv: "kv = (k, v)" by (cases kv)
  consider (out) "upper \<noteq> []" "upper \<le> k"
    | (full) "upper = [] \<or> k < upper" "length keys = page"
    | (take) "upper = [] \<or> k < upper" "length keys < page"
    using Cons.prems(2) by force
  then show ?case
  proof cases
    case out
    then have "filter (\<lambda>(k, _). upper = [] \<or> k < upper) (kv # kvs) = []"
      using Cons.prems(1) by (fastforce simp: kv filter_empty_conv)
    then show ?thesis using out Cons.prems by (simp add: kv delete_page_visit_def)
  next
    case full
    then show ?thesis by (auto simp: kv delete_page_visit_def)
  next
    case take
    then obtain d where d: "page = Suc (length keys + d)" using less_imp_Suc_add by auto
    show ?thesis using take Cons.prems Cons.IH [of "keys @ [k]"]
      by (auto simp: kv delete_page_visit_def d Suc_diff_le)
  qed
qed simp

end

lemma sorted_drop_set:
  assumes "sorted xs" "distinct xs" "n < length xs"
  shows "set (drop n xs) = {x \<in> set xs. xs ! n \<le> (x :: 'a::linorder)}"
proof -
  have drop: "drop n xs = xs ! n # drop (Suc n) xs"
    using assms(3) by (simp add: Cons_nth_drop_Suc)
  have xs: "xs = take n xs @ xs ! n # drop (Suc n) xs"
    unfolding drop [symmetric] by simp
  have ord: "sorted (take n xs @ xs ! n # drop (Suc n) xs)"
    "distinct (take n xs @ xs ! n # drop (Suc n) xs)"
    using assms(1,2) unfolding xs [symmetric] by blast+
  have "set xs = set (take n xs) \<union> set (drop n xs)"
    by (metis append_take_drop_id set_append)
  then show ?thesis
    using ord unfolding drop by (auto simp: sorted_append)
qed

context healthy_rocksdb
begin

lemma delete_page_once_eq:
  fixes db cursor upper page
  defines "ks \<equiv> sorted_list_of_set {k \<in> dom (content db). cursor \<le> k \<and> (upper = [] \<or> k < upper)}"
    and "p \<equiv> max page 1"
  shows "\<exists>db'. delete_page_once R db cursor upper page =
      (Inr (min p (length ks), if p < length ks then ks ! p else cursor), db') \<and>
    content db' = (\<lambda>k. if k \<in> set (take p ks) then None else content db k)"
proof -
  let ?kvs = "entries (content db) (\<lambda>k. cursor \<le> k)"
  let ?W = "entries (content db) (\<lambda>k. cursor \<le> k \<and> (upper = [] \<or> k < upper))"
  have W: "filter (\<lambda>(k, _). upper = [] \<or> k < upper) ?kvs = ?W"
    by (simp add: filter_entries)
  have ks: "map fst ?W = ks" by (simp add: ks_def)
  have len: "length ?W = length ks" by (simp add: ks_def length_entries)
  have "visit ?kvs (delete_page_visit upper p) ([], cursor) =
      (map fst (take p ?W), if p < length ?W then fst (?W ! p) else cursor)"
    using delete_page_visit_eq [of ?kvs "[]" p upper cursor] unfolding W by simp
  also have "\<dots> = (take p (map fst ?W), if p < length ?W then map fst ?W ! p else cursor)"
    by (simp add: take_map del: entries_fst)
  also have "\<dots> = (take p ks, if p < length ks then ks ! p else cursor)"
    unfolding ks len ..
  finally have visit: "visit ?kvs (delete_page_visit upper p) ([], cursor)
      = (take p ks, if p < length ks then ks ! p else cursor)" .
  have p: "0 < p" by (simp add: p_def)
  show ?thesis
    unfolding delete_page_once_def Let_def p_def [symmetric] for_each_from_visit
    using p by (auto simp: visit batch_write_def apply_batch_deletes min_def)
qed

lemma delete_pages_total:
  "\<exists>db'. delete_pages R db cursor upper page tot = Some
      (Inr (tot + card {k \<in> dom (content db). cursor \<le> k \<and> (upper = [] \<or> k < upper)}), db') \<and>
    content db' = (\<lambda>k. if cursor \<le> k \<and> (upper = [] \<or> k < upper) then None else content db k)"
proof (induction "card {k \<in> dom (content db). cursor \<le> k \<and> (upper = [] \<or> k < upper)}"
    arbitrary: db cursor tot rule: less_induct)
  case less
  define S where "S = {k \<in> dom (content db). cursor \<le> k \<and> (upper = [] \<or> k < upper)}"
  define ks where "ks = sorted_list_of_set S"
  define p where "p = max page 1"
  define nxt where "nxt = (if p < length ks then ks ! p else cursor)"
  have fin: "finite S" by (simp add: S_def)
  then have ks: "set ks = S" "length ks = card S" "sorted ks" "distinct ks"
    by (simp_all add: ks_def)
  have mem: "k \<in> S \<longleftrightarrow> content db k \<noteq> None \<and> cursor \<le> k \<and> (upper = [] \<or> k < upper)" for k
    by (auto simp: S_def)
  have p: "0 < p" by (simp add: p_def)
  obtain db1 where page: "delete_page_once R db cursor upper page = (Inr (min p (length ks), nxt), db1)"
    and db1: "content db1 = (\<lambda>k. if k \<in> set (take p ks) then None else content db k)"
    using delete_page_once_eq unfolding p_def ks_def S_def nxt_def by blast
  let ?S1 = "{k \<in> dom (content db1). nxt \<le> k \<and> (upper = [] \<or> k < upper)}"
  have take_drop: "S = set (take p ks) \<union> set (drop p ks)"
    using ks(1) by (metis append_take_drop_id set_append)
  have disj: "set (take p ks) \<inter> set (drop p ks) = {}"
    using ks(4) by (simp add: set_take_disj_set_drop_if_distinct)
  have S1: "?S1 = set (drop p ks)"
  proof (cases "p < length ks")
    case True
    then have "set (drop p ks) = {k \<in> S. ks ! p \<le> k}"
      using sorted_drop_set ks by blast
    moreover have "cursor \<le> ks ! p" using nth_mem [OF True] unfolding ks(1) mem by blast
    ultimately show ?thesis using True disj by (auto simp: db1 mem nxt_def split: if_splits)
  next
    case False
    then show ?thesis using ks(1) by (auto simp: db1 mem nxt_def split: if_splits)
  qed
  have card1: "card ?S1 = card S - p"
    unfolding S1 using ks(2,4) by (simp add: distinct_card)
  show ?case
  proof (cases "S = {}")
    case True
    then have "content db k = None" if "cursor \<le> k" "upper = [] \<or> k < upper" for k
      using that mem by blast
    moreover have "ks = []" using True ks(1) by simp
    ultimately show ?thesis
      using page db1 True unfolding S_def [symmetric]
      by (subst delete_pages.simps) (auto simp: fun_eq_iff)
  next
    case False
    then have pos: "0 < card S" using fin by (simp add: card_gt_0_iff)
    then have "card ?S1 < card S" using p card1 by simp
    then obtain db2 where db2: "delete_pages R db1 nxt upper page (tot + min p (card S)) =
        Some (Inr (tot + min p (card S) + card ?S1), db2)"
      "content db2 = (\<lambda>k. if nxt \<le> k \<and> (upper = [] \<or> k < upper) then None else content db1 k)"
      using less.hyps [of db1 nxt "tot + min p (card S)"] unfolding S_def by blast
    have "tot + min p (card S) + card ?S1 = tot + card S" using card1 by simp
    moreover have "content db2 k =
        (if cursor \<le> k \<and> (upper = [] \<or> k < upper) then None else content db k)" for k
    proof (cases "k \<in> S")
      case True
      then consider "k \<in> set (take p ks)" | "k \<in> ?S1" using S1 take_drop by blast
      then show ?thesis using True by cases (auto simp: db2(2) db1 mem)
    next
      case False
      then have "k \<notin> ?S1" "k \<notin> set (take p ks)" using S1 take_drop by blast+
      then show ?thesis using False by (auto simp: db2(2) db1 mem)
    qed
    ultimately show ?thesis
      using page pos p db2(1) ks(2) unfolding S_def [symmetric]
      by (subst delete_pages.simps) auto
  qed
qed

end

subsection \<open>Multi-key writes and error paths\<close>

fun pairs_of :: "'a list \<Rightarrow> ('a \<times> 'a) list" where
  "pairs_of (k # v # rest) = (k, v) # pairs_of rest"
| "pairs_of _ = []"

lemma apply_mset_batch:
  "apply_batch (mset_batch pfx pairs) m (pfx @ k) =
     (case map_of (rev (pairs_of pairs)) k of Some v \<Rightarrow> Some v | None \<Rightarrow> m (pfx @ k))"
  by (induction pfx pairs arbitrary: m rule: mset_batch.induct)
     (auto simp: physical_key_def map_add_def split: option.splits)

lemma apply_mset_batch_other:
  "\<not> Sublist.prefix pfx k \<Longrightarrow> apply_batch (mset_batch pfx pairs) m k = m k"
  by (induction pfx pairs arbitrary: m rule: mset_batch.induct) (auto simp: physical_key_def)

context rocksdb_engine
begin

lemma store_errors_keep:
  "store_set R db pfx key val = (Inl e, db') \<Longrightarrow> content db' = content db"
  "store_del R db pfx key = (Inl e, db') \<Longrightarrow> content db' = content db"
  "store_mset R db pfx pairs = (Inl e, db') \<Longrightarrow> content db' = content db"
  "delete_range R db lower upper = (Inl e, db') \<Longrightarrow> content db' = content db"
  by (auto simp: store_set_def store_del_def store_mset_def delete_range_def batch_write_def Let_def
      dest: write_err write_ok split: sum.splits option.splits prod.splits if_splits)

end

context healthy_rocksdb
begin

lemma prefix_scans:
  "iter_prefix R db pfx = entries (content db) (Sublist.prefix pfx)"
  "prefix_iter_collect R db pfx limit =
     Inr (if limit = 0 then entries (content db) (Sublist.prefix pfx)
          else take limit (entries (content db) (Sublist.prefix pfx)))"
  "prefix_keys_collect R db pfx limit =
     (if limit = 0 then sorted_list_of_set {k \<in> dom (content db). Sublist.prefix pfx k}
      else take limit (sorted_list_of_set {k \<in> dom (content db). Sublist.prefix pfx k}))"
  by (simp_all add: iter_prefix_def prefix_iter_collect_def prefix_keys_collect_def forward_iter_eq
      prefix_entries)

lemma mset_mget:
  assumes "even (length pairs)"
  shows "fst (store_mset R db pfx pairs) = Inr ()"
    and "store_mget R (snd (store_mset R db pfx pairs)) pfx keys =
      map (\<lambda>k. case map_of (rev (pairs_of pairs)) k of
                 Some v \<Rightarrow> v
               | None \<Rightarrow> (case content db (pfx @ k) of Some v \<Rightarrow> v | None \<Rightarrow> [])) keys"
  using assms
  by (auto simp: store_mset_def store_mget_def store_get_def physical_key_def apply_mset_batch
      split: option.splits)

lemma mset_frame:
  "\<not> Sublist.prefix pfx k \<Longrightarrow> even (length pairs) \<Longrightarrow>
   content (snd (store_mset R db pfx pairs)) k = content db k"
  by (simp add: store_mset_def apply_mset_batch_other)

end

subsection \<open>An engine in memory\<close>

text \<open>
  A database that is an association list, as the instance the witnesses run on, and a read-only
  one whose writes fail.
\<close>
type_synonym mem_db = "kv list"

fun mem_apply :: "batch_op \<Rightarrow> mem_db \<Rightarrow> mem_db" where
  "mem_apply (Put k v) db = (k, v) # filter (\<lambda>(k', _). k' \<noteq> k) db"
| "mem_apply (Delete k) db = filter (\<lambda>(k', _). k' \<noteq> k) db"
| "mem_apply (DeleteRange lower upper) db = filter (\<lambda>(k, _). \<not> (lower \<le> k \<and> k < upper)) db"

definition mem_window :: "mem_db \<Rightarrow> (bytes \<Rightarrow> bool) \<Rightarrow> kv list" where
  "mem_window db P = map (\<lambda>k. (k, the (map_of db k))) (filter P (sort (remdups (map fst db))))"

definition mem_rocksdb :: "mem_db rocksdb" where
  "mem_rocksdb = \<lparr>
     db_get = (\<lambda>db k. Inr (map_of db k)),
     db_write = (\<lambda>db batch. (Inr (), fold mem_apply batch db)),
     db_forward = (\<lambda>db from upper. map Inr (mem_window db (\<lambda>k. from \<le> k \<and> below upper k))),
     db_reverse = (\<lambda>db from upper. map Inr (rev (mem_window db (\<lambda>k. k \<le> from \<and> below upper k)))) \<rparr>"

definition readonly_rocksdb :: "mem_db rocksdb" where
  "readonly_rocksdb = mem_rocksdb\<lparr>db_write := (\<lambda>db batch. (Inl ''IO error'', db))\<rparr>"

lemma map_of_filter_key:
  "map_of (filter (\<lambda>(k, _). Q k) db) k = (if Q k then map_of db k else None)"
  by (induction db) auto

lemma map_of_mem_apply: "map_of (mem_apply x db) = apply_op x (map_of db)"
  by (cases x) (auto simp: fun_eq_iff map_of_filter_key)

lemma map_of_mem_batch: "map_of (fold mem_apply b db) = apply_batch b (map_of db)"
  by (induction b arbitrary: db) (simp_all add: map_of_mem_apply)

lemma mem_window_entries: "mem_window db P = entries (map_of db) P"
proof -
  have "filter P (sort (remdups (map fst db))) = filter P (sorted_list_of_set (dom (map_of db)))"
    by (simp add: sorted_list_of_set_sort_remdups [symmetric] dom_map_of_conv_image_fst)
  then show ?thesis
    by (simp add: mem_window_def entries_def filter_sorted_list_of_set finite_dom_map_of)
qed

interpretation mem: healthy_rocksdb mem_rocksdb map_of
  by unfold_locales
     (auto simp: mem_rocksdb_def finite_dom_map_of map_of_mem_batch mem_window_entries)

interpretation readonly: rocksdb_engine readonly_rocksdb map_of
  by unfold_locales
     (auto simp: readonly_rocksdb_def mem_rocksdb_def finite_dom_map_of mem_window_entries)

lemma mem_healthy: "healthy_rocksdb mem_rocksdb map_of"
  by (rule mem.healthy_rocksdb_axioms)

lemma readonly_engine: "rocksdb_engine readonly_rocksdb map_of"
  by (rule readonly.rocksdb_engine_axioms)


subsection \<open>Cleaned paths\<close>

lemma split_on_nonempty [simp]: "split_on c xs \<noteq> []"
  by (cases xs) (auto split: list.splits)

lemma split_on_pieces: "p \<in> set (split_on c xs) \<Longrightarrow> c \<notin> set p"
  by (induction xs arbitrary: p) (auto split: list.splits if_splits)

lemma split_on_piece: "c \<notin> set p \<Longrightarrow> split_on c p = [p]"
  by (induction p) auto

lemma split_on_append: "c \<notin> set p \<Longrightarrow> split_on c (p @ c # xs) = p # split_on c xs"
  by (induction p) auto

lemma split_on_join:
  "ps \<noteq> [] \<Longrightarrow> \<forall>p \<in> set ps. c \<notin> set p \<Longrightarrow> split_on c (join_with c ps) = ps"
  by (induction c ps rule: join_with.induct) (simp_all add: split_on_piece split_on_append)

text \<open>The normal form: leading \<open>..\<close> components (relative paths only), then plain ones.\<close>
definition clean_path :: "bool \<Rightarrow> string list \<Rightarrow> bool" where
  "clean_path absolute parts \<longleftrightarrow>
     (\<exists>n rest. parts = replicate n ''..'' @ rest \<and> (absolute \<longrightarrow> n = 0) \<and>
        (\<forall>p \<in> set rest. p \<noteq> '''' \<and> p \<noteq> ''.'' \<and> p \<noteq> ''..'' \<and> CHR ''/'' \<notin> set p))"

lemma clean_pathI:
  "(absolute \<longrightarrow> n = 0) \<Longrightarrow>
   (\<forall>p \<in> set rest. p \<noteq> '''' \<and> p \<noteq> ''.'' \<and> p \<noteq> ''..'' \<and> CHR ''/'' \<notin> set p) \<Longrightarrow>
   clean_path absolute (replicate n ''..'' @ rest)"
  unfolding clean_path_def by blast

lemma clean_part_clean:
  assumes "clean_path a parts" "CHR ''/'' \<notin> set part"
  shows "clean_path a (clean_part a part parts)"
proof -
  obtain n rest where parts: "parts = replicate n ''..'' @ rest" and n: "a \<longrightarrow> n = 0"
    and rest: "\<forall>p \<in> set rest. p \<noteq> '''' \<and> p \<noteq> ''.'' \<and> p \<noteq> ''..'' \<and> CHR ''/'' \<notin> set p"
    using assms(1) unfolding clean_path_def by blast
  consider (skip) "part = '''' \<or> part = ''.''" | (up) "part = ''..''"
    | (plain) "part \<noteq> ''''" "part \<noteq> ''.''" "part \<noteq> ''..''"
    by blast
  then show ?thesis
  proof cases
    case skip
    then show ?thesis using assms(1) by (auto simp: clean_part_def)
  next
    case up
    show ?thesis
    proof (cases "rest = []")
      case True
      then have "clean_part a part parts = replicate (if a then n else Suc n) ''..'' @ []"
        using n by (auto simp: up parts clean_part_def replicate_append_same)
      moreover have "clean_path a (replicate (if a then n else Suc n) ''..'' @ [])"
        using n by (intro clean_pathI) auto
      ultimately show ?thesis by simp
    next
      case False
      then have "last rest \<noteq> ''..''" using rest by simp
      then have "clean_part a part parts = replicate n ''..'' @ butlast rest"
        using False by (simp add: up parts clean_part_def butlast_append)
      moreover have "clean_path a (replicate n ''..'' @ butlast rest)"
        using n rest by (intro clean_pathI) (auto dest: in_set_butlastD)
      ultimately show ?thesis by simp
    qed
  next
    case plain
    then have "clean_part a part parts = replicate n ''..'' @ (rest @ [part])"
      by (simp add: clean_part_def parts)
    moreover have "clean_path a (replicate n ''..'' @ (rest @ [part]))"
      using n rest plain assms(2) by (intro clean_pathI) auto
    ultimately show ?thesis by simp
  qed
qed

lemma clean_parts_clean:
  "clean_path a parts \<Longrightarrow> \<forall>p \<in> set ps. CHR ''/'' \<notin> set p \<Longrightarrow>
   clean_path a (fold (clean_part a) ps parts)"
  by (induction ps arbitrary: parts) (simp_all add: clean_part_clean)

lemma fold_clean_ups:
  "fold (clean_part False) (replicate n ''..'') (replicate k ''..'') = replicate (k + n) ''..''"
proof (induction n arbitrary: k)
  case (Suc n)
  have "clean_part False ''..'' (replicate k ''..'') = replicate (Suc k) ''..''"
    by (auto simp: clean_part_def replicate_append_same)
  then show ?case using Suc [of "Suc k"] by simp
qed simp

lemma fold_clean_plain:
  "\<forall>p \<in> set ps. p \<noteq> '''' \<and> p \<noteq> ''.'' \<and> p \<noteq> ''..'' \<Longrightarrow> fold (clean_part a) ps parts = parts @ ps"
  by (induction ps arbitrary: parts) (auto simp: clean_part_def)

lemma fold_clean_fixed: "clean_path a parts \<Longrightarrow> fold (clean_part a) parts [] = parts"
proof -
  assume "clean_path a parts"
  then obtain n rest where parts: "parts = replicate n ''..'' @ rest" and n: "a \<longrightarrow> n = 0"
    and rest: "\<forall>p \<in> set rest. p \<noteq> '''' \<and> p \<noteq> ''.'' \<and> p \<noteq> ''..''"
    unfolding clean_path_def by blast
  have "fold (clean_part a) (replicate n ''..'') [] = replicate n ''..''"
    using fold_clean_ups [of n 0] n by (cases a) simp_all
  then show ?thesis by (simp add: parts fold_clean_plain [OF rest])
qed

lemma clean_path_pieces:
  "clean_path a parts \<Longrightarrow> p \<in> set parts \<Longrightarrow> p \<noteq> '''' \<and> p \<noteq> ''.'' \<and> CHR ''/'' \<notin> set p"
proof -
  assume "clean_path a parts" and p: "p \<in> set parts"
  then obtain n rest where parts: "parts = replicate n ''..'' @ rest"
    and rest: "\<forall>p \<in> set rest. p \<noteq> '''' \<and> p \<noteq> ''.'' \<and> p \<noteq> ''..'' \<and> CHR ''/'' \<notin> set p"
    unfolding clean_path_def by blast
  have "p = ''..'' \<or> p \<in> set rest" using p unfolding parts by simp blast
  then show ?thesis
  proof
    assume "p = ''..''"
    then show ?thesis by simp
  qed (use rest in blast)
qed

text \<open>The string a normal form prints to, and that reading it back gives the same components.\<close>
definition show_path :: "bool \<Rightarrow> string list \<Rightarrow> string" where
  "show_path a parts =
     (let cleaned = (if a then ''/'' else '''') @ join_with (CHR ''/'') parts
      in if cleaned = '''' then ''.'' else cleaned)"

lemma join_with_Cons_hd: "p \<noteq> [] \<Longrightarrow> join_with c (p # ps) \<noteq> [] \<and> hd (join_with c (p # ps)) = hd p"
  by (cases ps) auto

lemma data_path_show:
  assumes "clean_path a parts"
  shows "data_path (show_path a parts) '''' = show_path a parts"
proof (cases parts)
  case Nil
  then show ?thesis by (cases a) (simp_all add: show_path_def data_path_def clean_part_def)
next
  case (Cons p ps)
  let ?s = "join_with (CHR ''/'') parts"
  have p: "p \<noteq> ''''" "CHR ''/'' \<notin> set p" using clean_path_pieces [OF assms] by (simp_all add: Cons)
  then have s: "?s \<noteq> []" "hd ?s \<noteq> CHR ''/''"
    using join_with_Cons_hd [of p "CHR ''/''" ps] hd_in_set [of p] unfolding Cons by metis+
  have split: "split_on (CHR ''/'') ?s = parts"
    using clean_path_pieces [OF assms] by (intro split_on_join) (auto simp: Cons)
  have fixed: "fold (clean_part a) parts [] = parts" by (rule fold_clean_fixed [OF assms])
  have empty: "clean_part a '''' [] = []" by (simp add: clean_part_def)
  show ?thesis
    using s split fixed empty by (cases a) (simp_all add: show_path_def data_path_def)
qed

lemma data_path_clean: "\<exists>a parts. clean_path a parts \<and> data_path sp b = show_path a parts"
proof -
  let ?joined = "if sp = '''' then b else if b = '''' then sp else sp @ ''/'' @ b"
  let ?a = "?joined \<noteq> [] \<and> hd ?joined = CHR ''/''"
  let ?parts = "fold (clean_part ?a) (split_on (CHR ''/'') ?joined) []"
  have "clean_path ?a []" by (auto simp: clean_path_def)
  then have "clean_path ?a ?parts" by (rule clean_parts_clean) (blast dest: split_on_pieces)
  moreover have "data_path sp b = show_path ?a ?parts"
    by (simp add: data_path_def show_path_def Let_def)
  ultimately show ?thesis by blast
qed

section \<open>Properties of the store\<close>

text \<open>C13: The scan window of a prefix, from the prefix itself up to \<open>key_upper_bound\<close> (or to the end
  of the keyspace when there is none), holds exactly the keys that start with the prefix: a
  range scan or a range delete over it can neither miss a key nor touch a neighbour's.\<close>
theorem key_upper_bound_window:
  "case key_upper_bound b of
     Some u \<Rightarrow> (\<forall>k. (b \<le> k \<and> k < u) = Sublist.prefix b k)
   | None \<Rightarrow> (\<forall>k. (b \<le> k) = Sublist.prefix b k)"
  using key_upper_bound_in [of b] by (cases "key_upper_bound b") (simp_all add: below_def conj_commute)

text \<open>On an engine without I/O errors the prefix scans return the entries under the prefix, in
  key order, cut at the limit when there is one.\<close>
theorem prefix_scans_exact:
  assumes "healthy_rocksdb R content"
  shows "iter_prefix R db pfx = entries (content db) (Sublist.prefix pfx) \<and>
    prefix_iter_collect R db pfx limit =
      Inr (if limit = 0 then entries (content db) (Sublist.prefix pfx)
           else take limit (entries (content db) (Sublist.prefix pfx))) \<and>
    prefix_keys_collect R db pfx limit =
      (if limit = 0 then sorted_list_of_set {k \<in> dom (content db). Sublist.prefix pfx k}
       else take limit (sorted_list_of_set {k \<in> dom (content db). Sublist.prefix pfx k}))"
  by (intro conjI healthy_rocksdb.prefix_scans [OF assms])

theorem prefix_scans_exact_witness:
  "iter_prefix mem_rocksdb [([7, 2], [1]), ([8], [2]), ([7], [3])] [7] = [([7], [3]), ([7, 2], [1])]"
proof -
  have "iter_prefix mem_rocksdb [([7, 2], [1]), ([8], [2]), ([7], [3])] [7] =
      entries (map_of [([7, 2], [1]), ([8], [2]), ([7], [3])]) (Sublist.prefix [7])"
    using prefix_scans_exact [OF mem_healthy] by blast
  also have "\<dots> = mem_window [([7, 2], [1]), ([8], [2]), ([7], [3])] (Sublist.prefix [7])"
    by (rule mem_window_entries [symmetric])
  also have "\<dots> = [([7], [3]), ([7, 2], [1])]"
    by code_simp
  finally show ?thesis .
qed

text \<open>C17: The paged wipe ends, reports the number of keys in \<open>[lower, upper)\<close> (to the end of the
  keyspace for an empty \<open>upper\<close>), removes exactly those keys and leaves every other key alone.\<close>
theorem delete_range_paged_exact:
  assumes "healthy_rocksdb R content"
  shows "\<exists>db'. delete_range_paged R db lower upper =
      Some (Inr (card {k \<in> dom (content db). lower \<le> k \<and> (upper = [] \<or> k < upper)}), db') \<and>
    content db' = (\<lambda>k. if lower \<le> k \<and> (upper = [] \<or> k < upper) then None else content db k)"
  using healthy_rocksdb.delete_pages_total [OF assms, of db lower upper DELETE_PAGE 0]
  by (simp add: delete_range_paged_def)

theorem delete_range_paged_exact_witness:
  "\<exists>db'. delete_range_paged mem_rocksdb [([7, 2], [1]), ([8], [2]), ([7], [3])] [7] [8] =
      Some (Inr 2, db') \<and> map_of db' [8] = Some [2] \<and> map_of db' [7, 2] = None"
proof -
  let ?db = "[([7, 2], [1]), ([8], [2]), ([7], [3])] :: mem_db"
  have "{k \<in> dom (map_of ?db). [7] \<le> k \<and> ([8] = [] \<or> k < [8])} = {[7, 2], [7]}"
    by (auto simp: dom_map_of_conv_image_fst)
  then show ?thesis
    using delete_range_paged_exact [OF mem_healthy, of ?db "[7]" "[8]"] by auto
qed

text \<open>A successful \<open>mset\<close> is visible to \<open>mget\<close>: each key reads back its last value in the
  argument list, a key that was not written keeps its old one, and no key outside the prefix
  changes.\<close>
theorem mset_then_mget:
  assumes "healthy_rocksdb R content" "even (length pairs)"
  shows "fst (store_mset R db pfx pairs) = Inr () \<and>
    store_mget R (snd (store_mset R db pfx pairs)) pfx keys =
      map (\<lambda>k. case map_of (rev (pairs_of pairs)) k of
                 Some v \<Rightarrow> v
               | None \<Rightarrow> (case content db (pfx @ k) of Some v \<Rightarrow> v | None \<Rightarrow> [])) keys \<and>
    (\<forall>k. Sublist.prefix pfx k \<or> content (snd (store_mset R db pfx pairs)) k = content db k)"
  using healthy_rocksdb.mset_mget [OF assms] healthy_rocksdb.mset_frame [OF assms(1) _ assms(2)]
  by blast

theorem mset_then_mget_witness:
  "store_mget mem_rocksdb (snd (store_mset mem_rocksdb [] [9] [[1], [5], [2], [6], [1], [7]])) [9]
     [[1], [2], [3]] = [[7], [6], []]"
  using mset_then_mget [OF mem_healthy, of "[[1], [5], [2], [6], [1], [7]]" "[]" "[9]" "[[1], [2], [3]]"]
  by simp

text \<open>A store operation that reports an error leaves the content as it was: a failed batch is
  never half applied.\<close>
theorem failed_write_keeps_content:
  assumes "rocksdb_engine R content"
    and "store_set R db pfx key val = (Inl e, db') \<or> store_del R db pfx key = (Inl e, db') \<or>
      store_mset R db pfx pairs = (Inl e, db') \<or> delete_range R db lower upper = (Inl e, db')"
  shows "content db' = content db"
  using assms(2) by (elim disjE) (erule rocksdb_engine.store_errors_keep [OF assms(1)])+

theorem failed_write_keeps_content_witness:
  "store_set readonly_rocksdb [([1], [2])] [] [1] [3] = (Inl ''IO error'', [([1], [2])]) \<and>
   map_of [([1 :: u8], [2 :: u8])] = map_of [([1], [2])]"
proof -
  have *: "store_set readonly_rocksdb [([1], [2])] [] [1] [3] = (Inl ''IO error'', [([1], [2])])"
    by (simp add: store_set_def readonly_rocksdb_def)
  show ?thesis
    using * failed_write_keeps_content [OF readonly_engine disjI1 [OF *]] by blast
qed

text \<open>\<open>data_path\<close> returns a canonical path: cleaning its result again changes nothing.\<close>
theorem data_path_canonical: "data_path (data_path store_path bnd) '''' = data_path store_path bnd"
  using data_path_clean [of store_path bnd] data_path_show by auto

end
