(* ===== verification/Rdb_Codec.thy ===== *)
theory Rdb_Codec
  imports Rdb_Store
begin

text \<open>
  The derived-key codec, \<^verbatim>\<open>src/ds/codec.rs\<close> and the type names of \<^verbatim>\<open>src/ds/mod.rs\<close>: the kind
  bytes and their families, the physical keys of typed records, of the expire index and of
  staged delay rows with their inverses, the LEB128 value envelope and count, and the delete
  ranges of a key.  Keys are byte lists; a length is truncated to \<open>u32\<close> as the code does.
\<close>

section \<open>Kind bytes and families\<close>

named_theorems kind_simps \<open>values of the kind bytes and families\<close>

type_synonym codec_family = "u8 \<times> u8"

definition KIND_STRING :: u8 where [kind_simps]: "KIND_STRING = 0"

definition KIND_STRING_TTL :: u8 where [kind_simps]: "KIND_STRING_TTL = 1"

definition KIND_HASH_META :: u8 where [kind_simps]: "KIND_HASH_META = 2"

definition KIND_HASH_FLD :: u8 where [kind_simps]: "KIND_HASH_FLD = 3"

definition KIND_LIST_META :: u8 where [kind_simps]: "KIND_LIST_META = 4"

definition KIND_LIST_L :: u8 where [kind_simps]: "KIND_LIST_L = 5"

definition KIND_LIST_R :: u8 where [kind_simps]: "KIND_LIST_R = 6"

definition KIND_SET_META :: u8 where [kind_simps]: "KIND_SET_META = 7"

definition KIND_SET_MEMBER :: u8 where [kind_simps]: "KIND_SET_MEMBER = 8"

definition KIND_ZSET_META :: u8 where [kind_simps]: "KIND_ZSET_META = 9"

definition KIND_ZSET_MEMBER :: u8 where [kind_simps]: "KIND_ZSET_MEMBER = 0xa"

definition KIND_ZSET_SCORE :: u8 where [kind_simps]: "KIND_ZSET_SCORE = 0xb"

definition KIND_STREAM_META :: u8 where [kind_simps]: "KIND_STREAM_META = 0xc"

definition KIND_STREAM_ENTRY :: u8 where [kind_simps]: "KIND_STREAM_ENTRY = 0xd"

definition KIND_STREAM_GROUP :: u8 where [kind_simps]: "KIND_STREAM_GROUP = 0xe"

definition KIND_STREAM_PEND :: u8 where [kind_simps]: "KIND_STREAM_PEND = 0xf"

definition KIND_JSON :: u8 where [kind_simps]: "KIND_JSON = 0x10"

definition KIND_VECTORSET_META :: u8 where [kind_simps]: "KIND_VECTORSET_META = 0x11"

definition KIND_VECTORSET_ELEM :: u8 where [kind_simps]: "KIND_VECTORSET_ELEM = 0x12"

definition KIND_SEARCH_META :: u8 where [kind_simps]: "KIND_SEARCH_META = 0x13"

definition KIND_SEARCH_DOC :: u8 where [kind_simps]: "KIND_SEARCH_DOC = 0x14"

definition KIND_SEARCH_POSTING :: u8 where [kind_simps]: "KIND_SEARCH_POSTING = 0x15"

definition KIND_SEARCH_TERMSTAT :: u8 where [kind_simps]: "KIND_SEARCH_TERMSTAT = 0x16"

definition KIND_ANN_CENTROID :: u8 where [kind_simps]: "KIND_ANN_CENTROID = 0x17"

definition KIND_ANN_POSTING :: u8 where [kind_simps]: "KIND_ANN_POSTING = 0x18"

definition KIND_SEARCH_NUMVAL :: u8 where [kind_simps]: "KIND_SEARCH_NUMVAL = 0x19"

definition KIND_STREAM_DELAY :: u8 where [kind_simps]: "KIND_STREAM_DELAY = 0x1d"

definition KIND_STREAM_OFFSET :: u8 where [kind_simps]: "KIND_STREAM_OFFSET = 0x20"

definition KIND_EXPIRE_INDEX :: u8 where [kind_simps]: "KIND_EXPIRE_INDEX = 0xfd"

definition STRING_FAMILY :: codec_family where
  [kind_simps]: "STRING_FAMILY = (KIND_STRING_TTL, KIND_STRING_TTL)"

definition HASH_FAMILY :: codec_family where
  [kind_simps]: "HASH_FAMILY = (KIND_HASH_META, KIND_HASH_FLD)"

definition LIST_FAMILY :: codec_family where
  [kind_simps]: "LIST_FAMILY = (KIND_LIST_META, KIND_LIST_R)"

definition SET_FAMILY :: codec_family where
  [kind_simps]: "SET_FAMILY = (KIND_SET_META, KIND_SET_MEMBER)"

definition ZSET_FAMILY :: codec_family where
  [kind_simps]: "ZSET_FAMILY = (KIND_ZSET_META, KIND_ZSET_SCORE)"

definition STREAM_FAMILY :: codec_family where
  [kind_simps]: "STREAM_FAMILY = (KIND_STREAM_META, KIND_STREAM_PEND)"

definition DELAY_FAMILY :: codec_family where
  [kind_simps]: "DELAY_FAMILY = (KIND_STREAM_DELAY, KIND_STREAM_DELAY)"

definition OFFSET_FAMILY :: codec_family where
  [kind_simps]: "OFFSET_FAMILY = (KIND_STREAM_OFFSET, KIND_STREAM_OFFSET)"

definition JSON_FAMILY :: codec_family where
  [kind_simps]: "JSON_FAMILY = (KIND_JSON, KIND_JSON)"

definition VECTORSET_FAMILY :: codec_family where
  [kind_simps]: "VECTORSET_FAMILY = (KIND_VECTORSET_META, KIND_VECTORSET_ELEM)"

definition SEARCH_FAMILY :: codec_family where
  [kind_simps]: "SEARCH_FAMILY = (KIND_SEARCH_META, KIND_SEARCH_NUMVAL)"

definition META_KINDS :: "u8 list" where
  "META_KINDS =
     [KIND_STRING_TTL, KIND_HASH_META, KIND_LIST_META, KIND_SET_META, KIND_ZSET_META,
      KIND_STREAM_META, KIND_JSON, KIND_VECTORSET_META, KIND_SEARCH_META]"

definition is_user_key_kind :: "u8 \<Rightarrow> bool" where
  "is_user_key_kind kind \<longleftrightarrow> kind \<in> set META_KINDS"

definition family_of :: "u8 \<Rightarrow> codec_family option" where
  "family_of kind =
     (if kind = KIND_STRING_TTL then Some STRING_FAMILY
      else if kind \<in> {KIND_HASH_META, KIND_HASH_FLD} then Some HASH_FAMILY
      else if kind \<in> {KIND_LIST_META, KIND_LIST_L, KIND_LIST_R} then Some LIST_FAMILY
      else if kind \<in> {KIND_SET_META, KIND_SET_MEMBER} then Some SET_FAMILY
      else if kind \<in> {KIND_ZSET_META, KIND_ZSET_MEMBER, KIND_ZSET_SCORE} then Some ZSET_FAMILY
      else if kind \<in> {KIND_STREAM_META, KIND_STREAM_ENTRY, KIND_STREAM_GROUP, KIND_STREAM_PEND}
        then Some STREAM_FAMILY
      else if kind = KIND_STREAM_OFFSET then Some OFFSET_FAMILY
      else if kind = KIND_STREAM_DELAY then Some DELAY_FAMILY
      else if kind = KIND_JSON then Some JSON_FAMILY
      else if kind \<in> {KIND_VECTORSET_META, KIND_VECTORSET_ELEM} then Some VECTORSET_FAMILY
      else if kind \<in> {KIND_SEARCH_META, KIND_SEARCH_DOC, KIND_SEARCH_POSTING,
          KIND_SEARCH_TERMSTAT, KIND_ANN_CENTROID, KIND_ANN_POSTING, KIND_SEARCH_NUMVAL}
        then Some SEARCH_FAMILY
      else None)"

definition type_name :: "u8 \<Rightarrow> string" where
  "type_name kind =
     (if kind \<in> {KIND_STRING, KIND_STRING_TTL} then ''string''
      else if kind \<in> {KIND_HASH_META, KIND_HASH_FLD} then ''hash''
      else if kind \<in> {KIND_LIST_META, KIND_LIST_L, KIND_LIST_R} then ''list''
      else if kind \<in> {KIND_SET_META, KIND_SET_MEMBER} then ''set''
      else if kind \<in> {KIND_ZSET_META, KIND_ZSET_MEMBER, KIND_ZSET_SCORE} then ''zset''
      else if kind \<in> {KIND_STREAM_META, KIND_STREAM_ENTRY, KIND_STREAM_GROUP, KIND_STREAM_PEND,
          KIND_STREAM_OFFSET} then ''stream''
      else if kind = KIND_JSON then ''ReJSON-RL''
      else if kind \<in> {KIND_VECTORSET_META, KIND_VECTORSET_ELEM} then ''vectorset''
      else if kind \<in> {KIND_SEARCH_META, KIND_SEARCH_DOC, KIND_SEARCH_POSTING,
          KIND_SEARCH_TERMSTAT, KIND_ANN_CENTROID, KIND_ANN_POSTING, KIND_SEARCH_NUMVAL}
        then ''search''
      else ''none'')"

section \<open>Physical keys\<close>

definition string_key :: "bytes \<Rightarrow> bytes \<Rightarrow> bytes" where
  "string_key pfx key = pfx @ key"

text \<open>\<open>key.len() as u32\<close>.\<close>
abbreviation len32 :: "bytes \<Rightarrow> u32" where
  "len32 key \<equiv> word_of_nat (length key)"

definition data_key :: "bytes \<Rightarrow> u8 \<Rightarrow> bytes \<Rightarrow> bytes" where
  "data_key pfx kind key = pfx @ [kind] @ u32_to_be (len32 key) @ key"

definition elem_key :: "bytes \<Rightarrow> u8 \<Rightarrow> bytes \<Rightarrow> bytes \<Rightarrow> bytes" where
  "elem_key pfx kind key sfx = data_key pfx kind key @ sfx"

definition decode_data_key :: "bytes \<Rightarrow> nat \<Rightarrow> (u8 \<times> bytes \<times> bytes) option" where
  "decode_data_key physical prefix_len = do {
     body \<leftarrow> get_from prefix_len physical;
     kind \<leftarrow> first_of body;
     if kind = KIND_STREAM_DELAY then None
     else do {
       _ \<leftarrow> family_of kind;
       lenb \<leftarrow> get_range 1 5 body;
       let len = unat (u32_from_be lenb);
       key \<leftarrow> get_range 5 (5 + len) body;
       Some (kind, key, (case get_from (5 + len) body of Some rest \<Rightarrow> rest | None \<Rightarrow> []))
     }
   }"

text \<open>The slice \<open>data_key[prefix.len()..]\<close>: every caller passes a key that starts with the
  prefix, a shorter one would panic.\<close>
definition expire_index_key :: "bytes \<Rightarrow> u64 \<Rightarrow> bytes \<Rightarrow> bytes" where
  "expire_index_key pfx expire_ms dkey =
     pfx @ [KIND_EXPIRE_INDEX] @ u64_to_be expire_ms @ drop (length pfx) dkey"

definition decode_expire_index_key :: "bytes \<Rightarrow> nat \<Rightarrow> (u64 \<times> bytes) option" where
  "decode_expire_index_key physical prefix_len = do {
     body \<leftarrow> get_from prefix_len physical;
     if first_of body \<noteq> Some KIND_EXPIRE_INDEX then None
     else do {
       expire \<leftarrow> get_range 1 9 body;
       rest \<leftarrow> get_from 9 body;
       Some (u64_from_be expire, rest)
     }
   }"

definition family_kinds :: "codec_family \<Rightarrow> u8 list" where
  "family_kinds fam = map word_of_nat [unat (fst fam) ..< Suc (unat (snd fam))]"

definition family_delete_ranges :: "bytes \<Rightarrow> codec_family \<Rightarrow> bytes \<Rightarrow> (bytes \<times> bytes) list" where
  "family_delete_ranges pfx fam key =
     map (\<lambda>kind.
       let lower = data_key pfx kind key;
           upper = (case key_upper_bound lower of Some u \<Rightarrow> u | None \<Rightarrow> [])
       in (lower, upper)) (family_kinds fam)"

section \<open>Values: the envelope and the count\<close>

text \<open>The \<open>while v >= 0x80\<close> loop shared by \<open>encode_envelope\<close> and \<open>encode_count\<close>.\<close>
function leb128 :: "u64 \<Rightarrow> bytes" where
  "leb128 v = (if 0x80 \<le> v then (ucast (v AND 0x7f) OR 0x80) # leb128 (drop_bit 7 v) else [ucast v])"
  by pat_completeness auto
termination
proof (relation "measure unat")
  fix v :: u64
  assume "0x80 \<le> v"
  then show "(drop_bit 7 v, v) \<in> measure unat"
    by (simp add: word_le_nat_alt drop_bit_eq_div unat_div)
qed simp

declare leb128.simps [simp del]

definition encode_envelope :: "u64 \<Rightarrow> bytes \<Rightarrow> bytes" where
  "encode_envelope expire_ms payload = leb128 expire_ms @ payload"

text \<open>The \<open>for (i, &b) in value.iter().enumerate()\<close> loop.\<close>
fun decode_envelope_loop :: "bytes \<Rightarrow> nat \<Rightarrow> u64 \<Rightarrow> nat \<Rightarrow> bytes \<Rightarrow> u64 \<times> bytes" where
  "decode_envelope_loop val i expire shift [] = (0, [])"
| "decode_envelope_loop val i expire shift (b # bs) =
     (if 9 \<le> i then (- 1, drop (min 10 (length val)) val)
      else let expire' = (if shift < 64 then expire OR push_bit shift (ucast (b AND 0x7f)) else expire)
        in if b AND 0x80 = 0 then (expire', drop (i + 1) val)
           else decode_envelope_loop val (i + 1) expire' (shift + 7) bs)"

definition decode_envelope :: "bytes \<Rightarrow> u64 \<times> bytes" where
  "decode_envelope val = decode_envelope_loop val 0 0 0 val"

definition encode_count :: "u64 \<Rightarrow> bytes" where
  "encode_count count = leb128 count"

fun decode_count_loop :: "u64 \<Rightarrow> nat \<Rightarrow> bytes \<Rightarrow> u64" where
  "decode_count_loop v shift [] = v"
| "decode_count_loop v shift (b # bs) =
     (let v' = (if shift < 64 then v OR push_bit shift (ucast (b AND 0x7f)) else v)
      in if b AND 0x80 = 0 then v' else decode_count_loop v' (shift + 7) bs)"

definition decode_count :: "bytes \<Rightarrow> u64" where
  "decode_count payload = decode_count_loop 0 0 payload"

section \<open>Classification and delay rows\<close>

datatype classification = Raw | Typed u8

definition classify :: "bytes \<Rightarrow> classification" where
  "classify after_prefix =
     (case first_of after_prefix of
        Some b \<Rightarrow>
          if b \<le> KIND_SEARCH_NUMVAL \<or> b = KIND_STREAM_DELAY \<or> b = KIND_EXPIRE_INDEX \<or>
             b = KIND_STREAM_OFFSET
          then Typed b else Raw
      | None \<Rightarrow> Raw)"

definition delay_window :: "bytes \<Rightarrow> bytes \<times> bytes" where
  "delay_window pfx = (pfx @ [KIND_STREAM_DELAY], pfx @ [KIND_STREAM_DELAY + 1])"

definition delay_row_key :: "bytes \<Rightarrow> u64 \<Rightarrow> bytes \<Rightarrow> u64 \<times> u64 \<Rightarrow> bytes" where
  "delay_row_key pfx due_ms stream locked =
     pfx @ [KIND_STREAM_DELAY] @ u64_to_be due_ms @ u32_to_be (len32 stream) @ stream @
     u64_to_be (fst locked) @ u64_to_be (snd locked)"

definition decode_delay_row_key :: "bytes \<Rightarrow> nat \<Rightarrow> (u64 \<times> bytes \<times> u64 \<times> u64) option" where
  "decode_delay_row_key physical prefix_len = do {
     body \<leftarrow> get_from prefix_len physical;
     if first_of body \<noteq> Some KIND_STREAM_DELAY then None
     else do {
       due \<leftarrow> get_range 1 9 body;
       slenb \<leftarrow> get_range 9 13 body;
       let slen = unat (u32_from_be slenb);
       stream \<leftarrow> get_range 13 (13 + slen) body;
       ms \<leftarrow> get_range (13 + slen) (21 + slen) body;
       sq \<leftarrow> get_range (21 + slen) (29 + slen) body;
       Some (u64_from_be due, stream, u64_from_be ms, u64_from_be sq)
     }
   }"

section \<open>Keys: round trips, injectivity and windows\<close>

lemma unat_len32 [simp]: "length key < 2 ^ 32 \<Longrightarrow> unat (len32 key) = length key"
  by (simp add: unat_of_nat)

lemma data_key_length [simp]: "length (data_key pfx kind key) = length pfx + 5 + length key"
  by (simp add: data_key_def)

lemma drop_prefix_data_key [simp]:
  "drop (length pfx) (data_key pfx kind key) = kind # u32_to_be (len32 key) @ key"
  by (simp add: data_key_def)

lemma prefix_data_key [simp, intro]: "Sublist.prefix pfx (data_key pfx kind key)"
  by (simp add: data_key_def)

lemma prefix_elem_key: "Sublist.prefix (data_key pfx kind key) k \<longleftrightarrow> (\<exists>s. k = elem_key pfx kind key s)"
  by (auto simp: elem_key_def prefix_def)

lemma get_range_Cons:
  "get_range (Suc a) (Suc b) (x # xs) = get_range a b xs"
  by (auto simp: get_range_def)

lemma get_from_Cons: "get_from (Suc a) (x # xs) = get_from a xs"
  by (auto simp: get_from_def)

lemma get_range_split:
  "length p = a \<Longrightarrow> get_range (a + i) (a + j) (p @ xs) = get_range i j xs"
  by (auto simp: get_range_def)

lemma decode_data_key_elem [codec_simps]:
  assumes "length key < 2 ^ 32" "family_of kind \<noteq> None" "kind \<noteq> KIND_STREAM_DELAY"
  shows "decode_data_key (elem_key pfx kind key s) (length pfx) = Some (kind, key, s)"
proof -
  let ?len = "u32_to_be (len32 key)"
  let ?body = "kind # ?len @ key @ s"
  have body: "get_from (length pfx) (elem_key pfx kind key s) = Some ?body"
    by (simp add: elem_key_def data_key_def)
  have len: "get_range 1 5 ?body = Some ?len"
    using get_range_append [of "[kind]" 1 5 ?len "key @ s"] by simp
  have key: "get_range 5 (5 + length key) ?body = Some key"
    using get_range_append [of "kind # ?len" 5 "5 + length key" key s] by simp
  have rest: "get_from (5 + length key) ?body = Some s"
    using get_from_append [of "kind # ?len @ key" "5 + length key" s] by simp
  have unat: "unat (u32_from_be ?len) = length key" using assms(1) by simp
  show ?thesis
    using assms(2,3) by (auto simp: decode_data_key_def body len [unfolded One_nat_def] key rest unat [simplified] Let_def)
qed

lemma elem_key_same_prefix_iff:
  assumes "length key < 2 ^ 32" "length key' < 2 ^ 32"
  shows "elem_key pfx kind key s = elem_key pfx kind' key' s' \<longleftrightarrow> kind = kind' \<and> key = key' \<and> s = s'"
proof
  assume eq: "elem_key pfx kind key s = elem_key pfx kind' key' s'"
  then have "kind = kind'" "len32 key = len32 key'" and rest: "key @ s = key' @ s'"
    by (simp_all add: elem_key_def data_key_def append_eq_append_conv)
  then have "length key = length key'" using assms unat_len32 by metis
  then show "kind = kind' \<and> key = key' \<and> s = s'" using \<open>kind = kind'\<close> rest by simp
qed simp

lemma drop_prefix_append: "Sublist.prefix pfx k \<Longrightarrow> pfx @ drop (length pfx) k = k"
  by (auto simp: prefix_def)

lemma decode_expire_index [codec_simps]:
  "decode_expire_index_key (expire_index_key pfx e dk) (length pfx) = Some (e, drop (length pfx) dk)"
proof -
  let ?body = "KIND_EXPIRE_INDEX # u64_to_be e @ drop (length pfx) dk"
  have body: "get_from (length pfx) (expire_index_key pfx e dk) = Some ?body"
    by (simp add: expire_index_key_def)
  have "get_range 1 9 ?body = Some (u64_to_be e)"
    using get_range_append [of "[KIND_EXPIRE_INDEX]" 1 9 "u64_to_be e" "drop (length pfx) dk"] by simp
  moreover have "get_from 9 ?body = Some (drop (length pfx) dk)"
    using get_from_append [of "KIND_EXPIRE_INDEX # u64_to_be e" 9 "drop (length pfx) dk"] by simp
  ultimately show ?thesis by (simp add: decode_expire_index_key_def body)
qed

lemma expire_index_less_iff:
  "expire_index_key pfx e dk < expire_index_key pfx e' dk' \<longleftrightarrow>
   e < e' \<or> e = e' \<and> drop (length pfx) dk < drop (length pfx) dk'"
  by (auto simp: expire_index_key_def append_less_append)

lemma family_kinds_member:
  "kind \<in> set (family_kinds fam) \<longleftrightarrow> fst fam \<le> kind \<and> kind \<le> snd fam"
proof -
  have "kind \<in> set (family_kinds fam) \<longleftrightarrow> (\<exists>n. unat (fst fam) \<le> n \<and> n \<le> unat (snd fam) \<and> kind = word_of_nat n)"
    by (auto simp: family_kinds_def image_iff less_Suc_eq_le)
  also have "\<dots> \<longleftrightarrow> unat (fst fam) \<le> unat kind \<and> unat kind \<le> unat (snd fam)"
  proof
    assume "\<exists>n. unat (fst fam) \<le> n \<and> n \<le> unat (snd fam) \<and> kind = word_of_nat n"
    then obtain n where n: "unat (fst fam) \<le> n" "n \<le> unat (snd fam)" "kind = word_of_nat n" by blast
    have "unat (snd fam) < 256" using unsigned_less [of "snd fam", where 'a = nat] by simp
    then have "unat kind = n" using n by (simp add: unat_of_nat)
    then show "unat (fst fam) \<le> unat kind \<and> unat kind \<le> unat (snd fam)" using n by simp
  next
    assume "unat (fst fam) \<le> unat kind \<and> unat kind \<le> unat (snd fam)"
    then show "\<exists>n. unat (fst fam) \<le> n \<and> n \<le> unat (snd fam) \<and> kind = word_of_nat n"
      by (intro exI [of _ "unat kind"]) simp
  qed
  finally show ?thesis by (simp add: word_le_nat_alt)
qed

text \<open>The key sets the delete ranges stand for.\<close>
definition in_range :: "bytes \<times> bytes \<Rightarrow> bytes \<Rightarrow> bool" where
  "in_range r k \<longleftrightarrow> fst r \<le> k \<and> (snd r = [] \<or> k < snd r)"

lemma family_delete_ranges_cover:
  "(\<exists>r \<in> set (family_delete_ranges pfx fam key). in_range r k) \<longleftrightarrow>
   (\<exists>kind s. fst fam \<le> kind \<and> kind \<le> snd fam \<and> k = elem_key pfx kind key s)"
proof -
  have one: "in_range (let lower = data_key pfx kind key;
           upper = (case key_upper_bound lower of Some u \<Rightarrow> u | None \<Rightarrow> []) in (lower, upper)) k
     \<longleftrightarrow> (\<exists>s. k = elem_key pfx kind key s)" for kind
    using key_upper_bound_in [of "data_key pfx kind key" k]
      key_upper_bound_Some_nonempty [of "data_key pfx kind key"]
    by (cases "key_upper_bound (data_key pfx kind key)")
       (auto simp: in_range_def below_def prefix_elem_key)
  have "(\<exists>r \<in> set (family_delete_ranges pfx fam key). in_range r k) \<longleftrightarrow>
      (\<exists>kind \<in> set (family_kinds fam). \<exists>s. k = elem_key pfx kind key s)"
    unfolding family_delete_ranges_def set_map bex_simps one ..
  then show ?thesis by (auto simp: family_kinds_member)
qed

lemma delay_row_roundtrip [codec_simps]:
  assumes "length stream < 2 ^ 32"
  shows "decode_delay_row_key (delay_row_key pfx due stream locked) (length pfx) =
    Some (due, stream, fst locked, snd locked)"
proof -
  let ?len = "u32_to_be (len32 stream)" and ?due = "u64_to_be due"
  let ?a = "u64_to_be (fst locked)" and ?b = "u64_to_be (snd locked)"
  let ?body = "KIND_STREAM_DELAY # ?due @ ?len @ stream @ ?a @ ?b"
  have body: "get_from (length pfx) (delay_row_key pfx due stream locked) = Some ?body"
    by (simp add: delay_row_key_def)
  have 1: "get_range 1 9 ?body = Some ?due"
    using get_range_append [of "[KIND_STREAM_DELAY]" 1 9 ?due "?len @ stream @ ?a @ ?b"] by simp
  have 2: "get_range 9 13 ?body = Some ?len"
    using get_range_append [of "KIND_STREAM_DELAY # ?due" 9 13 ?len "stream @ ?a @ ?b"] by simp
  have 3: "get_range 13 (13 + length stream) ?body = Some stream"
    using get_range_append [of "KIND_STREAM_DELAY # ?due @ ?len" 13 "13 + length stream" stream "?a @ ?b"]
    by simp
  have 4: "get_range (13 + length stream) (21 + length stream) ?body = Some ?a"
    using get_range_append [of "KIND_STREAM_DELAY # ?due @ ?len @ stream" "13 + length stream" "21 + length stream" ?a ?b] by simp
  have 5: "get_range (21 + length stream) (29 + length stream) ?body = Some ?b"
    using get_range_append [of "KIND_STREAM_DELAY # ?due @ ?len @ stream @ ?a" "21 + length stream" "29 + length stream" ?b "[]"] by simp
  have unat: "unat (u32_from_be ?len) = length stream" using assms by simp
  show ?thesis
    by (simp add: decode_delay_row_key_def body 1 [unfolded One_nat_def] 2 3 4 5 unat [simplified] Let_def)
qed

section \<open>LEB128\<close>

lemma low7_mask: "(0x7f :: 'a::len word) = mask 7"
  by (simp add: mask_eq_exp_minus_1)

lemma bit_0x80: "bit (0x80 :: int) n \<longleftrightarrow> n = 7"
  using bit_exp_iff [where 'a = int, of 7 n] by auto

lemma leb_cont:
  fixes v :: u64
  defines "b \<equiv> (ucast (v AND 0x7f) OR 0x80) :: u8"
  shows "b AND 0x80 \<noteq> 0" "ucast (b AND 0x7f) = v AND 0x7f"
proof -
  have "bit (b AND 0x80) 7"
    unfolding b_def by (simp add: bit_simps bit_0x80)
  then show "b AND 0x80 \<noteq> 0" by auto
  show "ucast (b AND 0x7f) = v AND 0x7f"
    unfolding b_def low7_mask
    by (rule bit_word_eqI) (auto simp: bit_simps bit_unsigned_iff bit_0x80)
qed

lemma small_take_bit: "v < 0x80 \<Longrightarrow> take_bit 7 v = (v :: u64)"
  by (simp add: take_bit_eq_mod word_less_nat_alt word_unat_eq_iff unat_mod)

lemma leb_last:
  fixes v :: u64
  assumes "v < 0x80"
  shows "(ucast v :: u8) AND 0x80 = 0" "ucast ((ucast v :: u8) AND 0x7f) = v"
proof -
  have bits: "bit v n \<Longrightarrow> n < 7" for n
    using small_take_bit [OF assms] bit_take_bit_iff [of 7 v n] by auto
  show "(ucast v :: u8) AND 0x80 = 0"
    by (rule bit_word_eqI) (auto simp: bit_simps bit_unsigned_iff bit_0x80 dest: bits)
  show "ucast ((ucast v :: u8) AND 0x7f) = v"
    unfolding low7_mask by (rule bit_word_eqI) (auto simp: bit_simps bit_unsigned_iff dest: bits)
qed

lemma leb_step:
  fixes x :: u64
  shows "take_bit s x OR push_bit s (drop_bit s x AND 0x7f) = take_bit (s + 7) x"
  unfolding low7_mask by (rule bit_word_eqI) (auto simp: bit_simps)

lemma leb_done:
  fixes x :: u64
  shows "take_bit s x OR push_bit s (drop_bit s x) = x"
proof (rule bit_word_eqI)
  fix n
  have "s + (n - s) = n" if "\<not> n < s" using that by simp
  then show "bit (take_bit s x OR push_bit s (drop_bit s x)) n = bit x n" if "n < LENGTH(64)"
    using that by (cases "n < s") (simp_all add: bit_simps)
qed

lemma decode_count_loop_leb:
  "v = drop_bit s x \<Longrightarrow> decode_count_loop (take_bit s x) s (leb128 v @ rest) = x"
proof (induction v arbitrary: s rule: leb128.induct)
  case (1 v)
  show ?case
  proof (cases "0x80 \<le> v")
    case True
    have "s < 64"
    proof (rule ccontr)
      assume "\<not> s < 64"
      then have "v = 0" using 1(2) by (auto intro: bit_word_eqI simp: bit_simps dest: bit_imp_le_length)
      then show False using True by simp
    qed
    moreover have "drop_bit 7 v = drop_bit (s + 7) x" using 1(2) by (simp add: add.commute)
    ultimately show ?thesis
      using 1(1) [OF True] True 1(2) leb_cont [of v] leb_step [of s x]
      by (subst leb128.simps) (simp add: Let_def)
  next
    case False
    then have "v < 0x80" by simp
    then show ?thesis
      using False 1(2) leb_last [of v] leb_done [of s x]
      by (subst leb128.simps) (auto simp: Let_def)
  qed
qed

lemma drop63: "drop_bit 63 (x :: u64) = 0 \<longleftrightarrow> x < 2 ^ 63"
  by (simp add: drop_bit_eq_div word_less_nat_alt word_unat_eq_iff unat_div div_eq_0_iff)

lemma drop63_small: "drop_bit 63 (x :: u64) < 0x80"
proof -
  have "unat x < 2 ^ 64" using unsigned_less [of x, where 'a = nat] by simp
  then show ?thesis by (simp add: drop_bit_eq_div word_less_nat_alt unat_div)
qed

lemma drop_small_bound:
  assumes "drop_bit (7 * i) (x :: u64) < 0x80" "i < 9"
  shows "x < 2 ^ 63"
proof -
  have "take_bit 7 (drop_bit (7 * i) x) = drop_bit (7 * i) x" by (rule small_take_bit [OF assms(1)])
  then have "\<not> bit (drop_bit (7 * i) x) n" if "7 \<le> n" for n
    using that bit_take_bit_iff [of 7 "drop_bit (7 * i) x" n] by simp
  then have "\<not> bit x (7 * i + n)" if "7 \<le> n" for n
    using that by (simp add: bit_simps)
  then have "\<not> bit x m" if "63 \<le> m" for m
  proof -
    have "7 \<le> m - 7 * i" "7 * i + (m - 7 * i) = m" using that assms(2) by linarith+
    then show ?thesis using \<open>\<And>n. 7 \<le> n \<Longrightarrow> \<not> bit x (7 * i + n)\<close> by metis
  qed
  then have "drop_bit 63 x = 0" by (intro bit_word_eqI) (simp add: bit_simps)
  then show ?thesis by (simp add: drop63)
qed

lemma decode_envelope_step:
  assumes "i < 9" "b AND 0x80 \<noteq> 0"
  shows "decode_envelope_loop val i acc (7 * i) (b # bs) =
    decode_envelope_loop val (Suc i) (acc OR push_bit (7 * i) (ucast (b AND 0x7f))) (7 * Suc i) bs"
  using assms by (simp add: Let_def add.commute)

lemma decode_envelope_loop_leb:
  assumes "val = pre @ leb128 v @ payload" "i = length pre" "i \<le> 9" "v = drop_bit (7 * i) x"
    "i = 0 \<or> v \<noteq> 0"
  shows "decode_envelope_loop val i (take_bit (7 * i) x) (7 * i) (leb128 v @ payload) =
    (if x < 2 ^ 63 then x else - 1, payload)"
  using assms
proof (induction v arbitrary: i pre rule: leb128.induct)
  case (1 v)
  show ?case
  proof (cases "i = 9")
    case True
    then have small: "v < 0x80" and big: "\<not> x < 2 ^ 63"
      using 1(5,6) drop63_small [of x] drop63 [of x] by simp_all
    from small have "leb128 v = [ucast v]" by (subst leb128.simps) auto
    then show ?thesis using 1(2,3) True big by simp
  next
    case False
    then have i: "i < 9" using 1(4) by simp
    show ?thesis
    proof (cases "0x80 \<le> v")
      case True
      let ?b = "(ucast (v AND 0x7f) OR 0x80) :: u8"
      have leb: "leb128 v = ?b # leb128 (drop_bit 7 v)" using True by (subst leb128.simps) simp
      have next_v: "drop_bit 7 v = drop_bit (7 * Suc i) x" using 1(5) by (simp add: add.commute)
      have nz: "drop_bit 7 v \<noteq> 0"
        using True by (simp add: drop_bit_eq_div word_le_nat_alt word_unat_eq_iff unat_div div_eq_0_iff)
      have "decode_envelope_loop val (Suc i) (take_bit (7 * Suc i) x) (7 * Suc i)
          (leb128 (drop_bit 7 v) @ payload) = (if x < 2 ^ 63 then x else - 1, payload)"
        using 1(1) [OF True, of "pre @ [?b]" "Suc i"] 1(2,3) i next_v nz by (simp add: leb)
      moreover have "take_bit (7 * i) x OR push_bit (7 * i) (v AND 0x7f) = take_bit (7 * Suc i) x"
        using leb_step [of "7 * i" x] unfolding 1(5) by (simp add: add.commute)
      ultimately show ?thesis
        unfolding leb append_Cons decode_envelope_step [OF i leb_cont(1)] leb_cont(2) by simp
    next
      case False
      then have "v < 0x80" by simp
      then have leb: "leb128 v = [ucast v]" by (subst leb128.simps) auto
      have "x < 2 ^ 63" using drop_small_bound [of i x] i \<open>v < 0x80\<close> unfolding 1(5) by simp
      moreover have "take_bit (7 * i) x OR push_bit (7 * i) v = x"
        using leb_done [of "7 * i" x] unfolding 1(5) .
      moreover have "drop (Suc i) val = payload" using 1(2,3) by (simp add: leb)
      ultimately show ?thesis
        using i leb_last [OF \<open>v < 0x80\<close>] unfolding leb by (simp add: Let_def)
    qed
  qed
qed

lemma decode_envelope_encode [simp, codec_simps]:
  "decode_envelope (encode_envelope e p) = (if e < 2 ^ 63 then e else - 1, p)"
  using decode_envelope_loop_leb [of "leb128 e @ p" "[]" e p 0 e]
  by (simp add: decode_envelope_def encode_envelope_def)

lemma decode_count_encode [simp, codec_simps]: "decode_count (encode_count n) = n"
  using decode_count_loop_leb [of n 0 n "[]"] by (simp add: decode_count_def encode_count_def)

lemma decode_count_encode_append [codec_simps]: "decode_count (encode_count n @ rest) = n"
  using decode_count_loop_leb [of n 0 n rest] by (simp add: decode_count_def encode_count_def)

lemma decode_envelope_Nil [simp]: "decode_envelope [] = (0, [])"
  by (simp add: decode_envelope_def)

lemma encode_envelope_nonempty [simp]: "encode_envelope e p \<noteq> []"
  by (simp add: encode_envelope_def leb128.simps [of e])

section \<open>Classification\<close>

lemma classify_Cons:
  "classify (b # bs) =
     (if b \<le> KIND_SEARCH_NUMVAL \<or> b = KIND_STREAM_DELAY \<or> b = KIND_EXPIRE_INDEX \<or>
        b = KIND_STREAM_OFFSET then Typed b else Raw)"
  by (simp add: classify_def)

lemma family_of_cases:
  assumes "family_of kind = Some fam"
  shows "classify (kind # rest) = Typed kind \<and> fst fam \<le> kind \<and> kind \<le> snd fam"
  using assms by (auto simp: family_of_def classify_Cons kind_simps split: if_splits)

lemma families_uniform:
  "list_all (\<lambda>kind. case family_of kind of None \<Rightarrow> True | Some fam \<Rightarrow>
     list_all (\<lambda>kind'. family_of kind' = Some fam \<and> type_name kind' = type_name kind)
       (family_kinds fam)) (family_kinds (0, KIND_STREAM_OFFSET))"
  by code_simp

lemma family_members_same_family:
  assumes "family_of kind = Some fam" "fst fam \<le> kind'" "kind' \<le> snd fam"
  shows "family_of kind' = Some fam \<and> (type_name kind' = type_name kind)"
proof -
  have "kind \<le> KIND_STREAM_OFFSET"
    using assms(1) by (auto simp: family_of_def kind_simps split: if_splits)
  then have "kind \<in> set (family_kinds (0, KIND_STREAM_OFFSET))" by (simp add: family_kinds_member)
  moreover have "kind' \<in> set (family_kinds fam)" using assms(2,3) by (simp add: family_kinds_member)
  ultimately show ?thesis
    using families_uniform assms(1) unfolding list_all_iff by fastforce
qed

section \<open>Properties of the codec\<close>

text \<open>C19: The physical key of a typed record decodes to its kind, user key and element suffix, for
  every data-shaped kind and every user key whose length fits the \<open>u32\<close> header.\<close>
theorem elem_key_roundtrip:
  assumes "length key < 2 ^ 32" "family_of kind \<noteq> None" "kind \<noteq> KIND_STREAM_DELAY"
  shows "decode_data_key (elem_key pfx kind key sfx) (length pfx) = Some (kind, key, sfx)"
  by (rule decode_data_key_elem [OF assms])

theorem elem_key_roundtrip_witness:
  "decode_data_key (elem_key [49, 47] KIND_HASH_FLD [107] [102, 49]) (length [49 :: u8, 47]) =
     Some (KIND_HASH_FLD, [107], [102, 49])"
  using elem_key_roundtrip [of "[107]" KIND_HASH_FLD "[49, 47]" "[102, 49]"]
  by (simp add: family_of_def kind_simps)

text \<open>C9: The delete ranges of a key cover exactly the records of that key under the family's
  kinds, and never a record of another key in the slot.\<close>
theorem family_delete_ranges_exact:
  assumes "length key < 2 ^ 32" "length other < 2 ^ 32" "other \<noteq> key"
  shows "(\<exists>r \<in> set (family_delete_ranges pfx fam key). in_range r k) =
      (\<exists>kind s. fst fam \<le> kind \<and> kind \<le> snd fam \<and> k = elem_key pfx kind key s) \<and>
    \<not> (\<exists>r \<in> set (family_delete_ranges pfx fam key). in_range r (elem_key pfx kind' other s'))"
  using assms by (simp add: family_delete_ranges_cover elem_key_same_prefix_iff)

theorem family_delete_ranges_exact_witness:
  "\<not> (\<exists>r \<in> set (family_delete_ranges [49, 47] ZSET_FAMILY [122]).
        in_range r (elem_key [49, 47] KIND_ZSET_META [122, 122] []))"
  using family_delete_ranges_exact [of "[122]" "[122, 122]" "[49, 47]" ZSET_FAMILY _ KIND_ZSET_META "[]"]
  by simp

text \<open>C11: A value envelope gives back the payload always and the expiry exactly below \<open>2 ^ 63\<close>
  (larger ones saturate at the maximum), and a count payload gives back its count.\<close>
theorem envelope_roundtrip:
  "decode_envelope (encode_envelope expire_ms payload) =
     (if expire_ms < 2 ^ 63 then expire_ms else - 1, payload) \<and>
   decode_count (encode_count count) = count"
  by simp

text \<open>An expire-index key decodes to its deadline and the record's body, and index keys of a
  slot sort by deadline first, so a forward scan meets the earliest deadlines first.\<close>
theorem expire_index_roundtrip_order:
  "decode_expire_index_key (expire_index_key pfx e dk) (length pfx) = Some (e, drop (length pfx) dk) \<and>
   (expire_index_key pfx e dk < expire_index_key pfx e' dk') =
     (e < e' \<or> (e = e' \<and> drop (length pfx) dk < drop (length pfx) dk'))"
  by (simp add: decode_expire_index expire_index_less_iff)

text \<open>A staged delay row's key decodes to its due time, stream and reserved id; the row lies in
  the slot's delay window and rows sort by due time across streams.\<close>
theorem delay_row_key_roundtrip_order:
  assumes "length stream < 2 ^ 32" "due < due'"
  shows "decode_delay_row_key (delay_row_key pfx due stream locked) (length pfx) =
      Some (due, stream, fst locked, snd locked) \<and>
    in_range (delay_window pfx) (delay_row_key pfx due stream locked) \<and>
    delay_row_key pfx due stream locked < delay_row_key pfx due' stream' locked'"
proof (intro conjI)
  show "decode_delay_row_key (delay_row_key pfx due stream locked) (length pfx) =
      Some (due, stream, fst locked, snd locked)"
    by (rule delay_row_roundtrip [OF assms(1)])
  show "in_range (delay_window pfx) (delay_row_key pfx due stream locked)"
    by (simp add: in_range_def delay_window_def delay_row_key_def kind_simps)
  show "delay_row_key pfx due stream locked < delay_row_key pfx due' stream' locked'"
    using assms(2) by (simp add: delay_row_key_def append_less_append)
qed

theorem delay_row_key_roundtrip_order_witness:
  "decode_delay_row_key (delay_row_key [49, 47] 5 [115] (1, 2)) (length [49 :: u8, 47]) = Some (5, [115], 1, 2) \<and>
   delay_row_key [49, 47] 5 [115] (1, 2) < delay_row_key [49, 47] 6 [97] (0, 1)"
  using delay_row_key_roundtrip_order [of "[115]" 5 6 "[49, 47]" "(1, 2)" "[97]" "(0, 1)"] by simp

text \<open>C40: The kind registry is coherent: every kind of a family is inside its span, is classified as
  a typed record with that kind, and every byte of the span belongs to the same family and has
  the same \<open>TYPE\<close> name.\<close>
theorem family_registry_coherent:
  assumes "family_of kind = Some fam" "fst fam \<le> kind'" "kind' \<le> snd fam"
  shows "fst fam \<le> kind \<and> kind \<le> snd fam \<and> classify (kind # rest) = Typed kind \<and>
    family_of kind' = Some fam \<and> type_name kind' = type_name kind"
  using family_of_cases [OF assms(1)] family_members_same_family [OF assms] by simp

theorem family_registry_coherent_witness:
  "family_of KIND_ZSET_MEMBER = Some ZSET_FAMILY \<and> type_name KIND_ZSET_MEMBER = type_name KIND_ZSET_META"
  using family_registry_coherent [of KIND_ZSET_META ZSET_FAMILY KIND_ZSET_MEMBER]
  by (simp add: family_of_def kind_simps)

text \<open>An overlong count does not saturate: the bytes past the 64th bit are ignored.\<close>
lemma decode_count_overlong: "decode_count (replicate 10 0x80 @ [1]) = 0"
  by code_simp

end
