(* ===== verification/Rdb_Expire.thy ===== *)
theory Rdb_Expire
  imports Rdb_Codec Rdb_Slot
begin

text \<open>
  Uniform TTL, \<^verbatim>\<open>src/ds/expire/{mod,lazy,active}.rs\<close>: the expire index maintained inside write
  batches, the lazy purge on reads (inline and detached) and the active sampler.  The clock
  (\<open>now_ms\<close>) is an argument.  A detached purge is a value \<open>detached\<close>: the task
  \<open>spawn_revalidated_write\<close> starts, run by \<open>run_detached\<close> at any later moment.  The Lite
  runtime's \<open>stream_reaped\<close> is recorded as the list of the streams reported to it.
\<close>

text \<open>\<open>Result::is_ok\<close>.\<close>
abbreviation is_ok :: "'a result \<Rightarrow> bool" where
  "is_ok r \<equiv> \<not> isl r"

section \<open>Deadlines, index entries and family deletes (mod.rs)\<close>

definition is_expired :: "u64 \<Rightarrow> u64 \<Rightarrow> bool" where
  "is_expired expire_ms now \<longleftrightarrow> expire_ms \<noteq> 0 \<and> expire_ms \<le> now"

text \<open>The entries \<open>set_ttl_entries\<close> appends to the batch.\<close>
definition set_ttl_entries :: "bytes \<Rightarrow> bytes \<Rightarrow> u64 \<Rightarrow> u64 \<Rightarrow> write_batch" where
  "set_ttl_entries pfx dkey old_expire new_expire =
     (if old_expire \<noteq> new_expire \<and> old_expire > 0
      then [Delete (expire_index_key pfx old_expire dkey)] else []) @
     (if new_expire > 0 then [Put (expire_index_key pfx new_expire dkey) []] else [])"

definition fold_delay_visit :: "bytes \<Rightarrow> bytes \<Rightarrow> bytes \<Rightarrow> write_batch visitor" where
  "fold_delay_visit pfx stream upper k v batch =
     (if upper \<le> k then (False, batch)
      else (True,
        if (case decode_delay_row_key k (length pfx) of Some (_, s, _) \<Rightarrow> s = stream | None \<Rightarrow> False)
        then batch @ [Delete k] else batch))"

definition fold_delay_rows :: "'db rocksdb \<Rightarrow> 'db \<Rightarrow> bytes \<Rightarrow> bytes \<Rightarrow> write_batch" where
  "fold_delay_rows R db pfx stream =
     (let (lower, upper) = delay_window pfx
      in snd (for_each_from R db lower False (fold_delay_visit pfx stream upper) []))"

definition family_delete_entries ::
    "'db rocksdb \<Rightarrow> 'db option \<Rightarrow> bytes \<Rightarrow> codec_family \<Rightarrow> bytes \<Rightarrow> u64 \<Rightarrow> write_batch" where
  "family_delete_entries R store pfx fam key expire =
     map (\<lambda>(lower, upper). DeleteRange lower upper) (family_delete_ranges pfx fam key) @
     (if fam = STREAM_FAMILY then
        map (\<lambda>(lower, upper). DeleteRange lower upper) (family_delete_ranges pfx OFFSET_FAMILY key) @
        (case store of Some db \<Rightarrow> fold_delay_rows R db pfx key | None \<Rightarrow> [])
      else []) @
     (if expire > 0 then [Delete (expire_index_key pfx expire (data_key pfx (fst fam) key))] else [])"

definition slot_prefix_len :: "bytes \<Rightarrow> nat option" where
  "slot_prefix_len k =
     (let digits = length (takeWhile is_ascii_digit k)
      in if digits = 0 \<or> digits > 5 \<or> get_at digits k \<noteq> Some 47 then None else Some (digits + 1))"

section \<open>Lazy purge (lazy.rs)\<close>

definition lazy_purge_batch ::
    "'db rocksdb \<Rightarrow> 'db \<Rightarrow> bytes \<Rightarrow> codec_family \<Rightarrow> bytes \<Rightarrow> u64 \<Rightarrow> (u64 \<times> write_batch) option" where
  "lazy_purge_batch R db pfx fam key now =
     (let root = data_key pfx (fst fam) key in
      case get_physical R db root of
        Inr (Some val) \<Rightarrow>
          (let (expire, _) = decode_envelope val in
           if \<not> is_expired expire now then None
           else Some (expire, family_delete_entries R (Some db) pfx fam key expire))
      | _ \<Rightarrow> None)"

definition purge_if_expired ::
    "'db rocksdb \<Rightarrow> 'db \<Rightarrow> bytes \<Rightarrow> codec_family \<Rightarrow> bytes \<Rightarrow> u64 \<Rightarrow> bool \<times> 'db" where
  "purge_if_expired R db pfx fam key now =
     (case lazy_purge_batch R db pfx fam key now of
        Some (_, batch) \<Rightarrow> (case batch_write R db batch of (r, db') \<Rightarrow> (is_ok r, db'))
      | None \<Rightarrow> (False, db))"

record detached =
  dt_root :: bytes
  dt_expire :: u64
  dt_batch :: write_batch

definition revalidate_expire :: "u64 \<Rightarrow> bytes option \<Rightarrow> bool" where
  "revalidate_expire expected current =
     (case current of Some val \<Rightarrow> fst (decode_envelope val) = expected | None \<Rightarrow> False)"

definition purge_if_expired_arc ::
    "'db rocksdb \<Rightarrow> 'db \<Rightarrow> bytes \<Rightarrow> codec_family \<Rightarrow> bytes \<Rightarrow> u64 \<Rightarrow> bool \<times> detached list" where
  "purge_if_expired_arc R db pfx fam key now =
     (let root = data_key pfx (fst fam) key in
      case lazy_purge_batch R db pfx fam key now of
        Some (expire, batch) \<Rightarrow>
          (True, [\<lparr>dt_root = root, dt_expire = expire, dt_batch = batch\<rparr>])
      | None \<Rightarrow> (False, []))"

text \<open>The spawned task of a detached purge.\<close>
definition run_detached :: "'db rocksdb \<Rightarrow> detached \<Rightarrow> 'db \<Rightarrow> 'db" where
  "run_detached R d db = revalidated_write R db (dt_root d) (revalidate_expire (dt_expire d)) (dt_batch d)"

text \<open>\<open>read_enveloped\<close> reads the clock twice.\<close>
definition read_enveloped ::
    "'db rocksdb \<Rightarrow> 'db \<Rightarrow> bytes \<Rightarrow> bytes \<Rightarrow> u64 \<Rightarrow> u64 \<Rightarrow> (u64 \<times> bytes) option result \<times> detached list"
where
  "read_enveloped R db pfx key now now' =
     (let root = data_key pfx KIND_STRING_TTL key in
      case get_physical R db root of
        Inl e \<Rightarrow> (Inl e, [])
      | Inr None \<Rightarrow> (Inr None, [])
      | Inr (Some val) \<Rightarrow>
          (let (expire, payload) = decode_envelope val in
           if is_expired expire now
           then (Inr None, snd (purge_if_expired_arc R db pfx STRING_FAMILY key now'))
           else (Inr (Some (expire, payload)), [])))"

section \<open>The active sampler (active.rs)\<close>

definition SCAN_LIMIT :: nat where
  "SCAN_LIMIT = 1000"

text \<open>The store and the streams reported to the Lite runtime.\<close>
type_synonym 'db reaping = "'db \<times> (bytes \<times> bytes) list"

text \<open>\<open>lite\<close> says whether a Lite runtime was passed.\<close>
definition purge_indexed ::
    "'db rocksdb \<Rightarrow> bytes \<Rightarrow> bytes \<Rightarrow> u64 \<Rightarrow> u64 \<Rightarrow> bool \<Rightarrow> 'db reaping \<Rightarrow> bool \<times> 'db reaping" where
  "purge_indexed R pfx body expire now lite s =
     (let (db, reaps) = s;
          index_key = pfx @ [KIND_EXPIRE_INDEX] @ u64_to_be expire @ body in
      case first_of body of
        None \<Rightarrow> (False, s)
      | Some kind \<Rightarrow>
        (case family_of kind of
           None \<Rightarrow> (False, s)
         | Some fam \<Rightarrow>
           (let dkey = pfx @ body in
            case get_physical R db dkey of
              Inl _ \<Rightarrow> (False, s)
            | Inr None \<Rightarrow>
                (case batch_write R db [Delete index_key] of (r, db') \<Rightarrow> (is_ok r, (db', reaps)))
            | Inr (Some val) \<Rightarrow>
                (let (current, _) = decode_envelope val in
                 if current = expire \<and> is_expired current now then
                   (case decode_data_key dkey (length pfx) of
                      None \<Rightarrow> (False, s)
                    | Some (_, key, _) \<Rightarrow>
                        (let batch = family_delete_entries R (Some db) pfx fam key expire;
                             reaps' = (if fam = STREAM_FAMILY \<and> lite then reaps @ [(pfx, key)] else reaps)
                         in case batch_write R db batch of (r, db') \<Rightarrow> (is_ok r, (db', reaps'))))
                 else (case batch_write R db [Delete index_key] of (r, db') \<Rightarrow> (is_ok r, (db', reaps)))))))"

definition process_scan_key ::
    "'db rocksdb \<Rightarrow> bytes \<Rightarrow> u64 \<Rightarrow> bool \<Rightarrow> nat \<times> 'db reaping \<Rightarrow> nat \<times> 'db reaping" where
  "process_scan_key R k now lite s =
     (let (purged, st) = s in
      case slot_prefix_len k of
        None \<Rightarrow> s
      | Some plen \<Rightarrow>
          if get_at plen k \<noteq> Some KIND_EXPIRE_INDEX then s
          else (case decode_expire_index_key k plen of
              None \<Rightarrow> s
            | Some (expire, body) \<Rightarrow>
                if \<not> is_expired expire now then s
                else (case purge_indexed R (take plen k) body expire now lite st of
                    (True, st') \<Rightarrow> (purged + 1, st')
                  | (False, st') \<Rightarrow> (purged, st'))))"

text \<open>The captured variables of the scan callback.\<close>
record 'db sampler =
  sm_purged :: nat
  sm_scanned :: nat
  sm_cursor :: bytes
  sm_stopped :: bool
  sm_state :: "'db reaping"

definition sample_visit :: "'db rocksdb \<Rightarrow> u64 \<Rightarrow> nat \<Rightarrow> bool \<Rightarrow> 'db sampler visitor" where
  "sample_visit R now budget lite k v s =
     (let s = s\<lparr>sm_scanned := sm_scanned s + 1\<rparr> in
      if sm_purged s \<ge> budget \<or> sm_scanned s \<ge> SCAN_LIMIT then (False, s\<lparr>sm_stopped := True\<rparr>)
      else
        (case process_scan_key R k now lite (sm_purged s, sm_state s) of
           (purged, st) \<Rightarrow> (True, s\<lparr>sm_purged := purged, sm_state := st, sm_cursor := k\<rparr>)))"

definition sample_once ::
    "'db rocksdb \<Rightarrow> u64 \<Rightarrow> nat \<Rightarrow> bytes \<Rightarrow> bool \<Rightarrow> 'db reaping \<Rightarrow> (nat \<times> bytes) \<times> 'db reaping" where
  "sample_once R now budget from lite st =
     (let s0 = \<lparr>sm_purged = 0, sm_scanned = 0, sm_cursor = from, sm_stopped = False, sm_state = st\<rparr>;
          s = snd (for_each_from R (fst st) from True (sample_visit R now budget lite) s0)
      in ((sm_purged s, if sm_stopped s then sm_cursor s else []), sm_state s))"

definition EXPIRE_BUDGET :: nat where
  "EXPIRE_BUDGET = 20"

definition MAX_ROUNDS :: nat where
  "MAX_ROUNDS = 5"

text \<open>
  One tick of the loop of \<open>spawn_active_expire\<close>: \<open>clock i\<close> is the time the \<open>i\<close>th round reads.
  The first argument counts the rounds still allowed.
\<close>
fun expire_rounds ::
    "nat \<Rightarrow> 'db rocksdb \<Rightarrow> (nat \<Rightarrow> u64) \<Rightarrow> nat \<Rightarrow> bytes \<Rightarrow> 'db reaping \<Rightarrow> bytes \<times> 'db reaping" where
  "expire_rounds 0 R clock i cursor st = (cursor, st)"
| "expire_rounds (Suc left) R clock i cursor st =
     (case sample_once R (clock i) EXPIRE_BUDGET cursor True st of
        ((purged, nxt), st') \<Rightarrow>
          if purged < EXPIRE_BUDGET then (nxt, st')
          else expire_rounds left R clock (Suc i) nxt st')"

definition expire_tick :: "'db rocksdb \<Rightarrow> (nat \<Rightarrow> u64) \<Rightarrow> bytes \<Rightarrow> 'db reaping \<Rightarrow> bytes \<times> 'db reaping" where
  "expire_tick R clock cursor st = expire_rounds MAX_ROUNDS R clock 0 cursor st"

section \<open>What a family delete removes\<close>

text \<open>Prefixes whose windows are bounded: some byte can be incremented.\<close>
definition bounded_prefix :: "bytes \<Rightarrow> bool" where
  "bounded_prefix pfx \<longleftrightarrow> (\<exists>b \<in> set pfx. b + 1 \<noteq> 0)"

lemma key_upper_bound_None_iff: "key_upper_bound b = None \<longleftrightarrow> (\<forall>x \<in> set b. x + 1 = 0)"
  by (induction b) (auto simp: key_upper_bound_Cons split: option.splits)

lemma bounded_slot_prefix [simp, intro]: "bounded_prefix (slot_prefix s)"
  by (auto simp: bounded_prefix_def slot_prefix_def)

definition family_record :: "bytes \<Rightarrow> codec_family \<Rightarrow> bytes \<Rightarrow> bytes \<Rightarrow> bool" where
  "family_record pfx fam key k \<longleftrightarrow>
     (\<exists>kind s. fst fam \<le> kind \<and> kind \<le> snd fam \<and> k = elem_key pfx kind key s)"

definition delay_row_of :: "bytes \<Rightarrow> bytes \<Rightarrow> bytes \<Rightarrow> bool" where
  "delay_row_of pfx stream k \<longleftrightarrow>
     in_range (delay_window pfx) k \<and>
     (case decode_delay_row_key k (length pfx) of Some (_, s, _) \<Rightarrow> s = stream | None \<Rightarrow> False)"

definition purge_set :: "bytes \<Rightarrow> codec_family \<Rightarrow> bytes \<Rightarrow> u64 \<Rightarrow> bytes \<Rightarrow> bool" where
  "purge_set pfx fam key expire k \<longleftrightarrow>
     family_record pfx fam key k \<or>
     fam = STREAM_FAMILY \<and> (family_record pfx OFFSET_FAMILY key k \<or> delay_row_of pfx key k) \<or>
     0 < expire \<and> k = expire_index_key pfx expire (data_key pfx (fst fam) key)"

lemma apply_delete_ranges:
  "apply_batch (map (\<lambda>(l, u). DeleteRange l u) rs) m =
     (\<lambda>k. if \<exists>r \<in> set rs. fst r \<le> k \<and> k < snd r then None else m k)"
  by (induction rs arbitrary: m) (auto simp: fun_eq_iff)

lemma family_ranges_bounded:
  assumes "bounded_prefix pfx" "r \<in> set (family_delete_ranges pfx fam key)"
  shows "snd r \<noteq> []"
proof -
  obtain kind where r: "r = (data_key pfx kind key,
      case key_upper_bound (data_key pfx kind key) of Some u \<Rightarrow> u | None \<Rightarrow> [])"
    using assms(2) by (auto simp: family_delete_ranges_def Let_def)
  have "\<exists>x \<in> set (data_key pfx kind key). x + 1 \<noteq> 0"
    using assms(1) by (auto simp: bounded_prefix_def data_key_def)
  then have "key_upper_bound (data_key pfx kind key) \<noteq> None"
    unfolding key_upper_bound_None_iff by blast
  then show ?thesis
    unfolding r by (auto dest: key_upper_bound_Some_nonempty)
qed

lemma apply_family_ranges:
  assumes "bounded_prefix pfx"
  shows "apply_batch (map (\<lambda>(l, u). DeleteRange l u) (family_delete_ranges pfx fam key)) m =
    (\<lambda>k. if family_record pfx fam key k then None else m k)"
proof -
  have "(\<exists>r \<in> set (family_delete_ranges pfx fam key). fst r \<le> k \<and> k < snd r) =
      (\<exists>r \<in> set (family_delete_ranges pfx fam key). in_range r k)" for k
    using family_ranges_bounded [OF assms] by (fastforce simp: in_range_def)
  then show ?thesis
    unfolding apply_delete_ranges family_delete_ranges_cover family_record_def by simp
qed

lemma fold_collect_if:
  "fold (\<lambda>(k, v) acc. if P k then acc @ [h k] else acc) kvs acc =
     acc @ map h (filter P (map fst kvs))"
  by (induction kvs arbitrary: acc) auto

context healthy_rocksdb
begin

lemma fold_delay_rows_eq:
  "apply_batch (fold_delay_rows R db pfx stream) m =
     (\<lambda>k. if delay_row_of pfx stream k \<and> content db k \<noteq> None then None else m k)"
proof -
  let ?match = "\<lambda>k. case decode_delay_row_key k (length pfx) of Some (_, s, _) \<Rightarrow> s = stream | None \<Rightarrow> False"
  let ?lower = "fst (delay_window pfx)" and ?upper = "snd (delay_window pfx)"
  let ?kvs = "entries (content db) (\<lambda>k. ?lower \<le> k)"
  let ?W = "entries (content db) (\<lambda>k. ?lower \<le> k \<and> k < ?upper)"
  have "visit ?kvs (fold_delay_visit pfx stream ?upper) [] =
      fold (\<lambda>(k, v) batch. if ?match k then batch @ [Delete k] else batch)
        (filter (\<lambda>(k, _). k < ?upper) ?kvs) []"
    by (rule visit_window [where r = "(\<le>)"]) (auto simp: fold_delay_visit_def)
  also have "\<dots> = map Delete (filter ?match (map fst ?W))"
    by (simp add: fold_collect_if filter_entries del: entries_fst)
  finally have "fold_delay_rows R db pfx stream = map Delete (filter ?match (map fst ?W))"
    by (simp add: fold_delay_rows_def case_prod_beta for_each_from_visit del: entries_fst)
  moreover have "snd (delay_window pfx) \<noteq> []" by (simp add: delay_window_def)
  ultimately show ?thesis
    by (auto simp: apply_batch_deletes fun_eq_iff delay_row_of_def in_range_def)
qed

lemma apply_family_delete_entries:
  assumes "bounded_prefix pfx"
  shows "apply_batch (family_delete_entries R (Some db) pfx fam key expire) m =
    (\<lambda>k. if purge_set pfx fam key expire k \<and>
            (fam = STREAM_FAMILY \<longrightarrow> delay_row_of pfx key k \<longrightarrow>
               family_record pfx fam key k \<or> family_record pfx OFFSET_FAMILY key k \<or>
               0 < expire \<and> k = expire_index_key pfx expire (data_key pfx (fst fam) key) \<or>
               content db k \<noteq> None)
         then None else m k)"
  by (auto simp: family_delete_entries_def apply_family_ranges [OF assms] fold_delay_rows_eq
      purge_set_def fun_eq_iff)

lemma apply_family_delete_entries_now:
  assumes "bounded_prefix pfx"
  shows "apply_batch (family_delete_entries R (Some db) pfx fam key expire) (content db) =
    (\<lambda>k. if purge_set pfx fam key expire k then None else content db k)"
  unfolding apply_family_delete_entries [OF assms] by (auto simp: fun_eq_iff)

lemma apply_family_delete_entries_other:
  assumes "bounded_prefix pfx" "fam \<noteq> STREAM_FAMILY"
  shows "apply_batch (family_delete_entries R (Some db) pfx fam key expire) m =
    (\<lambda>k. if purge_set pfx fam key expire k then None else m k)"
  unfolding apply_family_delete_entries [OF assms(1)] using assms(2) by (auto simp: fun_eq_iff)

end

section \<open>Disjointness of record shapes\<close>

lemma elem_key_neq_index:
  assumes "family_of kind \<noteq> None"
  shows "elem_key pfx kind key s \<noteq> expire_index_key pfx e dk"
  using assms by (auto simp: elem_key_def data_key_def expire_index_key_def family_of_def kind_simps)

lemma elem_key_not_delay:
  assumes "kind \<noteq> KIND_STREAM_DELAY"
  shows "\<not> delay_row_of pfx stream (elem_key pfx kind key s)"
  using assms
  by (auto simp: delay_row_of_def decode_delay_row_key_def elem_key_def data_key_def)

lemma purge_set_frame:
  assumes "length key < 2 ^ 32" "length other < 2 ^ 32" "other \<noteq> key"
    and "family_of kind \<noteq> None" "kind \<noteq> KIND_STREAM_DELAY"
  shows "\<not> purge_set pfx fam key e (elem_key pfx kind other s)"
  using assms elem_key_neq_index [of kind pfx other s] elem_key_not_delay [of kind pfx key other s]
  by (auto simp: purge_set_def family_record_def elem_key_same_prefix_iff)

lemma purge_set_root: "fst fam \<le> snd fam \<Longrightarrow> purge_set pfx fam key e (data_key pfx (fst fam) key)"
  unfolding purge_set_def family_record_def elem_key_def by (metis append_Nil2 order_refl)

section \<open>Lazy purges\<close>

text \<open>The deadline of a record, 0 when there is none.\<close>
definition deadline :: "content \<Rightarrow> bytes \<Rightarrow> u64" where
  "deadline m root = (case m root of Some v \<Rightarrow> fst (decode_envelope v) | None \<Rightarrow> 0)"

context healthy_rocksdb
begin

lemma lazy_purge_batch_eq:
  "lazy_purge_batch R db pfx fam key now =
     (if is_expired (deadline (content db) (data_key pfx (fst fam) key)) now
      then Some (deadline (content db) (data_key pfx (fst fam) key),
             family_delete_entries R (Some db) pfx fam key
               (deadline (content db) (data_key pfx (fst fam) key)))
      else None)"
  by (simp add: lazy_purge_batch_def get_physical_def deadline_def Let_def is_expired_def
      split: option.splits prod.splits)

lemma purge_if_expired_eq:
  fixes db and pfx key :: bytes and fam :: codec_family and now :: u64
  defines "e \<equiv> deadline (content db) (data_key pfx (fst fam) key)"
  assumes "bounded_prefix pfx"
  shows "fst (purge_if_expired R db pfx fam key now) = is_expired e now"
    and "content (snd (purge_if_expired R db pfx fam key now)) =
      (\<lambda>k. if is_expired e now \<and> purge_set pfx fam key e k then None else content db k)"
  by (simp_all add: purge_if_expired_def lazy_purge_batch_eq batch_write_def
      apply_family_delete_entries_now [OF assms(2)] flip: e_def)

lemma purge_arc_eq:
  fixes db and pfx key :: bytes and fam :: codec_family and now :: u64
  defines "e \<equiv> deadline (content db) (data_key pfx (fst fam) key)"
  shows "purge_if_expired_arc R db pfx fam key now =
    (if is_expired e now
     then (True, [\<lparr>dt_root = data_key pfx (fst fam) key, dt_expire = e,
                   dt_batch = family_delete_entries R (Some db) pfx fam key e\<rparr>])
     else (False, []))"
  by (simp add: purge_if_expired_arc_def lazy_purge_batch_eq Let_def flip: e_def)

lemma run_detached_content:
  "content (run_detached R d db) =
     (if revalidate_expire (dt_expire d) (content db (dt_root d))
      then apply_batch (dt_batch d) (content db) else content db)"
  by (simp add: run_detached_def revalidated_write_def)

end

section \<open>The expire index agrees with the records\<close>

text \<open>A root has an index entry exactly at its deadline.\<close>
definition index_coherent :: "bytes \<Rightarrow> content \<Rightarrow> bool" where
  "index_coherent pfx m \<longleftrightarrow>
     (\<forall>kind key e. is_user_key_kind kind \<longrightarrow> length key < 2 ^ 32 \<longrightarrow>
        (m (expire_index_key pfx e (data_key pfx kind key)) \<noteq> None) =
        (0 < e \<and> e = deadline m (data_key pfx kind key)))"

lemma user_kind_family:
  "is_user_key_kind kind \<Longrightarrow> \<exists>fam. family_of kind = Some fam \<and> fst fam = kind \<and> kind \<noteq> KIND_STREAM_DELAY"
  by (auto simp: is_user_key_kind_def META_KINDS_def family_of_def kind_simps)

lemma user_kind_in_family:
  assumes "is_user_key_kind kind" "family_of kind' = Some fam" "fst fam \<le> kind" "kind \<le> snd fam"
  shows "kind = fst fam"
  using assms user_kind_family [OF assms(1)] family_members_same_family [OF assms(2-4)] by auto

lemma data_key_as_elem: "data_key pfx kind key = elem_key pfx kind key []"
  by (simp add: elem_key_def)

lemma data_key_eq_iff:
  "length key < 2 ^ 32 \<Longrightarrow> length key' < 2 ^ 32 \<Longrightarrow>
   data_key pfx kind key = data_key pfx kind' key' \<longleftrightarrow> kind = kind' \<and> key = key'"
  using elem_key_same_prefix_iff [of key key' pfx kind "[]" kind' "[]"] by (simp add: elem_key_def)

lemma index_key_eq_iff:
  assumes "length key < 2 ^ 32" "length key' < 2 ^ 32"
  shows "expire_index_key pfx e (data_key pfx kind key) = expire_index_key pfx e' (data_key pfx kind' key')
    \<longleftrightarrow> e = e' \<and> kind = kind' \<and> key = key'"
proof
  assume eq: "expire_index_key pfx e (data_key pfx kind key) =
    expire_index_key pfx e' (data_key pfx kind' key')"
  then have "e = e'" and "data_key [] kind key = data_key [] kind' key'"
    by (simp_all add: expire_index_key_def data_key_def)
  then show "e = e' \<and> kind = kind' \<and> key = key'"
    using data_key_eq_iff [OF assms] by simp
qed simp

lemma data_key_neq_index:
  assumes "is_user_key_kind kind"
  shows "data_key pfx kind key \<noteq> expire_index_key pfx e dk"
proof -
  have "family_of kind \<noteq> None" using user_kind_family [OF assms] by auto
  then show ?thesis using elem_key_neq_index [of kind pfx key "[]" e dk] by (simp add: elem_key_def)
qed

lemma set_ttl_coherent:
  assumes coh: "index_coherent pfx m" and kind: "is_user_key_kind kind"
    and len: "length key < 2 ^ 32" and new: "new < 2 ^ 63"
  defines "root \<equiv> data_key pfx kind key"
  shows "index_coherent pfx (apply_batch
    (Put root (encode_envelope new payload) # set_ttl_entries pfx root (deadline m root) new) m)"
    (is "index_coherent pfx ?m'")
  unfolding index_coherent_def
proof (intro allI impI)
  fix kind' and key' :: bytes and e
  assume kind': "is_user_key_kind kind'" and len': "length key' < 2 ^ 32"
  let ?root' = "data_key pfx kind' key'" and ?idx = "\<lambda>e. expire_index_key pfx e root"
  let ?idx' = "expire_index_key pfx e (data_key pfx kind' key')"
  have old: "(m ?idx' \<noteq> None) = (0 < e \<and> e = deadline m ?root')"
    using coh kind' len' unfolding index_coherent_def by blast
  have m': "?m' k = (if 0 < new \<and> k = ?idx new then Some []
      else if deadline m root \<noteq> new \<and> 0 < deadline m root \<and> k = ?idx (deadline m root) then None
      else if k = root then Some (encode_envelope new payload) else m k)" for k
    using data_key_neq_index [OF kind, of pfx key] by (auto simp: set_ttl_entries_def root_def)
  have "?m' ?root' = (if ?root' = root then Some (encode_envelope new payload) else m ?root')"
    unfolding m' by (simp add: data_key_neq_index [OF kind'])
  then have dl: "deadline ?m' ?root' = (if ?root' = root then new else deadline m ?root')"
    using new by (simp add: deadline_def)
  have "?idx' \<noteq> root" using data_key_neq_index [OF kind] unfolding root_def by metis
  then show "(?m' ?idx' \<noteq> None) = (0 < e \<and> e = deadline ?m' ?root')"
    unfolding dl unfolding m' using old
    by (cases "?root' = root")
       (auto simp: root_def index_key_eq_iff [OF len' len] index_key_eq_iff [OF len len]
         data_key_eq_iff [OF len' len])
qed

lemma purge_coherent:
  assumes coh: "index_coherent pfx m" and fam: "family_of kind = Some fam" "is_user_key_kind kind"
    and len: "length key < 2 ^ 32"
  defines "e0 \<equiv> deadline m (data_key pfx kind key)"
  shows "index_coherent pfx (\<lambda>k. if purge_set pfx fam key e0 k then None else m k)"
    (is "index_coherent pfx ?m'")
  unfolding index_coherent_def
proof (intro allI impI)
  fix kind' and key' :: bytes and e
  assume kind': "is_user_key_kind kind'" and len': "length key' < 2 ^ 32"
  let ?root' = "data_key pfx kind' key'"
  let ?idx' = "expire_index_key pfx e ?root'"
  have fst: "fst fam = kind" using user_kind_family [OF fam(2)] fam(1) by auto
  have old: "(m ?idx' \<noteq> None) = (0 < e \<and> e = deadline m ?root')"
    using coh kind' len' unfolding index_coherent_def by blast
  have fk: "family_of kind' \<noteq> None" "kind' \<noteq> KIND_STREAM_DELAY"
    using user_kind_family [OF kind'] by auto
  have idx: "purge_set pfx fam key e0 ?idx' \<longleftrightarrow> 0 < e0 \<and> e = e0 \<and> kind' = kind \<and> key' = key"
  proof -
    have "\<not> family_record pfx f k ?idx'" if "fst f \<le> snd f" "snd f < KIND_EXPIRE_INDEX" for f k
      using that by (auto simp: family_record_def elem_key_def data_key_def expire_index_key_def)
    moreover have "fst fam \<le> snd fam" "snd fam < KIND_EXPIRE_INDEX"
      using fam(1) by (auto simp: family_of_def kind_simps split: if_splits)
    moreover have "\<not> delay_row_of pfx key ?idx'"
      by (simp add: delay_row_of_def decode_delay_row_key_def expire_index_key_def kind_simps)
    ultimately show ?thesis
      using len len' by (auto simp: purge_set_def fst index_key_eq_iff kind_simps)
  qed
  show "(?m' ?idx' \<noteq> None) = (0 < e \<and> e = deadline ?m' ?root')"
  proof (cases "key' = key")
    case False
    then have "\<not> purge_set pfx fam key e0 ?root'"
      unfolding data_key_as_elem using purge_set_frame [OF len len' _ fk] by blast
    then show ?thesis using old idx False by (simp add: deadline_def)
  next
    case True
    show ?thesis
    proof (cases "kind' = kind")
      case True
      then have "purge_set pfx fam key e0 ?root'"
        using purge_set_root [of fam pfx key e0] family_of_cases [OF fam(1)] fst \<open>key' = key\<close> by simp
      then show ?thesis
        using old idx True \<open>key' = key\<close> by (auto simp: deadline_def e0_def)
    next
      case False
      have "\<not> (fst fam \<le> kind' \<and> kind' \<le> snd fam)"
        using user_kind_in_family [OF kind' fam(1)] fst False by blast
      moreover have "\<not> (fst OFFSET_FAMILY \<le> kind' \<and> kind' \<le> snd OFFSET_FAMILY)"
        using kind' by (auto simp: is_user_key_kind_def META_KINDS_def kind_simps)
      ultimately have "\<not> purge_set pfx fam key e0 ?root'"
        using len len' True data_key_neq_index [OF kind'] elem_key_not_delay [OF fk(2), of pfx key key' "[]"]
        by (auto simp: purge_set_def family_record_def data_key_as_elem elem_key_same_prefix_iff)
      then show ?thesis using old idx False by (simp add: deadline_def)
    qed
  qed
qed

section \<open>The sampler\<close>

text \<open>Keys in the shape of an index entry, and records a purge at \<open>now\<close> may remove.\<close>
definition index_shaped :: "bytes \<Rightarrow> bool" where
  "index_shaped k \<longleftrightarrow> (\<exists>plen. slot_prefix_len k = Some plen \<and> get_at plen k = Some KIND_EXPIRE_INDEX)"

definition due_record :: "u64 \<Rightarrow> content \<Rightarrow> bytes \<Rightarrow> bool" where
  "due_record now m k \<longleftrightarrow>
     (\<exists>pfx root kind key sfx fam v. m root = Some v \<and>
        decode_data_key root (length pfx) = Some (kind, key, sfx) \<and> family_of kind = Some fam \<and>
        is_expired (fst (decode_envelope v)) now \<and>
        purge_set pfx fam key (fst (decode_envelope v)) k)"

lemma visit_invariant:
  assumes "\<And>k v s. (k, v) \<in> set kvs \<Longrightarrow> I s \<Longrightarrow> I (snd (f k v s))" "I s"
  shows "I (visit kvs f s)"
  using assms
proof (induction kvs arbitrary: s)
  case (Cons kv kvs)
  obtain k v where kv: "kv = (k, v)" by (cases kv)
  obtain go s' where f: "f k v s = (go, s')" by (cases "f k v s")
  have "I s'" using Cons.prems(1) [of k v s] Cons.prems(2) by (simp add: kv f)
  then show ?case using Cons by (simp add: kv f)
qed simp

lemma slot_prefix_len_bounded:
  assumes "slot_prefix_len k = Some plen"
  shows "bounded_prefix (take plen k) \<and> plen \<le> length k"
proof -
  let ?d = "length (takeWhile is_ascii_digit k)"
  have plen: "plen = ?d + 1" and at: "get_at ?d k = Some 47"
    using assms by (auto simp: slot_prefix_len_def Let_def split: if_splits)
  then have "?d < length k" "k ! ?d = 47" by (auto simp: get_at_def split: if_splits)
  then have "take plen k = take ?d k @ [47]" unfolding plen by (simp add: take_Suc_conv_app_nth)
  then show ?thesis using plen \<open>?d < length k\<close> by (auto simp: bounded_prefix_def)
qed



lemma decode_expire_index_inverse:
  assumes "decode_expire_index_key k plen = Some (e, body)"
  shows "k = take plen k @ [KIND_EXPIRE_INDEX] @ u64_to_be e @ body"
proof -
  have len: "plen \<le> length k" and fst: "first_of (drop plen k) = Some KIND_EXPIRE_INDEX"
    and rng: "9 \<le> length (drop plen k)"
    and e: "e = u64_from_be (take 8 (drop 1 (drop plen k)))" and body: "body = drop 9 (drop plen k)"
    using assms by (auto simp: decode_expire_index_key_def get_from_def get_range_def
        Option.bind_eq_Some_conv split: if_splits)
  obtain rest where rest: "drop plen k = KIND_EXPIRE_INDEX # rest"
    using fst by (cases "drop plen k") (auto simp: first_of_def)
  have "u64_to_be e = take 8 rest"
    using u64_to_be_from_be [of "take 8 rest"] rng unfolding e rest by simp
  moreover have "body = drop 8 rest" unfolding body rest by simp
  ultimately have "drop plen k = KIND_EXPIRE_INDEX # u64_to_be e @ body"
    using rest by simp
  then show ?thesis by (metis append_Cons append_Nil append_take_drop_id)
qed

context healthy_rocksdb
begin

lemma purge_indexed_cases:
  fixes pfx body :: bytes and expire now :: u64 and db reaps lite
  defines "idx \<equiv> pfx @ [KIND_EXPIRE_INDEX] @ u64_to_be expire @ body"
    and "res \<equiv> purge_indexed R pfx body expire now lite (db, reaps)"
  assumes bounded: "bounded_prefix pfx"
  obtains (skip) "snd res = (db, reaps)"
  | (stale) "content (fst (snd res)) = (content db)(idx := None)"
  | (purge) kind key sfx fam v where "content db (pfx @ body) = Some v"
      "decode_data_key (pfx @ body) (length pfx) = Some (kind, key, sfx)" "family_of kind = Some fam"
      "fst (decode_envelope v) = expire" "is_expired expire now"
      "content (fst (snd res)) = (\<lambda>k. if purge_set pfx fam key expire k then None else content db k)"
proof (cases "first_of body")
  case None
  then show ?thesis by (intro skip) (simp add: res_def purge_indexed_def)
next
  case kind: (Some kind)
  show ?thesis
  proof (cases "family_of kind")
    case None
    then show ?thesis using kind by (intro skip) (simp add: res_def purge_indexed_def)
  next
    case fam: (Some fam)
    show ?thesis
    proof (cases "content db (pfx @ body)")
      case None
      then show ?thesis
        using kind fam by (intro stale) (simp add: res_def purge_indexed_def get_physical_def
          batch_write_def idx_def)
    next
      case v: (Some v)
      show ?thesis
      proof (cases "fst (decode_envelope v) = expire \<and> is_expired expire now")
        case False
        then show ?thesis
          using kind fam v by (intro stale) (auto simp: res_def purge_indexed_def get_physical_def
            batch_write_def idx_def case_prod_beta)
      next
        case due: True
        show ?thesis
        proof (cases "decode_data_key (pfx @ body) (length pfx)")
          case None
          then show ?thesis
            using kind fam v due by (intro skip) (auto simp: res_def purge_indexed_def
              get_physical_def case_prod_beta)
        next
          case (Some t)
          obtain kind' key sfx where t: "t = (kind', key, sfx)" by (cases t)
          have "kind' = kind"
            using Some kind by (auto simp: t decode_data_key_def Option.bind_eq_Some_conv
                Let_def split: if_splits)
          then show ?thesis
            using kind fam v due Some
            by (intro purge [of v kind key sfx fam])
               (auto simp: t res_def purge_indexed_def get_physical_def batch_write_def
                 case_prod_beta apply_family_delete_entries_now [OF bounded])
        qed
      qed
    qed
  qed
qed

lemma process_scan_key_justified:
  fixes k :: bytes and now :: u64 and purged db reaps lite
  defines "m' \<equiv> content (fst (snd (process_scan_key R k now lite (purged, db, reaps))))"
  shows "m' x = content db x \<or> m' x = None \<and> (index_shaped x \<or> due_record now (content db) x)"
proof (cases "snd (process_scan_key R k now lite (purged, db, reaps)) = (db, reaps)")
  case True
  then show ?thesis by (simp add: m'_def)
next
  case False
  then obtain plen expire body where plen: "slot_prefix_len k = Some plen"
    and idx: "get_at plen k = Some KIND_EXPIRE_INDEX"
    and dec: "decode_expire_index_key k plen = Some (expire, body)"
    and due: "is_expired expire now"
    and res: "snd (process_scan_key R k now lite (purged, db, reaps)) =
      snd (purge_indexed R (take plen k) body expire now lite (db, reaps))"
    by (auto simp: process_scan_key_def split: option.splits if_splits prod.splits bool.splits)
  have bounded: "bounded_prefix (take plen k)" and len: "plen \<le> length k"
    using slot_prefix_len_bounded [OF plen] by auto
  have k: "k = take plen k @ [KIND_EXPIRE_INDEX] @ u64_to_be expire @ body"
    by (rule decode_expire_index_inverse [OF dec])
  show ?thesis
  proof (rule purge_indexed_cases [OF bounded, of body expire now lite db reaps])
    assume "snd (purge_indexed R (take plen k) body expire now lite (db, reaps)) = (db, reaps)"
    then show ?thesis by (simp add: m'_def res)
  next
    assume "content (fst (snd (purge_indexed R (take plen k) body expire now lite (db, reaps)))) =
      (content db)(take plen k @ [KIND_EXPIRE_INDEX] @ u64_to_be expire @ body := None)"
    then show ?thesis using plen idx unfolding k [symmetric] by (auto simp: m'_def res index_shaped_def)
  next
    fix kind key sfx fam v
    assume purge: "content db (take plen k @ body) = Some v"
      "decode_data_key (take plen k @ body) (length (take plen k)) = Some (kind, key, sfx)"
      "family_of kind = Some fam" "fst (decode_envelope v) = expire" "is_expired expire now"
      "content (fst (snd (purge_indexed R (take plen k) body expire now lite (db, reaps)))) =
        (\<lambda>x. if purge_set (take plen k) fam key expire x then None else content db x)"
    have "due_record now (content db) x" if "purge_set (take plen k) fam key expire x"
      unfolding due_record_def using purge that by blast
    then show ?thesis using purge(6) by (auto simp: m'_def res)
  qed
qed

end

text \<open>An index entry as the writers produce it, due at \<open>now\<close>.\<close>
definition due_index :: "u64 \<Rightarrow> bytes \<Rightarrow> bool" where
  "due_index now k \<longleftrightarrow>
     (\<exists>slot e kind key. k = expire_index_key (slot_prefix slot) e (data_key (slot_prefix slot) kind key) \<and>
        is_user_key_kind kind \<and> length key < 2 ^ 32 \<and> is_expired e now)"

lemma length_dec_digits: "n < 10 ^ k \<Longrightarrow> 0 < k \<Longrightarrow> length (dec_digits n) \<le> k"
proof (induction n arbitrary: k rule: dec_digits.induct)
  case (1 n)
  show ?case
  proof (cases "n < 10")
    case False
    obtain j where j: "k = Suc j" using 1(3) gr0_implies_Suc by blast
    then have "0 < j" using 1(2) False by (cases j) simp_all
    note j = j this
    then have "n div 10 < 10 ^ j" using 1(2) by (simp add: less_mult_imp_div_less mult.commute)
    then show ?thesis using 1(1) [OF False, of j] j False by (subst dec_digits.simps) simp
  qed (use 1(3) in \<open>subst dec_digits.simps, simp\<close>)
qed

lemma slot_prefix_len_slot: "slot_prefix_len (slot_prefix s @ rest) = Some (length (slot_prefix s))"
proof -
  have digits: "takeWhile is_ascii_digit (slot_prefix s @ rest) = dec_digits (unat s)"
  proof -
    have "takeWhile is_ascii_digit (dec_digits (unat s) @ 47 # rest) =
        dec_digits (unat s) @ takeWhile is_ascii_digit (47 # rest)"
      by (rule takeWhile_append2) (rule dec_digits_digit)
    then show ?thesis by (simp add: slot_prefix_def is_ascii_digit_def)
  qed
  have "unat s < 10 ^ 5" using unsigned_less [of s, where 'a = nat] by simp
  then have "length (dec_digits (unat s)) \<le> 5" by (rule length_dec_digits) simp
  moreover have "get_at (length (dec_digits (unat s))) (slot_prefix s @ rest) = Some 47"
    by (simp add: get_at_def slot_prefix_def nth_append)
  ultimately show ?thesis
    unfolding slot_prefix_len_def digits Let_def by (simp add: slot_prefix_def)
qed

context healthy_rocksdb
begin

lemma process_due_index:
  assumes "due_index now k"
  shows "content (fst (snd (process_scan_key R k now lite (purged, db, reaps)))) k = None"
proof -
  obtain slot e kind key where k: "k = expire_index_key (slot_prefix slot) e (data_key (slot_prefix slot) kind key)"
    and kind: "is_user_key_kind kind" and len: "length key < 2 ^ 32" and due: "is_expired e now"
    using assms unfolding due_index_def by blast
  let ?p = "slot_prefix slot"
  let ?body = "kind # u32_to_be (len32 key) @ key"
  obtain fam where fam: "family_of kind = Some fam" "fst fam = kind" and nd: "kind \<noteq> KIND_STREAM_DELAY"
    using user_kind_family [OF kind] by blast
  have k': "k = ?p @ [KIND_EXPIRE_INDEX] @ u64_to_be e @ ?body" by (simp add: k expire_index_key_def)
  have dk: "?p @ ?body = data_key ?p kind key" by (simp add: data_key_def)
  have dec: "decode_data_key (data_key ?p kind key) (length ?p) = Some (kind, key, [])"
    using decode_data_key_elem [of key kind ?p "[]"] len fam nd by (simp add: elem_key_def)
  have "get_at (length ?p) k = Some KIND_EXPIRE_INDEX" by (simp add: k' get_at_def)
  moreover have "decode_expire_index_key k (length ?p) = Some (e, ?body)"
    unfolding k by (simp add: decode_expire_index)
  moreover have "slot_prefix_len k = Some (length ?p)" unfolding k' by (rule slot_prefix_len_slot)
  ultimately have res: "snd (process_scan_key R k now lite (purged, db, reaps)) =
      snd (purge_indexed R ?p ?body e now lite (db, reaps))"
    using due by (auto simp: process_scan_key_def k' split: prod.splits bool.splits)
  have idx: "?p @ [KIND_EXPIRE_INDEX] @ u64_to_be e @ ?body = k" by (simp add: k')
  have e: "0 < e" using due by (auto simp: is_expired_def word_neq_0_conv)
  have "purge_set ?p fam key e k" using e by (simp add: purge_set_def k fam)
  then show ?thesis
    unfolding res purge_indexed_def Let_def
    using fam due dec
    by (auto simp: get_physical_def batch_write_def dk idx [simplified] case_prod_beta Let_def
        apply_family_delete_entries_now [OF bounded_slot_prefix] split: option.splits)
qed

lemma process_scan_key_shrinks:
  "content (fst (snd (process_scan_key R k now lite (purged, st)))) x \<noteq> None \<Longrightarrow>
   content (fst st) x \<noteq> None"
  using process_scan_key_justified [of k now lite purged "fst st" "snd st" x] by auto

lemma sample_visit_stop:
  "budget \<le> sm_purged s \<or> SCAN_LIMIT \<le> sm_scanned s + 1 \<Longrightarrow>
   sample_visit R now budget lite k v s =
     (False, s\<lparr>sm_scanned := sm_scanned s + 1, sm_stopped := True\<rparr>)"
  by (simp add: sample_visit_def)

lemma sample_visit_go:
  "\<not> (budget \<le> sm_purged s \<or> SCAN_LIMIT \<le> sm_scanned s + 1) \<Longrightarrow>
   process_scan_key R k now lite (sm_purged s, sm_state s) = (purged, st) \<Longrightarrow>
   sample_visit R now budget lite k v s =
     (True, s\<lparr>sm_scanned := sm_scanned s + 1, sm_purged := purged, sm_state := st, sm_cursor := k\<rparr>)"
  by (simp add: sample_visit_def)

lemma sample_visit_shrinks:
  "content (fst (sm_state (visit kvs (sample_visit R now budget lite) s))) x \<noteq> None \<Longrightarrow>
   content (fst (sm_state s)) x \<noteq> None"
proof (induction kvs arbitrary: s)
  case (Cons kv kvs)
  obtain k v where kv: "kv = (k, v)" by (cases kv)
  obtain purged st where p: "process_scan_key R k now lite (sm_purged s, sm_state s) = (purged, st)"
    by (cases "process_scan_key R k now lite (sm_purged s, sm_state s)")
  show ?case
  proof (cases "budget \<le> sm_purged s \<or> SCAN_LIMIT \<le> sm_scanned s + 1")
    case True
    then show ?thesis using Cons.prems by (simp add: kv sample_visit_stop)
  next
    case False
    then have "content (fst st) x \<noteq> None"
      using Cons.prems Cons.IH [of "s\<lparr>sm_scanned := sm_scanned s + 1, sm_purged := purged, sm_state := st, sm_cursor := k\<rparr>"]
      by (simp add: kv sample_visit_go [OF False p])
    then show ?thesis
      using process_scan_key_shrinks [of k now lite "sm_purged s" "sm_state s" x] p by simp
  qed
qed simp

lemma sample_visit_sweeps:
  assumes "sorted (map fst kvs)" "distinct (map fst kvs)" "\<forall>(k, v) \<in> set kvs. sm_cursor s < k"
    and "\<not> sm_stopped s" "(k, v) \<in> set kvs" "due_index now k"
    and "s' = visit kvs (sample_visit R now budget lite) s"
    and "\<not> sm_stopped s' \<or> k \<le> sm_cursor s'"
  shows "content (fst (sm_state s')) k = None"
  using assms
proof (induction kvs arbitrary: s s')
  case (Cons kv kvs)
  obtain k0 v0 where kv: "kv = (k0, v0)" by (cases kv)
  obtain purged st where p: "process_scan_key R k0 now lite (sm_purged s, sm_state s) = (purged, st)"
    by (cases "process_scan_key R k0 now lite (sm_purged s, sm_state s)")
  show ?case
  proof (cases "budget \<le> sm_purged s \<or> SCAN_LIMIT \<le> sm_scanned s + 1")
    case True
    then have "sm_stopped s'" "sm_cursor s' = sm_cursor s"
      by (simp_all add: Cons.prems(7) kv sample_visit_stop)
    then show ?thesis using Cons.prems(3,5,8) by auto
  next
    case False
    define s1 where "s1 = s\<lparr>sm_scanned := sm_scanned s + 1, sm_purged := purged, sm_state := st, sm_cursor := k0\<rparr>"
    have s': "s' = visit kvs (sample_visit R now budget lite) s1"
      by (simp add: Cons.prems(7) kv sample_visit_go [OF False p] s1_def)
    show ?thesis
    proof (cases "(k, v) \<in> set kvs")
      case True
      have "\<forall>(k, v) \<in> set kvs. sm_cursor s1 < k"
        using Cons.prems(1,2) by (force simp: kv s1_def image_iff order.strict_iff_order)
      then show ?thesis
        using Cons.IH [of s1] True Cons.prems s' by (auto simp: s1_def)
    next
      case False
      then have "k = k0" using Cons.prems(5) by (auto simp: kv)
      then have "content (fst st) k = None"
        using process_due_index [OF Cons.prems(6), of lite "sm_purged s" "fst (sm_state s)" "snd (sm_state s)"] p
        by simp
      then have "content (fst (sm_state s1)) k = None" by (simp add: s1_def)
      then show ?thesis
        unfolding s' using sample_visit_shrinks [of kvs now budget lite s1 k] by blast
    qed
  qed
qed simp

end

context healthy_rocksdb
begin

lemma sample_once_visit:
  fixes "from" :: bytes and st now budget lite
  defines "s \<equiv> visit (entries (content (fst st)) (\<lambda>k. from < k)) (sample_visit R now budget lite)
    \<lparr>sm_purged = 0, sm_scanned = 0, sm_cursor = from, sm_stopped = False, sm_state = st\<rparr>"
  shows "sample_once R now budget from lite st =
    ((sm_purged s, if sm_stopped s then sm_cursor s else []), sm_state s)"
  by (simp add: sample_once_def for_each_from_visit s_def Let_def)

lemma sample_once_justified:
  assumes "sample_once R now budget from lite (db, reaps) = (res, (db', reaps'))"
  shows "content db' x = content db x \<or>
    content db' x = None \<and> (index_shaped x \<or> due_record now (content db) x)"
proof -
  define I where "I s \<longleftrightarrow> (\<forall>x. content (fst (sm_state s)) x = content db x \<or>
      content (fst (sm_state s)) x = None \<and> (index_shaped x \<or> due_record now (content db) x))"
    for s :: "'a sampler"
  have sub: "due_record now (content db) x" if "I s" "due_record now (content (fst (sm_state s))) x" for s x
    using that unfolding due_record_def I_def by (metis option.distinct(1))
  have "I (snd (sample_visit R now budget lite k v s))" if "I s" for k v s
  proof (cases "budget \<le> sm_purged s \<or> SCAN_LIMIT \<le> sm_scanned s + 1")
    case True
    then show ?thesis using that by (simp add: sample_visit_stop I_def)
  next
    case False
    obtain purged st where p: "process_scan_key R k now lite (sm_purged s, sm_state s) = (purged, st)"
      by (cases "process_scan_key R k now lite (sm_purged s, sm_state s)")
    have step: "content (fst st) x = content (fst (sm_state s)) x \<or>
        content (fst st) x = None \<and> (index_shaped x \<or> due_record now (content (fst (sm_state s))) x)" for x
      using process_scan_key_justified [of k now lite "sm_purged s" "fst (sm_state s)" "snd (sm_state s)" x] p
      by simp
    have "content (fst st) x = content db x \<or>
        content (fst st) x = None \<and> (index_shaped x \<or> due_record now (content db) x)" for x
      using step [of x] sub [OF that, of x] that unfolding I_def by metis
    then show ?thesis
      unfolding sample_visit_go [OF False p] I_def by simp
  qed
  then have "I (visit kvs (sample_visit R now budget lite) s)" if "I s" for kvs s
    using that by (intro visit_invariant [where I = I]) auto
  then have "I (visit (entries (content db) (\<lambda>k. from < k)) (sample_visit R now budget lite)
    \<lparr>sm_purged = 0, sm_scanned = 0, sm_cursor = from, sm_stopped = False, sm_state = (db, reaps)\<rparr>)"
    by (simp add: I_def)
  then show ?thesis
    using assms by (auto simp: sample_once_visit I_def)
qed

lemma process_scan_key_count:
  "fst (process_scan_key R k now lite (purged, st)) \<le> purged + 1"
  by (auto simp: process_scan_key_def Let_def split: option.splits if_splits prod.splits bool.splits)

lemma sample_visit_progress:
  fixes "from" :: bytes and db reaps now budget lite
  defines "s \<equiv> visit (entries (content db) (\<lambda>k. from < k)) (sample_visit R now budget lite)
    \<lparr>sm_purged = 0, sm_scanned = 0, sm_cursor = from, sm_stopped = False, sm_state = (db, reaps)\<rparr>"
  assumes "0 < budget"
  shows "sm_purged s \<le> budget \<and>
    (sm_stopped s \<longrightarrow> from < sm_cursor s \<and> content db (sm_cursor s) \<noteq> None)"
proof -
  define I where "I s \<longleftrightarrow> sm_purged s \<le> budget \<and>
      (sm_purged s = 0 \<and> sm_scanned s = 0 \<and> \<not> sm_stopped s \<or>
       from < sm_cursor s \<and> content db (sm_cursor s) \<noteq> None)" for s :: "'a sampler"
  have lim: "1 < SCAN_LIMIT" by (simp add: SCAN_LIMIT_def)
  have "I (snd (sample_visit R now budget lite k v s))"
    if "(k, v) \<in> set (entries (content db) (\<lambda>k. from < k))" "I s" for k v s
  proof (cases "budget \<le> sm_purged s \<or> SCAN_LIMIT \<le> sm_scanned s + 1")
    case True
    then show ?thesis using that(2) assms(2) lim by (auto simp: sample_visit_stop I_def)
  next
    case False
    obtain purged st where p: "process_scan_key R k now lite (sm_purged s, sm_state s) = (purged, st)"
      by (cases "process_scan_key R k now lite (sm_purged s, sm_state s)")
    have "purged \<le> sm_purged s + 1"
      using process_scan_key_count [of k now lite "sm_purged s" "sm_state s"] p by simp
    then show ?thesis
      using that False by (auto simp: sample_visit_go [OF False p] I_def set_entries)
  qed
  then have "I (visit (entries (content db) (\<lambda>k. from < k)) (sample_visit R now budget lite)
    \<lparr>sm_purged = 0, sm_scanned = 0, sm_cursor = from, sm_stopped = False, sm_state = (db, reaps)\<rparr>)"
    by (intro visit_invariant [where I = I]) (auto simp: I_def)
  then show ?thesis by (auto simp: s_def I_def)
qed

lemma sample_once_progress:
  assumes "sample_once R now budget from lite (db, reaps) = ((n, cur), (db', reaps'))" "0 < budget"
  shows "n \<le> budget \<and> (cur = [] \<or> from < cur \<and> content db cur \<noteq> None)"
  using sample_visit_progress [OF assms(2), of db "from" now lite reaps] assms(1)
  by (auto simp: sample_once_visit split: if_splits)

lemma sample_once_sweep:
  assumes "sample_once R now budget from lite (db, reaps) = ((n, cur), (db', reaps'))"
    and "due_index now k" "from < k" "cur = [] \<or> k \<le> cur" "0 < budget"
  shows "content db' k = None"
proof (cases "content db k")
  case None
  then show ?thesis using sample_once_justified [OF assms(1), of k] by auto
next
  case (Some v)
  let ?kvs = "entries (content db) (\<lambda>k. from < k)"
  let ?init = "\<lparr>sm_purged = 0, sm_scanned = 0, sm_cursor = from, sm_stopped = False, sm_state = (db, reaps)\<rparr>"
  let ?s = "visit ?kvs (sample_visit R now budget lite) ?init"
  have mem: "(k, v) \<in> set ?kvs" using Some assms(3) by (simp add: set_entries)
  have "\<not> sm_stopped ?s \<or> k \<le> sm_cursor ?s"
    using sample_visit_progress [OF assms(5), of db "from" now lite reaps] assms(1,4)
    by (auto simp: sample_once_visit split: if_splits)
  moreover have "\<forall>(k, v) \<in> set ?kvs. sm_cursor ?init < k" by (auto simp: set_entries)
  ultimately have "content (fst (sm_state ?s)) k = None"
    using sample_visit_sweeps [OF sorted_entries distinct_entries _ _ mem assms(2) refl, of ?init budget lite]
    by simp
  then show ?thesis using assms(1) by (simp add: sample_once_visit)
qed

end

section \<open>Properties of expiration\<close>

text \<open>C1: The lazy purge fires exactly when the key's root record carries a deadline that has
  passed; it then removes the key's records of the family (for a stream also its committed
  offsets and staged delay rows) and its index entry, and nothing else: in particular no record
  of another key.  Otherwise the content is unchanged.\<close>
theorem purge_if_expired_exact:
  assumes "healthy_rocksdb R content"
    and "purge_if_expired R db (slot_prefix slot) fam key now = (b, db')"
    and "e = deadline (content db) (data_key (slot_prefix slot) (fst fam) key)"
    and "length key < 2 ^ 32" "length other < 2 ^ 32" "other \<noteq> key"
    and "family_of kind \<noteq> None" "kind \<noteq> KIND_STREAM_DELAY"
  shows "b = is_expired e now \<and>
    content db' = (\<lambda>k. if b \<and> purge_set (slot_prefix slot) fam key e k then None else content db k) \<and>
    content db' (elem_key (slot_prefix slot) kind other s) =
      content db (elem_key (slot_prefix slot) kind other s)"
proof -
  have eqs: "b = is_expired e now"
    "content db' = (\<lambda>k. if b \<and> purge_set (slot_prefix slot) fam key e k then None else content db k)"
    using healthy_rocksdb.purge_if_expired_eq [OF assms(1) bounded_slot_prefix, of db slot fam key now]
      assms(2,3) by simp_all
  then show ?thesis using purge_set_frame [OF assms(4-8)] by simp
qed

text \<open>A database with an expired string and a live hash, in slot 1.\<close>
definition expired_db :: mem_db where
  "expired_db =
     [(data_key (slot_prefix 1) KIND_STRING_TTL [107], encode_envelope 5 [118]),
      (expire_index_key (slot_prefix 1) 5 (data_key (slot_prefix 1) KIND_STRING_TTL [107]), []),
      (data_key (slot_prefix 1) KIND_HASH_META [104], encode_envelope 0 [1])]"

lemma expired_db_deadline:
  "deadline (map_of expired_db) (data_key (slot_prefix 1) (fst STRING_FAMILY) [107]) = 5"
  by (simp add: deadline_def expired_db_def kind_simps)

theorem purge_if_expired_exact_witness:
  "fst (purge_if_expired mem_rocksdb expired_db (slot_prefix 1) STRING_FAMILY [107] 9) \<and>
   map_of (snd (purge_if_expired mem_rocksdb expired_db (slot_prefix 1) STRING_FAMILY [107] 9))
     (elem_key (slot_prefix 1) KIND_HASH_META [104] []) =
   map_of expired_db (elem_key (slot_prefix 1) KIND_HASH_META [104] [])"
proof -
  have "family_of KIND_HASH_META \<noteq> None" "KIND_HASH_META \<noteq> KIND_STREAM_DELAY"
    by (simp_all add: family_of_def kind_simps)
  moreover have "length [107 :: u8] < 2 ^ 32" "length [104 :: u8] < 2 ^ 32" "[104 :: u8] \<noteq> [107]"
    and due: "is_expired 5 9" by (simp_all add: is_expired_def)
  ultimately show ?thesis
    using purge_if_expired_exact [OF mem_healthy surjective_pairing expired_db_deadline [symmetric],
      of "[104]" KIND_HASH_META 9 "[]"] by blast
qed



text \<open>C2: The expire index stays in step with the records: when every key of a slot has an index
  entry exactly at its deadline, this still holds after a record is written together with the
  entries of \<open>set_ttl_entries\<close>, and after a key is purged.\<close>
theorem expire_index_invariant:
  assumes "index_coherent pfx m" "is_user_key_kind kind" "length key < 2 ^ 32"
    and "family_of kind = Some fam" "new < 2 ^ 63"
  shows "index_coherent pfx (apply_batch
      (Put (data_key pfx kind key) (encode_envelope new payload) #
       set_ttl_entries pfx (data_key pfx kind key) (deadline m (data_key pfx kind key)) new) m) \<and>
    index_coherent pfx
      (\<lambda>k. if purge_set pfx fam key (deadline m (data_key pfx kind key)) k then None else m k)"
  using set_ttl_coherent [OF assms(1-3,5)] purge_coherent [OF assms(1,4,2,3)] by blast

theorem expire_index_invariant_witness:
  "index_coherent [49, 47] (apply_batch
     (Put (data_key [49, 47] KIND_JSON [107]) (encode_envelope 7 [1]) #
      set_ttl_entries [49, 47] (data_key [49, 47] KIND_JSON [107]) 0 7) Map.empty)"
proof -
  have "index_coherent [49, 47] Map.empty"
    by (auto simp: index_coherent_def deadline_def)
  moreover have "is_user_key_kind KIND_JSON"
    by (simp add: is_user_key_kind_def META_KINDS_def)
  ultimately show ?thesis
    using expire_index_invariant [of "[49, 47]" Map.empty KIND_JSON "[107]" JSON_FAMILY 7 "[1]"]
    by (simp add: family_of_def kind_simps deadline_def)
qed





end
