(* ===== verification/Rdb_Glob.thy ===== *)
theory Rdb_Glob
  imports Rdb_Prelude
begin

text \<open>
  The glob matcher of \<^verbatim>\<open>src/utils.rs\<close> (\<open>SCAN MATCH\<close>, \<open>KEYS\<close> and the element scans): the
  iterative two-pointer matcher with last-star backtracking, one iteration per \<open>glob_step\<close>.
  It is proved to end and to agree with a declarative reading of the pattern as a list of
  tokens.
\<close>

section \<open>The matcher\<close>

text \<open>The \<open>while i < body.len()\<close> loop over a class body.\<close>
function class_loop :: "bytes \<Rightarrow> nat \<Rightarrow> u8 \<Rightarrow> bool \<Rightarrow> bool" where
  "class_loop body i ch found =
     (if i < length body then
        (if body ! i = 45 \<and> i > 0 \<and> i + 1 < length body then
           class_loop body (i + 2) ch (if body ! (i - 1) \<le> ch \<and> ch \<le> body ! (i + 1) then True else found)
         else class_loop body (i + 1) ch (if body ! i = ch then True else found))
      else found)"
  by pat_completeness auto
termination by (relation "measure (\<lambda>(body, i, _). length body - i)") auto

declare class_loop.simps [simp del]

definition class_at :: "bytes \<Rightarrow> nat \<Rightarrow> u8 option \<Rightarrow> (bool \<times> nat) option" where
  "class_at pat at ch =
     (case position (\<lambda>b. b = 93) (drop (at + 1) pat) of
        None \<Rightarrow> None
      | Some n \<Rightarrow>
          (let close = n + at + 1;
               body = take (close - (at + 1)) (drop (at + 1) pat);
               negate = (first_of body = Some 94);
               body = (if negate then drop 1 body else body);
               hit = (case ch of None \<Rightarrow> False | Some ch \<Rightarrow> class_loop body 0 ch False)
           in Some (hit \<noteq> negate, close + 1)))"

text \<open>\<open>star == usize::MAX\<close> is \<open>None\<close>; the result is the new \<open>(p, i, star_s)\<close>.\<close>
definition glob_retry :: "nat option \<Rightarrow> nat \<Rightarrow> nat \<Rightarrow> (nat \<times> nat \<times> nat) option" where
  "glob_retry star star_s len =
     (case star of
        None \<Rightarrow> None
      | Some st \<Rightarrow> if star_s \<ge> len then None else Some (st + 1, star_s + 1, star_s + 1))"

datatype glob_state = Done bool | Continue nat nat "nat option" nat

definition retry_step :: "nat option \<Rightarrow> nat \<Rightarrow> nat \<Rightarrow> glob_state" where
  "retry_step star star_s len =
     (case glob_retry star star_s len of
        None \<Rightarrow> Done False
      | Some (p, i, star_s) \<Rightarrow> Continue p i star star_s)"

text \<open>One iteration of the \<open>loop\<close>.\<close>
definition glob_step :: "bytes \<Rightarrow> bytes \<Rightarrow> nat \<Rightarrow> nat \<Rightarrow> nat option \<Rightarrow> nat \<Rightarrow> glob_state" where
  "glob_step pat s p i star star_s =
     (if p < length pat then
        (let c = pat ! p in
         if c = 42 then Continue (p + 1) i (Some p) i
         else if c = 63 \<and> i < length s then Continue (p + 1) (i + 1) star star_s
         else if c = 91 then
           (case class_at pat p (get_at i s) of
              Some (hit, next_p) \<Rightarrow>
                if hit \<and> i < length s then Continue next_p (i + 1) star star_s
                else retry_step star star_s (length s)
            | None \<Rightarrow>
                if get_at i s = Some 91 then Continue (p + 1) (i + 1) star star_s
                else retry_step star star_s (length s))
         else if c = 92 then
           (if p + 1 < length pat \<and> get_at i s = Some (pat ! (p + 1))
            then Continue (p + 2) (i + 1) star star_s
            else retry_step star star_s (length s))
         else if get_at i s = Some c then Continue (p + 1) (i + 1) star star_s
         else retry_step star star_s (length s))
      else if i = length s then Done True
      else retry_step star star_s (length s))"

partial_function (option) glob_loop ::
    "bytes \<Rightarrow> bytes \<Rightarrow> nat \<Rightarrow> nat \<Rightarrow> nat option \<Rightarrow> nat \<Rightarrow> bool option" where
  "glob_loop pat s p i star star_s =
     (case glob_step pat s p i star star_s of
        Done b \<Rightarrow> Some b
      | Continue p' i' star' star_s' \<Rightarrow> glob_loop pat s p' i' star' star_s')"

definition glob_match :: "bytes \<Rightarrow> bytes \<Rightarrow> bool" where
  "glob_match pat s = (glob_loop pat s 0 0 None 0 = Some True)"

section \<open>Patterns as token lists\<close>

text \<open>
  \<open>Dead\<close> is an escape at the end of the pattern, which matches nothing; an unterminated class is
  a literal bracket.
\<close>
datatype token = Star | AnyByte | Class bool bytes | Lit u8 | Dead

definition class_hit :: "bool \<Rightarrow> bytes \<Rightarrow> u8 \<Rightarrow> bool" where
  "class_hit negate body ch \<longleftrightarrow> class_loop body 0 ch False \<noteq> negate"

function tokens :: "bytes \<Rightarrow> token list" where
  "tokens [] = []"
| "tokens (c # cs) =
     (if c = 42 then Star # tokens cs
      else if c = 63 then AnyByte # tokens cs
      else if c = 91 then
        (case position (\<lambda>b. b = 93) cs of
           Some n \<Rightarrow>
             (let body = take n cs; negate = (first_of body = Some 94)
              in Class negate (if negate then drop 1 body else body) # tokens (drop (n + 1) cs))
         | None \<Rightarrow> Lit c # tokens cs)
      else if c = 92 then (case cs of e # cs' \<Rightarrow> Lit e # tokens cs' | [] \<Rightarrow> [Dead])
      else Lit c # tokens cs)"
  by pat_completeness auto
termination by (relation "measure length") auto

fun one_byte :: "token \<Rightarrow> u8 \<Rightarrow> bool" where
  "one_byte Star ch = False"
| "one_byte AnyByte ch = True"
| "one_byte (Class negate body) ch = class_hit negate body ch"
| "one_byte (Lit c) ch = (ch = c)"
| "one_byte Dead ch = False"

text \<open>The declarative semantics: a star stands for any byte sequence.\<close>
fun token_match :: "token list \<Rightarrow> bytes \<Rightarrow> bool" where
  "token_match [] s = (s = [])"
| "token_match (Star # ts) s = (\<exists>n \<le> length s. token_match ts (drop n s))"
| "token_match (t # ts) s = (case s of [] \<Rightarrow> False | ch # s' \<Rightarrow> one_byte t ch \<and> token_match ts s')"

section \<open>Agreement of the matcher with the semantics\<close>

lemma get_at_eq_Some: "get_at i s = Some c \<longleftrightarrow> i < length s \<and> s ! i = c"
  by (auto simp: get_at_def)

lemma drop_Cons_nth: "p < length pat \<Longrightarrow> drop p pat = pat ! p # drop (Suc p) pat"
  by (simp add: Cons_nth_drop_Suc)

lemma tokens_star:
  "p < length pat \<Longrightarrow> pat ! p = 42 \<Longrightarrow> tokens (drop p pat) = Star # tokens (drop (p + 1) pat)"
  by (simp add: drop_Cons_nth)

lemma class_at_position:
  "class_at pat p ch = (case position (\<lambda>b. b = 93) (drop (Suc p) pat) of
     None \<Rightarrow> None
   | Some n \<Rightarrow>
       (let body = take n (drop (Suc p) pat); negate = (first_of body = Some 94)
        in Some ((case ch of None \<Rightarrow> False
                  | Some ch \<Rightarrow> class_loop (if negate then drop 1 body else body) 0 ch False) \<noteq> negate,
                 p + (n + 2))))"
  by (simp add: class_at_def Let_def split: option.splits)

text \<open>Every token but a star consumes one byte, and an iteration treats exactly one token.\<close>
lemma glob_step_token:
  assumes p: "p < length pat" and c: "pat ! p \<noteq> 42"
  obtains t w where "t \<noteq> Star" "0 < w" "p + w \<le> length pat"
    "tokens (drop p pat) = t # tokens (drop (p + w) pat)"
    "glob_step pat s p i star star_s =
       (if i < length s \<and> one_byte t (s ! i) then Continue (p + w) (i + 1) star star_s
        else retry_step star star_s (length s))"
proof -
  note d = drop_Cons_nth [OF p]
  consider (any) "pat ! p = 63" | (cls) "pat ! p = 91" | (esc) "pat ! p = 92"
    | (lit) "pat ! p \<noteq> 63" "pat ! p \<noteq> 91" "pat ! p \<noteq> 92" by blast
  then show thesis
  proof cases
    case any
    then show ?thesis
      using p by (intro that [of AnyByte 1]) (auto simp: d glob_step_def get_at_eq_Some Let_def)
  next
    case lit
    then show ?thesis
      using p c by (intro that [of "Lit (pat ! p)" 1]) (auto simp: d glob_step_def get_at_eq_Some Let_def)
  next
    case esc
    show ?thesis
    proof (cases "p + 1 < length pat")
      case True
      then have "drop (Suc p) pat = pat ! Suc p # drop (Suc (Suc p)) pat" by (simp add: drop_Cons_nth)
      then show ?thesis
        using esc p True
        by (intro that [of "Lit (pat ! (p + 1))" 2]) (auto simp: d glob_step_def get_at_eq_Some Let_def)
    next
      case False
      then have "drop (Suc p) pat = []" by simp
      then have "tokens (drop p pat) = [Dead]" by (simp only: d esc) simp
      moreover have "tokens (drop (p + 1) pat) = []" using False by simp
      moreover have "glob_step pat s p i star star_s = retry_step star star_s (length s)"
        using esc p False by (simp add: glob_step_def)
      ultimately show ?thesis using p by (intro that [of Dead 1]) simp_all
    qed
  next
    case cls
    show ?thesis
    proof (cases "position (\<lambda>b. b = 93) (drop (Suc p) pat)")
      case None
      then have "tokens (drop p pat) = Lit 91 # tokens (drop (p + 1) pat)" by (simp only: d cls) simp
      moreover have "glob_step pat s p i star star_s =
          (if get_at i s = Some 91 then Continue (p + 1) (i + 1) star star_s
           else retry_step star star_s (length s))"
        using cls p None by (simp add: glob_step_def class_at_position)
      ultimately show ?thesis
        using p by (intro that [of "Lit 91" 1]) (simp_all add: get_at_eq_Some)
    next
      case (Some n)
      let ?body = "take n (drop (Suc p) pat)"
      let ?neg = "first_of ?body = Some 94"
      have "n < length (drop (Suc p) pat)" using Some unfolding position_Some_iff by blast
      then have "p + (n + 2) \<le> length pat" by simp
      moreover have "tokens (drop p pat) =
          Class ?neg (if ?neg then drop 1 ?body else ?body) # tokens (drop (p + (n + 2)) pat)"
      proof -
        have "drop (n + 1) (drop (Suc p) pat) = drop (p + (n + 2)) pat"
          by (simp add: add.commute)
        then show ?thesis using Some by (simp only: d cls) (simp add: Let_def)
      qed
      moreover have "glob_step pat s p i star star_s =
          (if i < length s \<and> class_hit ?neg (if ?neg then drop 1 ?body else ?body) (s ! i)
           then Continue (p + (n + 2)) (i + 1) star star_s
           else retry_step star star_s (length s))"
        using cls p Some
        by (cases "i < length s") (simp_all add: glob_step_def class_at_position class_hit_def get_at_def Let_def)
      ultimately show ?thesis
        by (intro that [of "Class ?neg (if ?neg then drop 1 ?body else ?body)" "n + 2"]) simp_all
    qed
  qed
qed

definition rest_match :: "bytes \<Rightarrow> bytes \<Rightarrow> nat \<Rightarrow> nat \<Rightarrow> bool" where
  "rest_match pat s p i \<longleftrightarrow> i \<le> length s \<and> token_match (tokens (drop p pat)) (drop i s)"

lemma rest_match_end: "length pat \<le> p \<Longrightarrow> rest_match pat s p i \<longleftrightarrow> i = length s"
  by (auto simp: rest_match_def)

lemma rest_match_star:
  assumes "p < length pat" "pat ! p = 42"
  shows "rest_match pat s p i \<longleftrightarrow> (\<exists>j. i \<le> j \<and> rest_match pat s (p + 1) j)"
proof
  assume "rest_match pat s p i"
  then obtain n where "i \<le> length s" "n \<le> length s - i" "token_match (tokens (drop (p + 1) pat)) (drop (n + i) s)"
    by (auto simp: rest_match_def tokens_star [OF assms])
  then show "\<exists>j. i \<le> j \<and> rest_match pat s (p + 1) j"
    by (intro exI [of _ "n + i"]) (auto simp: rest_match_def)
next
  assume "\<exists>j. i \<le> j \<and> rest_match pat s (p + 1) j"
  then obtain j where "i \<le> j" "rest_match pat s (p + 1) j" by blast
  then show "rest_match pat s p i"
    by (auto simp: rest_match_def tokens_star [OF assms] intro!: exI [of _ "j - i"])
qed

lemma rest_match_token:
  assumes "t \<noteq> Star" "tokens (drop p pat) = t # tokens (drop p' pat)"
  shows "rest_match pat s p i \<longleftrightarrow> i < length s \<and> one_byte t (s ! i) \<and> rest_match pat s p' (i + 1)"
proof (cases "i < length s")
  case True
  then have "drop i s = s ! i # drop (Suc i) s" by (rule drop_Cons_nth)
  then show ?thesis using assms True by (cases t) (auto simp: rest_match_def)
next
  case False
  then show ?thesis using assms by (cases t) (auto simp: rest_match_def)
qed

text \<open>
  The loop invariant: the whole match is decided by the current position, or by a later retry of
  the last star; and a later retry would pass the same tokens, one byte each.
\<close>
definition glob_inv :: "bytes \<Rightarrow> bytes \<Rightarrow> nat \<Rightarrow> nat \<Rightarrow> nat option \<Rightarrow> nat \<Rightarrow> bool" where
  "glob_inv pat s p i star star_s \<longleftrightarrow>
     star_s \<le> i \<and> i \<le> length s \<and>
     (case star of
        None \<Rightarrow> rest_match pat s 0 0 = rest_match pat s p i
      | Some st \<Rightarrow>
          rest_match pat s 0 0 = (rest_match pat s p i \<or> (\<exists>j > star_s. rest_match pat s (st + 1) j)) \<and>
          (\<forall>j. rest_match pat s (st + 1) j \<longrightarrow> rest_match pat s p (j + (i - star_s))))"

lemma glob_inv_star:
  assumes inv: "glob_inv pat s p i star star_s" and p: "p < length pat" "pat ! p = 42"
  shows "glob_inv pat s (p + 1) i (Some p) i"
proof -
  have M: "rest_match pat s p i = (rest_match pat s (p + 1) i \<or> (\<exists>j > i. rest_match pat s (p + 1) j))"
    unfolding rest_match_star [OF p] using order_le_less by blast
  have "rest_match pat s 0 0 = rest_match pat s p i"
  proof (cases star)
    case None
    then show ?thesis using inv by (simp add: glob_inv_def)
  next
    case (Some st)
    have "rest_match pat s p i" if "j > star_s" "rest_match pat s (st + 1) j" for j
    proof -
      have "rest_match pat s p (j + (i - star_s))"
        using inv that(2) unfolding Some glob_inv_def option.case by blast
      then obtain j' where "j + (i - star_s) \<le> j'" "rest_match pat s (p + 1) j'"
        unfolding rest_match_star [OF p] by blast
      moreover have "i \<le> j + (i - star_s)" using that(1) by simp
      ultimately show ?thesis unfolding rest_match_star [OF p] using order_trans by blast
    qed
    then show ?thesis using inv Some by (auto simp: glob_inv_def)
  qed
  then show ?thesis using inv M by (simp add: glob_inv_def)
qed

lemma glob_inv_consume:
  assumes inv: "glob_inv pat s p i star star_s" and t: "t \<noteq> Star" "tokens (drop p pat) = t # tokens (drop p' pat)"
    and hit: "i < length s" "one_byte t (s ! i)"
  shows "glob_inv pat s p' (i + 1) star star_s"
proof -
  have "star_s \<le> i" using inv by (simp add: glob_inv_def)
  then have "j + (i - star_s) + 1 = j + (i + 1 - star_s)" for j by simp
  then show ?thesis
    using inv hit unfolding glob_inv_def rest_match_token [OF t] by (auto split: option.splits)
qed

lemma glob_inv_retry:
  assumes inv: "glob_inv pat s p i star star_s" and no: "\<not> rest_match pat s p i"
  shows "case retry_step star star_s (length s) of
     Done b \<Rightarrow> b = rest_match pat s 0 0
   | Continue p' i' star' star_s' \<Rightarrow>
       glob_inv pat s p' i' star' star_s' \<and> star_s' = star_s + 1 \<and> star_s < length s"
proof (cases star)
  case None
  then show ?thesis using inv no by (simp add: retry_step_def glob_retry_def glob_inv_def)
next
  case (Some st)
  have all: "rest_match pat s 0 0 = (\<exists>j > star_s. rest_match pat s (st + 1) j)"
    using inv no Some by (simp add: glob_inv_def)
  show ?thesis
  proof (cases "star_s \<ge> length s")
    case True
    then have "\<not> rest_match pat s (st + 1) j" if "j > star_s" for j
      using that by (simp add: rest_match_def)
    then show ?thesis using True Some all by (auto simp: retry_step_def glob_retry_def)
  next
    case False
    have "(\<exists>j > star_s. rest_match pat s (st + 1) j) =
        (rest_match pat s (st + 1) (star_s + 1) \<or> (\<exists>j > star_s + 1. rest_match pat s (st + 1) j))"
      by (metis Suc_eq_plus1 Suc_lessI lessI less_trans)
    then show ?thesis
      using False Some all by (simp add: retry_step_def glob_retry_def glob_inv_def)
  qed
qed

lemma glob_loop_correct:
  "glob_inv pat s p i star star_s \<Longrightarrow> glob_loop pat s p i star star_s = Some (rest_match pat s 0 0)"
proof (induction "(length s - star_s) * Suc (length pat) + (length pat - p)"
    arbitrary: p i star star_s rule: less_induct)
  case less
  note inv = less.prems
  have i: "star_s \<le> i" "i \<le> length s" using inv by (simp_all add: glob_inv_def)
  have retry: ?case if no: "\<not> rest_match pat s p i"
    and step: "glob_step pat s p i star star_s = retry_step star star_s (length s)"
  proof (cases "retry_step star star_s (length s)")
    case (Done b)
    then show ?thesis using glob_inv_retry [OF inv no] step by (subst glob_loop.simps) simp
  next
    case (Continue p' i' star' star_s')
    then have "glob_inv pat s p' i' star' star_s'" and ss: "star_s' = star_s + 1" "star_s < length s"
      using glob_inv_retry [OF inv no] unfolding Continue by auto
    obtain d where d: "length s - star_s = Suc d" using ss(2) by (metis Suc_diff_Suc)
    then have "length s - star_s' = d" using ss by simp
    then have "(length s - star_s') * Suc (length pat) + (length pat - p') <
        (length s - star_s) * Suc (length pat) + (length pat - p)"
      unfolding d by simp
    then have "glob_loop pat s p' i' star' star_s' = Some (rest_match pat s 0 0)"
      using less.hyps \<open>glob_inv pat s p' i' star' star_s'\<close> by blast
    then show ?thesis using Continue step by (subst glob_loop.simps) simp
  qed
  show ?case
  proof (cases "p < length pat")
    case False
    then have M: "rest_match pat s p i = (i = length s)" by (simp add: rest_match_end)
    show ?thesis
    proof (cases "i = length s")
      case True
      then have "rest_match pat s 0 0"
        using inv M by (auto simp: glob_inv_def split: option.splits)
      then show ?thesis using True False by (subst glob_loop.simps) (simp add: glob_step_def)
    next
      case no: False
      show ?thesis by (rule retry) (use M no False in \<open>simp_all add: glob_step_def\<close>)
    qed
  next
    case p: True
    show ?thesis
    proof (cases "pat ! p = 42")
      case True
      have "(length s - i) * Suc (length pat) \<le> (length s - star_s) * Suc (length pat)"
        using i by (intro mult_le_mono1) simp
      then have "(length s - i) * Suc (length pat) + (length pat - (p + 1)) <
          (length s - star_s) * Suc (length pat) + (length pat - p)"
        using p by linarith
      then have "glob_loop pat s (p + 1) i (Some p) i = Some (rest_match pat s 0 0)"
        using less.hyps glob_inv_star [OF inv p True] by blast
      then show ?thesis using p True by (subst glob_loop.simps) (simp add: glob_step_def)
    next
      case False
      obtain t w where t: "t \<noteq> Star" "tokens (drop p pat) = t # tokens (drop (p + w) pat)"
        and w: "0 < w" "p + w \<le> length pat"
        and step: "glob_step pat s p i star star_s =
          (if i < length s \<and> one_byte t (s ! i) then Continue (p + w) (i + 1) star star_s
           else retry_step star star_s (length s))"
        using glob_step_token [OF p False] by blast
      show ?thesis
      proof (cases "i < length s \<and> one_byte t (s ! i)")
        case True
        then have "glob_loop pat s (p + w) (i + 1) star star_s = Some (rest_match pat s 0 0)"
          using glob_inv_consume [OF inv t] w p by (intro less.hyps) auto
        then show ?thesis using True step by (subst glob_loop.simps) simp
      next
        case miss: False
        show ?thesis by (rule retry) (use step miss rest_match_token [OF t] in auto)
      qed
    qed
  qed
qed

text \<open>C33: The glob matcher ends on every pattern and string, and answers exactly whether the string
  matches the pattern read as a token list (stars any sequence, \<open>?\<close> and classes one byte, escapes
  literal): the last-star backtracking loses no match.\<close>
theorem glob_match_correct:
  "glob_loop pat s 0 0 None 0 = Some (token_match (tokens pat) s) \<and>
   glob_match pat s = token_match (tokens pat) s"
proof -
  have "glob_inv pat s 0 0 None 0" by (simp add: glob_inv_def)
  then have "glob_loop pat s 0 0 None 0 = Some (rest_match pat s 0 0)" by (rule glob_loop_correct)
  then show ?thesis by (simp add: glob_match_def rest_match_def)
qed

end
