(* ===== verification/Rdb_Wait.thy ===== *)
theory Rdb_Wait
  imports Rdb_Prelude
begin

text \<open>
  The wait queue of blocking commands, \<^verbatim>\<open>src/ds/wait.rs\<close>.  A waiter (an \<open>Arc\<close>) is its
  identity, a number; its \<open>signaled\<close> flag is membership in one set.  Every function holds the hub's
  mutex from start to end, so it is one step on the hub.  Parking is seen at the moments the parked
  thread looks at its flag.
\<close>

section \<open>The hub\<close>

type_synonym waiter = nat

record wait_hub =
  wh_queues :: "bytes \<rightharpoonup> waiter list"
  wh_signaled :: "waiter set"
  wh_next :: waiter

definition wait_hub_new :: wait_hub where
  "wait_hub_new = \<lparr>wh_queues = Map.empty, wh_signaled = {}, wh_next = 0\<rparr>"

datatype wait_outcome = Signaled | Timeout

definition new_waiter :: "wait_hub \<Rightarrow> waiter \<times> wait_hub" where
  "new_waiter hub = (wh_next hub, hub\<lparr>wh_next := wh_next hub + 1\<rparr>)"

text \<open>\<open>map.entry(key).or_default().push_back(w)\<close>.\<close>
definition register_shared :: "wait_hub \<Rightarrow> bytes \<Rightarrow> waiter \<Rightarrow> wait_hub" where
  "register_shared hub key w =
     hub\<lparr>wh_queues := (wh_queues hub)(key \<mapsto> (case wh_queues hub key of Some q \<Rightarrow> q | None \<Rightarrow> []) @ [w])\<rparr>"

definition register :: "wait_hub \<Rightarrow> bytes \<Rightarrow> waiter \<times> wait_hub" where
  "register hub key = (let (w, hub) = new_waiter hub in (w, register_shared hub key w))"

definition signal :: "wait_hub \<Rightarrow> waiter \<Rightarrow> wait_hub" where
  "signal hub w = hub\<lparr>wh_signaled := insert w (wh_signaled hub)\<rparr>"

definition signal_if_armed :: "waiter set \<Rightarrow> waiter \<Rightarrow> bool \<times> waiter set" where
  "signal_if_armed signaled w = (if w \<in> signaled then (False, signaled) else (True, insert w signaled))"

text \<open>The \<open>while woke < n\<close> loop: the waiters woken, what is left of the queue, the flags.\<close>
fun notify_loop :: "nat \<Rightarrow> nat \<Rightarrow> waiter list \<Rightarrow> waiter set \<Rightarrow> nat \<times> waiter list \<times> waiter set" where
  "notify_loop n woke [] signaled = (woke, [], signaled)"
| "notify_loop n woke (w # queue) signaled =
     (if woke < n then
        (let (did, signaled) = signal_if_armed signaled w in
         notify_loop n (if did then woke + 1 else woke) queue signaled)
      else (woke, w # queue, signaled))"

definition notify_n :: "wait_hub \<Rightarrow> bytes \<Rightarrow> nat \<Rightarrow> nat \<times> wait_hub" where
  "notify_n hub key n =
     (case wh_queues hub key of
        None \<Rightarrow> (0, hub)
      | Some queue \<Rightarrow>
          (case notify_loop n 0 queue (wh_signaled hub) of
             (woke, rest, signaled) \<Rightarrow>
               (woke, hub\<lparr>wh_signaled := signaled,
                  wh_queues := (wh_queues hub)(key := if rest = [] then None else Some rest)\<rparr>)))"

definition notify :: "wait_hub \<Rightarrow> bytes \<Rightarrow> bool \<times> wait_hub" where
  "notify hub key = (case notify_n hub key 1 of (woke, hub) \<Rightarrow> (woke > 0, hub))"

definition unregister :: "wait_hub \<Rightarrow> bytes \<Rightarrow> waiter \<Rightarrow> wait_hub" where
  "unregister hub key w =
     (case wh_queues hub key of
        None \<Rightarrow> hub
      | Some queue \<Rightarrow>
          (let rest = filter (\<lambda>v. v \<noteq> w) queue in
           hub\<lparr>wh_queues := (wh_queues hub)(key := if rest = [] then None else Some rest)\<rparr>))"

text \<open>One pass of the parking loop: \<open>None\<close> goes on waiting.\<close>
definition wait_check :: "wait_hub \<Rightarrow> waiter \<Rightarrow> bool \<Rightarrow> wait_outcome option" where
  "wait_check hub w deadline_passed =
     (if w \<in> wh_signaled hub then Some Signaled else if deadline_passed then Some Timeout else None)"

section \<open>The queue discipline\<close>

lemma notify_loop_split:
  assumes "notify_loop n woke queue signaled = (woke', rest, signaled')" "woke \<le> n"
  shows "\<exists>gone. queue = gone @ rest \<and> signaled' = signaled \<union> set gone \<and>
    woke' = woke + card (set gone - signaled) \<and> woke' \<le> n \<and> (woke' = n \<or> rest = [])"
  using assms
proof (induction n woke queue signaled rule: notify_loop.induct)
  case (2 n woke w queue signaled)
  show ?case
  proof (cases "woke < n")
    case False
    then show ?thesis using 2 by (intro exI [of _ "[]"]) auto
  next
    case True
    obtain did s where s: "signal_if_armed signaled w = (did, s)" by fastforce
    then obtain gone where g: "queue = gone @ rest" "signaled' = s \<union> set gone"
        "woke' = (if did then woke + 1 else woke) + card (set gone - s)" "woke' \<le> n" "woke' = n \<or> rest = []"
      using "2.IH" [OF True s [symmetric] refl] "2.prems" True by (auto split: if_splits)
    have "card (set (w # gone) - signaled) = (if did then 1 else 0) + card (set gone - s)"
    proof (cases "w \<in> signaled")
      case True
      then show ?thesis using s by (auto simp: signal_if_armed_def insert_Diff_if)
    next
      case False
      then have "set (w # gone) - signaled = insert w (set gone - s)"
        using s by (auto simp: signal_if_armed_def)
      moreover have "w \<notin> set gone - s" using False s by (auto simp: signal_if_armed_def)
      ultimately show ?thesis using False s by (auto simp: signal_if_armed_def)
    qed
    moreover have "signaled' = signaled \<union> set (w # gone)"
      using g(2) s by (auto simp: signal_if_armed_def split: if_splits)
    ultimately show ?thesis
      using g by (intro exI [of _ "w # gone"]) (auto split: if_splits)
  qed
qed auto

text \<open>No queue is kept empty, and every queued or signaled waiter was handed out.\<close>
definition hub_ok :: "wait_hub \<Rightarrow> bool" where
  "hub_ok hub \<longleftrightarrow>
     (\<forall>key queue. wh_queues hub key = Some queue \<longrightarrow> queue \<noteq> [] \<and> (\<forall>w \<in> set queue. w < wh_next hub)) \<and>
     (\<forall>w \<in> wh_signaled hub. w < wh_next hub)"

lemma hub_ok_new: "hub_ok wait_hub_new"
  by (simp add: hub_ok_def wait_hub_new_def)

lemma hub_ok_new_waiter: "hub_ok hub \<Longrightarrow> hub_ok (snd (new_waiter hub))"
  by (fastforce simp: hub_ok_def new_waiter_def)

lemma hub_ok_register_shared: "hub_ok hub \<Longrightarrow> w < wh_next hub \<Longrightarrow> hub_ok (register_shared hub key w)"
  by (cases "wh_queues hub key") (auto simp: hub_ok_def register_shared_def split: if_splits)

lemma hub_ok_register: "hub_ok hub \<Longrightarrow> hub_ok (snd (register hub key))"
  using hub_ok_new_waiter [of hub]
  by (simp add: register_def new_waiter_def hub_ok_register_shared)

lemma hub_ok_unregister: "hub_ok hub \<Longrightarrow> hub_ok (unregister hub key w)"
  by (cases "wh_queues hub key") (auto simp: hub_ok_def unregister_def Let_def split: if_splits)

lemma hub_ok_signal: "hub_ok hub \<Longrightarrow> w < wh_next hub \<Longrightarrow> hub_ok (signal hub w)"
  by (auto simp: hub_ok_def signal_def)

lemma hub_ok_notify_n:
  assumes "hub_ok hub"
  shows "hub_ok (snd (notify_n hub key n))"
proof (cases "wh_queues hub key")
  case (Some queue)
  obtain woke rest signaled where l: "notify_loop n 0 queue (wh_signaled hub) = (woke, rest, signaled)"
    by (metis prod_cases3)
  obtain gone where "queue = gone @ rest" "signaled = wh_signaled hub \<union> set gone"
    using notify_loop_split [OF l] by auto
  moreover have "\<forall>w \<in> set queue. w < wh_next hub" "\<forall>w \<in> wh_signaled hub. w < wh_next hub"
    using assms Some by (auto simp: hub_ok_def)
  ultimately have "\<forall>w \<in> set rest. w < wh_next hub" "\<forall>w \<in> signaled. w < wh_next hub" by auto
  then show ?thesis
    using assms Some by (auto simp: hub_ok_def notify_n_def l split: if_splits)
qed (use assms in \<open>simp add: notify_n_def\<close>)

section \<open>Properties\<close>

text \<open>C39: Waking is first come, first served and loses nobody.  \<open>notify_n\<close> pops a front part of the
  queue of the key, signals exactly the waiters in it, counts the ones that were still armed, and
  stops after \<open>n\<close> of those or when the queue is empty; so it wakes \<open>n\<close> waiters whenever \<open>n\<close> are
  armed, all older than the ones it leaves, and other queues stay as they were.\<close>
theorem notify_fifo:
  assumes "wh_queues hub key = Some queue" "notify_n hub key n = (woke, hub')"
  shows "\<exists>gone rest. queue = gone @ rest \<and>
    wh_queues hub' key = (if rest = [] then None else Some rest) \<and>
    wh_signaled hub' = wh_signaled hub \<union> set gone \<and>
    woke = card (set gone - wh_signaled hub) \<and>
    woke = min n (card (set queue - wh_signaled hub)) \<and>
    (\<forall>k. k \<noteq> key \<longrightarrow> wh_queues hub' k = wh_queues hub k)"
proof -
  obtain w rest signaled where l: "notify_loop n 0 queue (wh_signaled hub) = (w, rest, signaled)"
    by (metis prod_cases3)
  obtain gone where g: "queue = gone @ rest" "signaled = wh_signaled hub \<union> set gone"
      "w = card (set gone - wh_signaled hub)" "w \<le> n" "w = n \<or> rest = []"
    using notify_loop_split [OF l] by auto
  have "card (set gone - wh_signaled hub) \<le> card (set queue - wh_signaled hub)"
    by (rule card_mono) (auto simp: g(1))
  then have "w = min n (card (set queue - wh_signaled hub))" using g by auto
  then show ?thesis
    using assms l g by (intro exI [of _ gone] exI [of _ rest]) (auto simp: notify_n_def)
qed

theorem notify_fifo_witness:
  "\<exists>hub'. notify_n \<lparr>wh_queues = [[1] \<mapsto> [4, 5, 6]], wh_signaled = {4}, wh_next = 7\<rparr> [1] 1 = (1, hub')"
proof -
  let ?hub = "\<lparr>wh_queues = [[1] \<mapsto> [4, 5, 6]], wh_signaled = {4}, wh_next = 7\<rparr>"
  obtain woke hub' where n: "notify_n ?hub [1] 1 = (woke, hub')" by fastforce
  have "wh_queues ?hub [1] = Some [4, 5, 6]" by simp
  from notify_fifo [OF this n] have "woke = min 1 (card (set [4, 5, 6] - {4 :: nat}))" by auto
  then show ?thesis using n by simp
qed

end
