(* ===== verification/Rdb_Keys.thy ===== *)
theory Rdb_Keys
  imports Rdb_Expire Rdb_Wait
begin

text \<open>
  The key-space mechanics of \<^verbatim>\<open>src/command/keys_core.rs\<close>: resolving a user key to its current
  state, deletes, TTL writes, PERSIST and RENAME.  The shared state holds the store, the detached
  purges started so far, the streams reported to the Lite runtime and the wait queue of blocking
  commands.  Every mutation holds the
  per-key latch, so an operation is one step on the shared state; the clock is an argument.
\<close>

section \<open>Shared state and key resolution\<close>

record 'db shared =
  sh_store :: 'db
  sh_detached :: "detached list"
  sh_reaps :: "(bytes \<times> bytes) list"
  sh_wait :: wait_hub

datatype key_state =
    Missing
  | RawString (raw_value: bytes)
  | Enveloped (env_kind: u8) (env_expire: u64) (env_payload: bytes)

definition is_present :: "key_state \<Rightarrow> bool" where
  "is_present st \<longleftrightarrow> st \<noteq> Missing"

definition expire_ms :: "key_state \<Rightarrow> u64" where
  "expire_ms st = (case st of Enveloped _ e _ \<Rightarrow> e | _ \<Rightarrow> 0)"

datatype ttl_answer = TtlMissing | NoExpiry | Millis u64

datatype ttl_flag = FlagNone | Nx | Xx | Gt | Lt

text \<open>\<open>to_ascii_uppercase\<close>.\<close>
definition to_ascii_uppercase :: "bytes \<Rightarrow> bytes" where
  "to_ascii_uppercase = map (\<lambda>b. if 97 \<le> b \<and> b \<le> 122 then b - 32 else b)"

definition parse_ttl_flag :: "bytes \<Rightarrow> ttl_flag option" where
  "parse_ttl_flag arg =
     (let up = to_ascii_uppercase arg in
      if up = ascii ''NX'' then Some Nx
      else if up = ascii ''XX'' then Some Xx
      else if up = ascii ''GT'' then Some Gt
      else if up = ascii ''LT'' then Some Lt
      else None)"

definition latch_key :: "bytes \<Rightarrow> bytes \<Rightarrow> bytes" where
  "latch_key pfx key = string_key pfx key"

text \<open>A purge function also updates the state its closure captures.\<close>
type_synonym 's purge_fn = "bytes \<Rightarrow> codec_family \<Rightarrow> bytes \<Rightarrow> u64 \<Rightarrow> 's \<Rightarrow> bool \<times> 's"

text \<open>The \<open>for kind in codec::meta_kinds()\<close> loop.\<close>
fun resolve_kinds ::
    "u8 list \<Rightarrow> 'db rocksdb \<Rightarrow> 'db \<Rightarrow> bytes \<Rightarrow> bytes \<Rightarrow> u64 \<Rightarrow> 's purge_fn \<Rightarrow> 's \<Rightarrow> key_state \<times> 's" where
  "resolve_kinds [] R db pfx key now purge s = (Missing, s)"
| "resolve_kinds (kind # kinds) R db pfx key now purge s =
     (case get_physical R db (data_key pfx kind key) of
        Inr (Some val) \<Rightarrow>
          (let (expire, payload) = decode_envelope val in
           if is_expired expire now then
             (case family_of kind of
                Some fam \<Rightarrow> (Missing, snd (purge pfx fam key now s))
              | None \<Rightarrow> (Missing, s))
           else (Enveloped kind expire payload, s))
      | _ \<Rightarrow> resolve_kinds kinds R db pfx key now purge s)"

definition resolve_with ::
    "'db rocksdb \<Rightarrow> 'db \<Rightarrow> bytes \<Rightarrow> bytes \<Rightarrow> u64 \<Rightarrow> 's purge_fn \<Rightarrow> 's \<Rightarrow> key_state \<times> 's" where
  "resolve_with R db pfx key now purge s =
     (case get_physical R db (string_key pfx key) of
        Inr (Some val) \<Rightarrow> (RawString val, s)
      | _ \<Rightarrow> resolve_kinds META_KINDS R db pfx key now purge s)"

definition resolve :: "'db rocksdb \<Rightarrow> 'db \<Rightarrow> bytes \<Rightarrow> bytes \<Rightarrow> u64 \<Rightarrow> key_state \<times> 'db" where
  "resolve R db pfx key now =
     resolve_with R db pfx key now (\<lambda>p fam k n db. purge_if_expired R db p fam k n) db"

definition resolve_arc ::
    "'db rocksdb \<Rightarrow> bytes \<Rightarrow> bytes \<Rightarrow> u64 \<Rightarrow> 'db shared \<Rightarrow> key_state \<times> 'db shared" where
  "resolve_arc R pfx key now sh =
     resolve_with R (sh_store sh) pfx key now
       (\<lambda>p fam k n sh. case purge_if_expired_arc R (sh_store sh) p fam k n of
          (b, tasks) \<Rightarrow> (b, sh\<lparr>sh_detached := sh_detached sh @ tasks\<rparr>)) sh"

definition flag_allows :: "ttl_flag \<Rightarrow> u64 \<Rightarrow> u64 \<Rightarrow> bool" where
  "flag_allows flag old new =
     (case flag of
        FlagNone \<Rightarrow> True
      | Nx \<Rightarrow> old = 0
      | Xx \<Rightarrow> old > 0
      | Gt \<Rightarrow> old > 0 \<and> new > old
      | Lt \<Rightarrow> old > 0 \<and> new < old)"

section \<open>Deletes and TTL writes\<close>

text \<open>An awaited batch write on the shared store.\<close>
definition sh_batch_write ::
    "'db rocksdb \<Rightarrow> write_batch \<Rightarrow> 'db shared \<Rightarrow> unit result \<times> 'db shared" where
  "sh_batch_write R batch sh =
     (case batch_write R (sh_store sh) batch of (r, db) \<Rightarrow> (r, sh\<lparr>sh_store := db\<rparr>))"

text \<open>\<open>shared.lite.stream_reaped(prefix, key)\<close>.\<close>
definition stream_reaped :: "bytes \<Rightarrow> bytes \<Rightarrow> 'db shared \<Rightarrow> 'db shared" where
  "stream_reaped pfx key sh = sh\<lparr>sh_reaps := sh_reaps sh @ [(pfx, key)]\<rparr>"

definition family_or :: "codec_family \<Rightarrow> u8 \<Rightarrow> codec_family" where
  "family_or dflt kind = (case family_of kind of Some fam \<Rightarrow> fam | None \<Rightarrow> dflt)"

definition delete_records ::
    "'db rocksdb \<Rightarrow> bytes \<Rightarrow> bytes \<Rightarrow> u64 \<Rightarrow> 'db shared \<Rightarrow> bool result \<times> 'db shared" where
  "delete_records R pfx key now sh =
     (case resolve_arc R pfx key now sh of
        (Missing, sh) \<Rightarrow> (Inr False, sh)
      | (RawString _, sh) \<Rightarrow>
          (case store_del R (sh_store sh) pfx key of (r, db) \<Rightarrow> (r, sh\<lparr>sh_store := db\<rparr>))
      | (Enveloped kind expire _, sh) \<Rightarrow>
          (let fam = family_or STRING_FAMILY kind;
               batch = family_delete_entries R (Some (sh_store sh)) pfx fam key expire
           in case sh_batch_write R batch sh of
                (Inl e, sh) \<Rightarrow> (Inl e, sh)
              | (Inr _, sh) \<Rightarrow>
                  (Inr True, if fam = STREAM_FAMILY then stream_reaped pfx key sh else sh)))"

definition delete_batch ::
    "'db rocksdb \<Rightarrow> 'db option \<Rightarrow> bytes \<Rightarrow> bytes \<Rightarrow> key_state \<Rightarrow> write_batch" where
  "delete_batch R store pfx key st =
     (case st of
        RawString _ \<Rightarrow> [Delete (string_key pfx key)]
      | Enveloped kind expire _ \<Rightarrow>
          family_delete_entries R store pfx (family_or STRING_FAMILY kind) key expire
      | Missing \<Rightarrow> [])"

text \<open>The batch of \<open>apply_ttl\<close> for a deadline in the future.\<close>
definition ttl_batch :: "bytes \<Rightarrow> bytes \<Rightarrow> key_state \<Rightarrow> u64 \<Rightarrow> write_batch" where
  "ttl_batch pfx key st new_ms =
     (case st of
        RawString val \<Rightarrow>
          (let root = data_key pfx KIND_STRING_TTL key in
           [Put root (encode_envelope new_ms val), Delete (string_key pfx key)] @
           set_ttl_entries pfx root 0 new_ms)
      | Enveloped kind old payload \<Rightarrow>
          (let root = data_key pfx kind key in
           [Put root (encode_envelope new_ms payload)] @ set_ttl_entries pfx root old new_ms)
      | Missing \<Rightarrow> [])"

definition apply_ttl ::
    "'db rocksdb \<Rightarrow> bytes \<Rightarrow> bytes \<Rightarrow> u64 \<Rightarrow> ttl_flag \<Rightarrow> u64 \<Rightarrow> 'db shared \<Rightarrow> bool result \<times> 'db shared" where
  "apply_ttl R pfx key new_ms flag now sh =
     (let (st, sh) = resolve_arc R pfx key now sh in
      if \<not> is_present st then (Inr False, sh)
      else if \<not> flag_allows flag (expire_ms st) new_ms then (Inr False, sh)
      else
        (let (batch, stream_deleted) =
           (if new_ms \<le> now then
              (delete_batch R (Some (sh_store sh)) pfx key st,
               (case st of Enveloped kind _ _ \<Rightarrow> family_of kind = Some STREAM_FAMILY | _ \<Rightarrow> False))
            else (ttl_batch pfx key st new_ms, False))
         in case sh_batch_write R batch sh of
              (Inl e, sh) \<Rightarrow> (Inl e, sh)
            | (Inr _, sh) \<Rightarrow> (Inr True, if stream_deleted then stream_reaped pfx key sh else sh)))"

definition persist_key ::
    "'db rocksdb \<Rightarrow> bytes \<Rightarrow> bytes \<Rightarrow> u64 \<Rightarrow> 'db shared \<Rightarrow> bool result \<times> 'db shared" where
  "persist_key R pfx key now sh =
     (case resolve_arc R pfx key now sh of
        (Enveloped kind expire payload, sh) \<Rightarrow>
          if expire = 0 then (Inr False, sh)
          else
            (let root = data_key pfx kind key;
                 batch = (if kind = KIND_STRING_TTL
                          then [Put (string_key pfx key) payload, Delete root]
                          else [Put root (encode_envelope 0 payload)]) @
                         set_ttl_entries pfx root expire 0
             in case sh_batch_write R batch sh of
                  (Inl e, sh) \<Rightarrow> (Inl e, sh)
                | (Inr _, sh) \<Rightarrow> (Inr True, sh))
      | (_, sh) \<Rightarrow> (Inr False, sh))"

text \<open>\<open>u64::saturating_sub\<close>.\<close>
definition saturating_sub :: "u64 \<Rightarrow> u64 \<Rightarrow> u64" where
  "saturating_sub a b = (if b \<le> a then a - b else 0)"

definition read_ttl :: "key_state \<Rightarrow> u64 \<Rightarrow> ttl_answer" where
  "read_ttl st now =
     (case st of
        Missing \<Rightarrow> TtlMissing
      | RawString _ \<Rightarrow> NoExpiry
      | Enveloped _ e _ \<Rightarrow> if e = 0 then NoExpiry else Millis (saturating_sub e now))"

section \<open>RENAME\<close>

datatype rename_outcome = SrcMissing | DstBlocked | RenameMoved

text \<open>The callback that collects the records of one range.\<close>
definition collect_visit :: "bytes \<Rightarrow> kv list visitor" where
  "collect_visit upper k v records = (if upper \<le> k then (False, records) else (True, records @ [(k, v)]))"

fun collect_ranges :: "'db rocksdb \<Rightarrow> 'db \<Rightarrow> (bytes \<times> bytes) list \<Rightarrow> kv list \<Rightarrow> kv list result" where
  "collect_ranges R db [] records = Inr records"
| "collect_ranges R db ((lower, upper) # ranges) records =
     (case for_each_from R db lower False (collect_visit upper) records of
        (Inl e, _) \<Rightarrow> Inl e
      | (Inr _, records) \<Rightarrow> collect_ranges R db ranges records)"

text \<open>One record rewritten to the destination.\<close>
definition move_record :: "bytes \<Rightarrow> bytes \<Rightarrow> nat \<Rightarrow> kv \<Rightarrow> batch_op" where
  "move_record pfx dst plen kv =
     (case decode_data_key (fst kv) plen of
        Some (kind, _, sfx) \<Rightarrow> Put (elem_key pfx kind dst sfx) (snd kv)
      | None \<Rightarrow> Put (fst kv) (snd kv))"

definition ledger_visit :: "bytes \<Rightarrow> bytes \<Rightarrow> nat \<Rightarrow> bytes \<Rightarrow> write_batch visitor" where
  "ledger_visit pfx dst root_len upper k v batch =
     (if upper \<le> k then (False, batch)
      else
        (let sfx = (case get_from root_len k of Some s \<Rightarrow> s | None \<Rightarrow> [])
         in (True, batch @ [Put (elem_key pfx KIND_STREAM_OFFSET dst sfx) v])))"

fun ledger_moves ::
    "'db rocksdb \<Rightarrow> 'db \<Rightarrow> bytes \<Rightarrow> bytes \<Rightarrow> nat \<Rightarrow> (bytes \<times> bytes) list \<Rightarrow> write_batch \<Rightarrow> write_batch result"
where
  "ledger_moves R db pfx dst root_len [] batch = Inr batch"
| "ledger_moves R db pfx dst root_len ((lower, upper) # ranges) batch =
     (case for_each_from R db lower False (ledger_visit pfx dst root_len upper) batch of
        (Inl e, _) \<Rightarrow> Inl e
      | (Inr _, batch) \<Rightarrow> ledger_moves R db pfx dst root_len ranges batch)"

definition delay_move_visit :: "bytes \<Rightarrow> bytes \<Rightarrow> bytes \<Rightarrow> bytes \<Rightarrow> write_batch visitor" where
  "delay_move_visit pfx src dst upper k v batch =
     (if upper \<le> k then (False, batch)
      else (True,
        case decode_delay_row_key k (length pfx) of
          Some (due, stream, locked) \<Rightarrow>
            if stream = src then batch @ [Put (delay_row_key pfx due dst locked) v, Delete k] else batch
        | None \<Rightarrow> batch))"

text \<open>The second and third windows of a stream: the offset ledger and the staged delay rows.\<close>
definition move_stream_windows ::
    "'db rocksdb \<Rightarrow> 'db \<Rightarrow> bytes \<Rightarrow> bytes \<Rightarrow> bytes \<Rightarrow> write_batch \<Rightarrow> write_batch result" where
  "move_stream_windows R db pfx src dst batch =
     (let src_root = data_key pfx KIND_STREAM_OFFSET src;
          ledger_ranges = family_delete_ranges pfx OFFSET_FAMILY src in
      case ledger_moves R db pfx dst (length src_root) ledger_ranges batch of
        Inl e \<Rightarrow> Inl e
      | Inr batch \<Rightarrow>
          (let batch = batch @ map (\<lambda>(lower, upper). DeleteRange lower upper) ledger_ranges;
               (d_lower, d_upper) = delay_window pfx in
           case for_each_from R db d_lower False (delay_move_visit pfx src dst d_upper) batch of
             (Inl e, _) \<Rightarrow> Inl e
           | (Inr _, batch) \<Rightarrow> Inr batch))"

definition move_family ::
    "'db rocksdb \<Rightarrow> 'db \<Rightarrow> bytes \<Rightarrow> u8 \<Rightarrow> bytes \<Rightarrow> bytes \<Rightarrow> u64 \<Rightarrow> write_batch \<Rightarrow> write_batch result" where
  "move_family R db pfx kind src dst expire batch =
     (let fam = family_or STRING_FAMILY kind;
          ranges = family_delete_ranges pfx fam src in
      case collect_ranges R db ranges [] of
        Inl e \<Rightarrow> Inl e
      | Inr records \<Rightarrow>
          (let plen = (case slot_prefix_len (fst (ranges ! 0)) of Some n \<Rightarrow> n | None \<Rightarrow> length pfx);
               batch = batch @ map (move_record pfx dst plen) records @
                       map (\<lambda>(lower, upper). DeleteRange lower upper) ranges in
           case (if fam = STREAM_FAMILY then move_stream_windows R db pfx src dst batch else Inr batch) of
             Inl e \<Rightarrow> Inl e
           | Inr batch \<Rightarrow>
               (let src_root = data_key pfx (fst fam) src; dst_root = data_key pfx (fst fam) dst
                in Inr (batch @ set_ttl_entries pfx dst_root 0 expire @
                     (if expire > 0 then [Delete (expire_index_key pfx expire src_root)] else [])))))"

definition rename_key ::
    "'db rocksdb \<Rightarrow> bytes \<Rightarrow> bytes \<Rightarrow> bytes \<Rightarrow> bool \<Rightarrow> u64 \<Rightarrow> 'db shared \<Rightarrow> rename_outcome result \<times> 'db shared"
where
  "rename_key R pfx src dst nx now sh =
     (if src = dst then
        (let (st, sh) = resolve_arc R pfx src now sh
         in (Inr (if is_present st then RenameMoved else SrcMissing), sh))
      else
        (let (src_state, sh) = resolve_arc R pfx src now sh in
         if \<not> is_present src_state then (Inr SrcMissing, sh)
         else
           (let (dst_state, sh) = resolve_arc R pfx dst now sh in
            if nx \<and> is_present dst_state then (Inr DstBlocked, sh)
            else
              (let batch = delete_batch R (Some (sh_store sh)) pfx dst dst_state in
               case (case src_state of
                       RawString val \<Rightarrow>
                         Inr (batch @ [Put (string_key pfx dst) val, Delete (string_key pfx src)])
                     | Enveloped kind expire _ \<Rightarrow>
                         move_family R (sh_store sh) pfx kind src dst expire batch
                     | Missing \<Rightarrow> Inr batch) of
                 Inl e \<Rightarrow> (Inl e, sh)
               | Inr batch \<Rightarrow>
                   (case sh_batch_write R batch sh of
                      (Inl e, sh) \<Rightarrow> (Inl e, sh)
                    | (Inr _, sh) \<Rightarrow> (Inr RenameMoved, sh))))))"

section \<open>What a key is, on the content\<close>

text \<open>The abstract view of a key: the raw record if there is one, else the first typed record.\<close>
definition first_kind :: "content \<Rightarrow> bytes \<Rightarrow> bytes \<Rightarrow> u8 option" where
  "first_kind m pfx key = find (\<lambda>kind. m (data_key pfx kind key) \<noteq> None) META_KINDS"

definition lookup :: "content \<Rightarrow> bytes \<Rightarrow> bytes \<Rightarrow> u64 \<Rightarrow> key_state" where
  "lookup m pfx key now =
     (case m (string_key pfx key) of
        Some val \<Rightarrow> RawString val
      | None \<Rightarrow>
          (case first_kind m pfx key of
             None \<Rightarrow> Missing
           | Some kind \<Rightarrow>
               (case decode_envelope (the (m (data_key pfx kind key))) of
                  (expire, payload) \<Rightarrow>
                    if is_expired expire now then Missing else Enveloped kind expire payload)))"

lemma first_kind_SomeD:
  "first_kind m pfx key = Some kind \<Longrightarrow> is_user_key_kind kind \<and> m (data_key pfx kind key) \<noteq> None"
  by (auto simp: first_kind_def is_user_key_kind_def find_Some_iff)

lemma first_kind_cong:
  "(\<And>kind. is_user_key_kind kind \<Longrightarrow> (m' (data_key pfx kind key) = None) = (m (data_key pfx kind key) = None)) \<Longrightarrow>
   first_kind m' pfx key = first_kind m pfx key"
  unfolding first_kind_def by (rule find_cong) (auto simp: is_user_key_kind_def)

lemma lookup_EnvelopedD:
  assumes "lookup m pfx key now = Enveloped kind e p"
  shows "m (string_key pfx key) = None \<and> first_kind m pfx key = Some kind \<and> is_user_key_kind kind \<and>
    (\<exists>v. m (data_key pfx kind key) = Some v \<and> decode_envelope v = (e, p)) \<and> \<not> is_expired e now"
  using assms
  by (auto simp: lookup_def dest: first_kind_SomeD split: option.splits prod.splits if_splits)

lemma data_key_kind_eq: "data_key pfx kind key = data_key pfx kind' key \<longleftrightarrow> kind = kind'"
  by (auto simp: data_key_def)

lemma string_key_neq [simp]:
  "string_key pfx key \<noteq> data_key pfx kind key"
  "data_key pfx kind key \<noteq> string_key pfx key"
  "string_key pfx key \<noteq> expire_index_key pfx e (data_key pfx kind key)"
  "expire_index_key pfx e (data_key pfx kind key) \<noteq> string_key pfx key"
  by (auto simp: string_key_def data_key_def expire_index_key_def dest: arg_cong [where f = length])

context healthy_rocksdb
begin

lemma resolve_kinds_eq:
  "resolve_kinds kinds R db pfx key now purge s =
     (case find (\<lambda>kind. content db (data_key pfx kind key) \<noteq> None) kinds of
        None \<Rightarrow> (Missing, s)
      | Some kind \<Rightarrow>
          (case decode_envelope (the (content db (data_key pfx kind key))) of
             (expire, payload) \<Rightarrow>
               if is_expired expire now then
                 (Missing, case family_of kind of Some fam \<Rightarrow> snd (purge pfx fam key now s) | None \<Rightarrow> s)
               else (Enveloped kind expire payload, s)))"
  by (induction kinds) (auto simp: get_physical_def split: option.splits prod.splits)

lemma resolve_with_fst: "fst (resolve_with R db pfx key now purge s) = lookup (content db) pfx key now"
  by (simp add: resolve_with_def resolve_kinds_eq lookup_def first_kind_def get_physical_def
      split: option.splits prod.splits)

lemma resolve_with_present:
  "is_present (lookup (content db) pfx key now) \<Longrightarrow>
   resolve_with R db pfx key now purge s = (lookup (content db) pfx key now, s)"
  by (auto simp: resolve_with_def resolve_kinds_eq lookup_def first_kind_def get_physical_def
      is_present_def split: option.splits prod.splits if_splits)

lemma resolve_arc_fst: "fst (resolve_arc R pfx key now sh) = lookup (content (sh_store sh)) pfx key now"
  by (simp add: resolve_arc_def resolve_with_fst)

lemma resolve_arc_store: "sh_store (snd (resolve_arc R pfx key now sh)) = sh_store sh"
  by (simp add: resolve_arc_def resolve_with_def resolve_kinds_eq split: sum.splits option.splits prod.splits)

lemma resolve_arc_present:
  "is_present (lookup (content (sh_store sh)) pfx key now) \<Longrightarrow>
   resolve_arc R pfx key now sh = (lookup (content (sh_store sh)) pfx key now, sh)"
  by (simp add: resolve_arc_def resolve_with_present)

lemma resolve_arc_cases:
  obtains sh' where "resolve_arc R pfx key now sh = (lookup (content (sh_store sh)) pfx key now, sh')"
    "sh_store sh' = sh_store sh"
  using resolve_arc_fst [of pfx key now sh] resolve_arc_store [of pfx key now sh] prod.collapse by metis

lemma sh_batch_write_eq:
  "\<exists>db'. sh_batch_write R batch sh = (Inr (), sh\<lparr>sh_store := db'\<rparr>) \<and>
     content db' = apply_batch batch (content (sh_store sh))"
  by (rule exI [of _ "snd (db_write R (sh_store sh) batch)"]) (simp add: sh_batch_write_def batch_write_def)

end

section \<open>Records of other keys\<close>

text \<open>
  Records that belong to another user key of the slot: its typed records, and its raw record when
  the key does not start with a kind byte (the documented collision of raw and typed keys).
\<close>
definition foreign :: "bytes \<Rightarrow> bytes \<Rightarrow> bytes \<Rightarrow> bool" where
  "foreign pfx key k \<longleftrightarrow>
     (\<exists>kind other s. k = elem_key pfx kind other s \<and> family_of kind \<noteq> None \<and>
        kind \<noteq> KIND_STREAM_DELAY \<and> length other < 2 ^ 32 \<and> other \<noteq> key) \<or>
     (\<exists>other. k = string_key pfx other \<and> other \<noteq> key \<and> classify other = Raw)"

lemma raw_not_typed:
  assumes "classify other = Raw" "classify (kind # rest) = Typed kind"
  shows "other \<noteq> kind # rest"
  using assms by auto

lemma family_typed: "family_of kind \<noteq> None \<Longrightarrow> classify (kind # rest) = Typed kind"
  using family_of_cases by fastforce

lemma string_key_neq_elem:
  assumes "classify other = Raw" "family_of kind \<noteq> None"
  shows "string_key pfx other \<noteq> elem_key pfx kind key s"
  using raw_not_typed [OF assms(1) family_typed [OF assms(2)]]
  by (auto simp: string_key_def elem_key_def data_key_def)

lemma string_key_neq_index:
  assumes "classify other = Raw"
  shows "string_key pfx other \<noteq> expire_index_key pfx e dk"
proof -
  have "classify (KIND_EXPIRE_INDEX # rest) = Typed KIND_EXPIRE_INDEX" for rest
    by (simp add: classify_Cons)
  from raw_not_typed [OF assms this] show ?thesis
    by (auto simp: string_key_def expire_index_key_def)
qed

lemma string_key_not_delay:
  assumes "classify other = Raw"
  shows "\<not> delay_row_of pfx stream (string_key pfx other)"
proof -
  have "first_of other \<noteq> Some KIND_STREAM_DELAY"
    using assms by (auto simp: classify_def split: if_splits)
  then show ?thesis
    by (simp add: delay_row_of_def decode_delay_row_key_def string_key_def)
qed

lemma foreign_neq_root:
  assumes "foreign pfx key k" "length key < 2 ^ 32" "is_user_key_kind kind"
  shows "k \<noteq> data_key pfx kind key"
  using assms(1) unfolding foreign_def data_key_as_elem
proof (elim disjE exE conjE)
  fix kind' other s
  assume "k = elem_key pfx kind' other s" "length other < 2 ^ 32" "other \<noteq> key"
  then show "k \<noteq> elem_key pfx kind key []"
    using assms(2) elem_key_same_prefix_iff by blast
next
  fix other
  assume "k = string_key pfx other" "classify other = Raw"
  then show "k \<noteq> elem_key pfx kind key []"
    using string_key_neq_elem user_kind_family [OF assms(3)] by auto
qed

lemma foreign_neq_index:
  assumes "foreign pfx key k"
  shows "k \<noteq> expire_index_key pfx e dk"
  using assms unfolding foreign_def
  by (elim disjE exE conjE) (simp_all add: elem_key_neq_index string_key_neq_index)

lemma foreign_neq_raw:
  assumes "foreign pfx key k" "classify key = Raw"
  shows "k \<noteq> string_key pfx key"
  using assms(1) unfolding foreign_def
proof (elim disjE exE conjE)
  fix kind other s
  assume "k = elem_key pfx kind other s" "family_of kind \<noteq> None"
  then show ?thesis using string_key_neq_elem [OF assms(2)] by metis
qed (simp add: string_key_def)

lemma family_span_typed:
  assumes "family_of kind0 = Some fam" "fst fam \<le> kind" "kind \<le> snd fam"
  shows "family_of kind \<noteq> None"
  using family_members_same_family [OF assms] by simp

lemma foreign_not_family:
  assumes "foreign pfx key k" "length key < 2 ^ 32" "family_of kind0 = Some fam"
  shows "\<not> family_record pfx fam key k"
proof
  assume "family_record pfx fam key k"
  then obtain kind s where k: "k = elem_key pfx kind key s" and kind: "fst fam \<le> kind" "kind \<le> snd fam"
    unfolding family_record_def by blast
  show False
    using assms(1) unfolding foreign_def
  proof (elim disjE exE conjE)
    fix kind' other s'
    assume "k = elem_key pfx kind' other s'" "length other < 2 ^ 32" "other \<noteq> key"
    then show False using k assms(2) elem_key_same_prefix_iff by metis
  next
    fix other
    assume "k = string_key pfx other" "classify other = Raw"
    then show False using string_key_neq_elem family_span_typed [OF assms(3) kind] k by metis
  qed
qed

lemma foreign_not_purged:
  assumes "foreign pfx key k" "length key < 2 ^ 32" "family_of kind0 = Some fam"
  shows "\<not> purge_set pfx fam key e k"
proof -
  have "family_of KIND_STREAM_OFFSET = Some OFFSET_FAMILY" by (simp add: family_of_def kind_simps)
  then have "\<not> family_record pfx OFFSET_FAMILY key k" using foreign_not_family [OF assms(1,2)] by blast
  moreover have "\<not> delay_row_of pfx key k"
    using assms(1) elem_key_not_delay string_key_not_delay unfolding foreign_def by blast
  ultimately show ?thesis
    using foreign_not_family [OF assms] foreign_neq_index [OF assms(1)] unfolding purge_set_def by blast
qed

lemma family_or_user:
  "is_user_key_kind kind \<Longrightarrow>
   \<exists>fam. family_or d kind = fam \<and> family_of kind = Some fam \<and> fst fam = kind \<and> kind \<le> snd fam"
  using user_kind_family family_of_cases by (fastforce simp: family_or_def)

section \<open>TTL writes\<close>

text \<open>The record an enveloped form of the state is stored under.\<close>
definition typed_kind :: "key_state \<Rightarrow> u8" where
  "typed_kind st = (case st of Enveloped kind _ _ \<Rightarrow> kind | _ \<Rightarrow> KIND_STRING_TTL)"

definition state_payload :: "key_state \<Rightarrow> bytes" where
  "state_payload st = (case st of Enveloped _ _ p \<Rightarrow> p | RawString v \<Rightarrow> v | Missing \<Rightarrow> [])"

lemma STRING_TTL_user: "is_user_key_kind KIND_STRING_TTL"
  by (simp add: is_user_key_kind_def META_KINDS_def)

lemma lookup_present_user:
  "lookup m pfx key now = st \<Longrightarrow> is_present st \<Longrightarrow> is_user_key_kind (typed_kind st)"
  by (cases st) (auto simp: typed_kind_def is_present_def STRING_TTL_user dest: lookup_EnvelopedD)

text \<open>The content after the TTL batch, key by key.\<close>
lemma apply_ttl_batch_at:
  fixes m pfx key st new
  assumes "lookup m pfx key now = st" "is_present st" "0 < new"
  defines "root \<equiv> data_key pfx (typed_kind st) key"
  shows "apply_batch (ttl_batch pfx key st new) m k =
    (if k = expire_index_key pfx new root then Some []
     else if k = expire_index_key pfx (expire_ms st) root \<and> expire_ms st \<noteq> new \<and> 0 < expire_ms st then None
     else if k = string_key pfx key then None
     else if k = root then Some (encode_envelope new (state_payload st))
     else m k)"
proof (cases st)
  case Missing
  then show ?thesis using assms(2) by (simp add: is_present_def)
next
  case (RawString v)
  then show ?thesis
    using assms(3) by (auto simp: ttl_batch_def set_ttl_entries_def expire_ms_def typed_kind_def
        state_payload_def root_def Let_def)
next
  case (Enveloped kind e p)
  then have raw: "m (string_key pfx key) = None" and kind: "is_user_key_kind kind"
    using assms(1) lookup_EnvelopedD by auto
  show ?thesis
    using assms(3) raw data_key_neq_index [OF kind]
    by (auto simp: Enveloped ttl_batch_def set_ttl_entries_def expire_ms_def typed_kind_def
        state_payload_def root_def Let_def)
qed

lemma ttl_batch_lookup:
  assumes st: "lookup m pfx key now = st" "is_present st" and new: "0 < new" "new < 2 ^ 63"
  defines "m' \<equiv> apply_batch (ttl_batch pfx key st new) m"
  shows "lookup m' pfx key t =
    (if is_expired new t then Missing else Enveloped (typed_kind st) new (state_payload st))"
proof -
  note kind = lookup_present_user [OF st]
  have at: "m' k =
    (if k = expire_index_key pfx new (data_key pfx (typed_kind st) key) then Some []
     else if k = expire_index_key pfx (expire_ms st) (data_key pfx (typed_kind st) key) \<and>
        expire_ms st \<noteq> new \<and> 0 < expire_ms st then None
     else if k = string_key pfx key then None
     else if k = data_key pfx (typed_kind st) key then Some (encode_envelope new (state_payload st))
     else m k)" for k
    unfolding m'_def by (rule apply_ttl_batch_at [OF st new(1)])
  have raw: "m' (string_key pfx key) = None" by (simp add: at)
  have root: "m' (data_key pfx (typed_kind st) key) = Some (encode_envelope new (state_payload st))"
    by (simp add: at data_key_neq_index [OF kind])
  have other: "m' (data_key pfx k' key) = m (data_key pfx k' key)"
    if "is_user_key_kind k'" "k' \<noteq> typed_kind st" for k'
    by (simp add: at data_key_neq_index [OF that(1)] data_key_kind_eq that(2))
  have "first_kind m' pfx key = Some (typed_kind st)"
  proof (cases st)
    case (Enveloped kind e p)
    have "first_kind m pfx key = Some kind" using st(1) Enveloped lookup_EnvelopedD by blast
    moreover have "first_kind m' pfx key = first_kind m pfx key"
    proof (rule first_kind_cong)
      fix k' assume "is_user_key_kind k'"
      then show "(m' (data_key pfx k' key) = None) = (m (data_key pfx k' key) = None)"
        using other root first_kind_SomeD [OF \<open>first_kind m pfx key = Some kind\<close>]
        by (cases "k' = kind") (auto simp: Enveloped typed_kind_def)
    qed
    ultimately show ?thesis by (simp add: Enveloped typed_kind_def)
  next
    case (RawString v)
    then show ?thesis using root by (simp add: typed_kind_def first_kind_def META_KINDS_def)
  qed (use st(2) in \<open>simp add: is_present_def\<close>)
  then show ?thesis
    using new by (simp add: lookup_def raw root)
qed

lemma ttl_batch_frame:
  assumes "lookup m pfx key now = st" "is_present st" "0 < new"
    and "foreign pfx key k" "length key < 2 ^ 32" "classify key = Raw"
  shows "apply_batch (ttl_batch pfx key st new) m k = m k"
  using foreign_neq_index [OF assms(4)] foreign_neq_raw [OF assms(4,6)]
    foreign_neq_root [OF assms(4,5) lookup_present_user [OF assms(1,2)]]
  by (simp add: apply_ttl_batch_at [OF assms(1-3)])

context healthy_rocksdb
begin

lemma apply_ttl_future:
  assumes "lookup (content (sh_store sh)) pfx key now = st" "is_present st"
    and "flag_allows flag (expire_ms st) new" "now < new"
  shows "\<exists>db'. apply_ttl R pfx key new flag now sh = (Inr True, sh\<lparr>sh_store := db'\<rparr>) \<and>
    content db' = apply_batch (ttl_batch pfx key st new) (content (sh_store sh))"
proof -
  have res: "resolve_arc R pfx key now sh = (st, sh)"
    using resolve_arc_present assms(1,2) by blast
  obtain db' where "sh_batch_write R (ttl_batch pfx key st new) sh = (Inr (), sh\<lparr>sh_store := db'\<rparr>)"
    "content db' = apply_batch (ttl_batch pfx key st new) (content (sh_store sh))"
    using sh_batch_write_eq by blast
  then show ?thesis using assms(2-4) by (auto simp: apply_ttl_def res)
qed

lemma apply_ttl_refused:
  assumes "\<not> is_present (lookup (content (sh_store sh)) pfx key now) \<or>
    \<not> flag_allows flag (expire_ms (lookup (content (sh_store sh)) pfx key now)) new"
  shows "fst (apply_ttl R pfx key new flag now sh) = Inr False \<and>
    sh_store (snd (apply_ttl R pfx key new flag now sh)) = sh_store sh"
proof -
  obtain sh' where "resolve_arc R pfx key now sh = (lookup (content (sh_store sh)) pfx key now, sh')"
    "sh_store sh' = sh_store sh" using resolve_arc_cases by blast
  then show ?thesis using assms by (auto simp: apply_ttl_def)
qed

end

section \<open>PERSIST and deletes\<close>

definition persist_batch :: "bytes \<Rightarrow> bytes \<Rightarrow> u8 \<Rightarrow> u64 \<Rightarrow> bytes \<Rightarrow> write_batch" where
  "persist_batch pfx key kind e p =
     (if kind = KIND_STRING_TTL
      then [Put (string_key pfx key) p, Delete (data_key pfx kind key)]
      else [Put (data_key pfx kind key) (encode_envelope 0 p)]) @
     set_ttl_entries pfx (data_key pfx kind key) e 0"

lemma persist_batch_at:
  assumes "is_user_key_kind kind" "e \<noteq> 0"
  shows "apply_batch (persist_batch pfx key kind e p) m k =
    (if k = expire_index_key pfx e (data_key pfx kind key) then None
     else if kind = KIND_STRING_TTL \<and> k = string_key pfx key then Some p
     else if k = data_key pfx kind key
       then (if kind = KIND_STRING_TTL then None else Some (encode_envelope 0 p))
     else m k)"
  using assms data_key_neq_index [OF assms(1)]
  by (auto simp: persist_batch_def set_ttl_entries_def word_neq_0_conv)

lemma persist_batch_lookup:
  assumes st: "lookup m pfx key now = Enveloped kind e p" and e: "e \<noteq> 0"
  defines "m' \<equiv> apply_batch (persist_batch pfx key kind e p) m"
  shows "lookup m' pfx key t = (if kind = KIND_STRING_TTL then RawString p else Enveloped kind 0 p)"
proof -
  have D: "m (string_key pfx key) = None" "first_kind m pfx key = Some kind" "is_user_key_kind kind"
    "m (data_key pfx kind key) \<noteq> None"
    using lookup_EnvelopedD [OF st] by auto
  note at = persist_batch_at [OF D(3) e, of pfx key p m, folded m'_def]
  show ?thesis
  proof (cases "kind = KIND_STRING_TTL")
    case True
    then show ?thesis by (simp add: lookup_def at)
  next
    case False
    have "first_kind m' pfx key = first_kind m pfx key"
      using D(4) False by (intro first_kind_cong) (simp add: at data_key_neq_index data_key_kind_eq)
    moreover have "m' (string_key pfx key) = None" "m' (data_key pfx kind key) = Some (encode_envelope 0 p)"
      using False D(1) by (simp_all add: at data_key_neq_index [OF D(3)])
    ultimately show ?thesis using False D(2) by (simp add: lookup_def is_expired_def)
  qed
qed

text \<open>A key stored in at most one shape.\<close>
definition single_shape :: "content \<Rightarrow> bytes \<Rightarrow> bytes \<Rightarrow> bool" where
  "single_shape m pfx key \<longleftrightarrow>
     (m (string_key pfx key) \<noteq> None \<longrightarrow> first_kind m pfx key = None) \<and>
     (\<forall>kind kind'. is_user_key_kind kind \<longrightarrow> is_user_key_kind kind' \<longrightarrow>
        m (data_key pfx kind key) \<noteq> None \<longrightarrow> m (data_key pfx kind' key) \<noteq> None \<longrightarrow> kind = kind')"

lemma first_kind_None_iff:
  "first_kind m pfx key = None \<longleftrightarrow> (\<forall>kind. is_user_key_kind kind \<longrightarrow> m (data_key pfx kind key) = None)"
  by (auto simp: first_kind_def find_None_iff is_user_key_kind_def)

lemma delete_batch_lookup:
  assumes "single_shape m pfx key" "lookup m pfx key now = st" "is_present st"
    and m': "m' (string_key pfx key) = None \<or> (\<exists>kind e p. st = Enveloped kind e p) \<and>
        m' (string_key pfx key) = m (string_key pfx key)"
      "\<And>kind. is_user_key_kind kind \<Longrightarrow> m' (data_key pfx kind key) = m (data_key pfx kind key) \<or>
         m' (data_key pfx kind key) = None"
      "\<And>kind e p. st = Enveloped kind e p \<Longrightarrow> m' (data_key pfx kind key) = None"
  shows "lookup m' pfx key t = Missing"
proof -
  have raw: "m' (string_key pfx key) = None"
    using m'(1) assms(2) by (auto dest: lookup_EnvelopedD)
  have "m' (data_key pfx kind key) = None" if kind: "is_user_key_kind kind" for kind
  proof (cases st)
    case (RawString v)
    then have "m (string_key pfx key) \<noteq> None"
      using assms(2) by (auto simp: lookup_def split: option.splits prod.splits if_splits)
    then have "m (data_key pfx kind key) = None"
      using assms(1) kind by (simp add: single_shape_def first_kind_None_iff)
    then show ?thesis using m'(2) [OF kind] by auto
  next
    case (Enveloped kind0 e p)
    then have "m (data_key pfx kind0 key) \<noteq> None" "is_user_key_kind kind0"
      using lookup_EnvelopedD assms(2) by fastforce+
    then show ?thesis
      using assms(1) m'(2) [OF kind] m'(3) [OF Enveloped] kind unfolding single_shape_def by metis
  qed (use assms(3) in \<open>simp add: is_present_def\<close>)
  then have "first_kind m' pfx key = None" by (simp add: first_kind_None_iff)
  then show ?thesis by (simp add: lookup_def raw)
qed

lemma string_key_not_purged:
  assumes "classify key = Raw" "family_of kind0 = Some fam"
  shows "\<not> purge_set pfx fam key e (string_key pfx key)"
proof -
  have off: "family_of KIND_STREAM_OFFSET = Some OFFSET_FAMILY" by (simp add: family_of_def kind_simps)
  have "\<not> family_record pfx f key (string_key pfx key)" if "family_of k0 = Some f" for k0 f
    using string_key_neq_elem [OF assms(1)] family_span_typed [OF that] unfolding family_record_def by metis
  from this [OF assms(2)] this [OF off] show ?thesis
    using string_key_not_delay [OF assms(1)] string_key_neq_index [OF assms(1)]
    unfolding purge_set_def by metis
qed

context healthy_rocksdb
begin

lemma persist_key_eq:
  assumes "lookup (content (sh_store sh)) pfx key now = Enveloped kind e p" "e \<noteq> 0"
  shows "\<exists>db'. persist_key R pfx key now sh = (Inr True, sh\<lparr>sh_store := db'\<rparr>) \<and>
    content db' = apply_batch (persist_batch pfx key kind e p) (content (sh_store sh))"
proof -
  have res: "resolve_arc R pfx key now sh = (Enveloped kind e p, sh)"
    using resolve_arc_present [of sh pfx key now] assms(1) by (simp add: is_present_def)
  obtain db' where "sh_batch_write R (persist_batch pfx key kind e p) sh = (Inr (), sh\<lparr>sh_store := db'\<rparr>)"
    "content db' = apply_batch (persist_batch pfx key kind e p) (content (sh_store sh))"
    using sh_batch_write_eq by blast
  then show ?thesis using assms(2) by (auto simp: persist_key_def res persist_batch_def Let_def)
qed

lemma delete_records_eq:
  assumes bounded: "bounded_prefix pfx" and st: "lookup (content (sh_store sh)) pfx key now = st" "is_present st"
  shows "fst (delete_records R pfx key now sh) = Inr True \<and>
    content (sh_store (snd (delete_records R pfx key now sh))) =
      (\<lambda>k. if (case st of
                 RawString _ \<Rightarrow> k = string_key pfx key
               | Enveloped kind e _ \<Rightarrow> purge_set pfx (family_or STRING_FAMILY kind) key e k
               | Missing \<Rightarrow> False)
           then None else content (sh_store sh) k)"
proof -
  have res: "resolve_arc R pfx key now sh = (st, sh)"
    using resolve_arc_present st by blast
  show ?thesis
  proof (cases st)
    case (RawString v)
    then have "content (sh_store sh) (string_key pfx key) \<noteq> None"
      using st(1) by (auto simp: lookup_def split: option.splits prod.splits if_splits)
    then show ?thesis
      by (auto simp: delete_records_def res RawString store_del_def physical_key_def
          string_key_def Let_def fun_eq_iff)
  next
    case (Enveloped kind e p)
    let ?batch = "family_delete_entries R (Some (sh_store sh)) pfx (family_or STRING_FAMILY kind) key e"
    obtain db' where w: "sh_batch_write R ?batch sh = (Inr (), sh\<lparr>sh_store := db'\<rparr>)"
      "content db' = apply_batch ?batch (content (sh_store sh))"
      using sh_batch_write_eq by blast
    then show ?thesis
      by (simp add: delete_records_def res Enveloped Let_def stream_reaped_def
          apply_family_delete_entries_now [OF bounded])
  qed (use st in \<open>simp add: is_present_def\<close>)
qed

end

section \<open>Moving a family\<close>

lemma apply_puts_other:
  "k \<notin> f ` set xs \<Longrightarrow> apply_batch (map (\<lambda>x. Put (f x) (g x)) xs) m k = m k"
  by (induction xs arbitrary: m) auto

lemma apply_puts_hit:
  assumes "x \<in> set xs" "\<And>y. y \<in> set xs \<Longrightarrow> f y = f x \<Longrightarrow> g y = g x"
  shows "apply_batch (map (\<lambda>x. Put (f x) (g x)) xs) m (f x) = Some (g x)"
  using assms
proof (induction xs rule: rev_induct)
  case (snoc y ys)
  show ?case
  proof (cases "f y = f x")
    case True
    then show ?thesis using snoc.prems(2) [of y] by simp
  next
    case False
    then have x: "x \<in> set ys" using snoc.prems(1) by auto
    have "apply_batch (map (\<lambda>x. Put (f x) (g x)) ys) m (f x) = Some (g x)"
      by (rule snoc.IH [OF x]) (simp add: snoc.prems(2))
    then show ?thesis using False by simp
  qed
qed simp

context healthy_rocksdb
begin

lemma collect_range_eq:
  assumes "upper \<noteq> []"
  shows "for_each_from R db lower False (collect_visit upper) records =
    (Inr (), records @ entries (content db) (\<lambda>k. lower \<le> k \<and> k < upper))"
proof -
  have "visit (entries (content db) (\<lambda>k. lower \<le> k)) (collect_visit upper) records =
      fold (\<lambda>(k, v) acc. acc @ [(k, v)])
        (filter (\<lambda>(k, _). k < upper) (entries (content db) (\<lambda>k. lower \<le> k))) records"
    by (rule visit_window [where r = "(\<le>)"]) (auto simp: collect_visit_def)
  then show ?thesis
    by (simp add: for_each_from_visit fold_collect filter_entries)
qed

lemma collect_ranges_eq:
  "\<forall>r \<in> set ranges. snd r \<noteq> [] \<Longrightarrow>
   collect_ranges R db ranges records =
     Inr (records @ concat (map (\<lambda>r. entries (content db) (\<lambda>k. fst r \<le> k \<and> k < snd r)) ranges))"
  by (induction ranges arbitrary: records) (auto simp: collect_range_eq)

lemma family_records:
  assumes "bounded_prefix pfx"
  obtains records where "collect_ranges R db (family_delete_ranges pfx fam key) [] = Inr records"
    "set records = {(k, v). content db k = Some v \<and> family_record pfx fam key k}"
proof -
  let ?ranges = "family_delete_ranges pfx fam key"
  let ?records = "concat (map (\<lambda>r. entries (content db) (\<lambda>k. fst r \<le> k \<and> k < snd r)) ?ranges)"
  have ne: "\<forall>r \<in> set ?ranges. snd r \<noteq> []" using family_ranges_bounded [OF assms] by blast
  have "(k, v) \<in> set ?records \<longleftrightarrow> content db k = Some v \<and> family_record pfx fam key k" for k v
  proof -
    have "(k, v) \<in> set ?records \<longleftrightarrow> content db k = Some v \<and> (\<exists>r \<in> set ?ranges. in_range r k)"
      using ne by (auto simp: set_entries in_range_def)
    then show ?thesis unfolding family_delete_ranges_cover family_record_def by blast
  qed
  then have "set ?records = {(k, v). content db k = Some v \<and> family_record pfx fam key k}"
    by (intro set_eqI) (simp only: split_paired_all mem_Collect_eq case_prod_conv)
  moreover have "collect_ranges R db ?ranges [] = Inr ?records"
    using collect_ranges_eq [OF ne, of db "[]"] by simp
  ultimately show thesis using that by blast
qed

text \<open>What the batch of a moved family does, for a family without extra windows.\<close>
lemma move_family_eq:
  fixes slot :: u16 and src dst :: bytes and db batch e
  defines "pfx \<equiv> slot_prefix slot"
  assumes kind: "is_user_key_kind kind" "family_of kind = Some fam" "fam \<noteq> STREAM_FAMILY"
    and len: "length src < 2 ^ 32" "length dst < 2 ^ 32" "src \<noteq> dst"
  obtains records where
    "move_family R db pfx kind src dst e batch = Inr (batch @
       map (\<lambda>kv. Put (elem_key pfx (fst (the (decode_data_key (fst kv) (length pfx)))) dst
                    (snd (snd (the (decode_data_key (fst kv) (length pfx)))))) (snd kv)) records @
       map (\<lambda>(lower, upper). DeleteRange lower upper) (family_delete_ranges pfx fam src) @
       set_ttl_entries pfx (data_key pfx kind dst) 0 e @
       (if 0 < e then [Delete (expire_index_key pfx e (data_key pfx kind src))] else []))"
    "set records = {(k, v). content db k = Some v \<and> family_record pfx fam src k}"
proof -
  have bounded: "bounded_prefix pfx" by (simp add: pfx_def)
  have fst: "fst fam = kind" and or: "family_or STRING_FAMILY kind = fam"
    using user_kind_family [OF kind(1)] kind(2) by (auto simp: family_or_def)
  obtain records where rec: "collect_ranges R db (family_delete_ranges pfx fam src) [] = Inr records"
    "set records = {(k, v). content db k = Some v \<and> family_record pfx fam src k}"
    using family_records [OF bounded] by blast
  have "fst (family_delete_ranges pfx fam src ! 0) = data_key pfx kind src"
  proof -
    have "unat kind < Suc (unat (snd fam))"
      using family_of_cases [OF kind(2)] by (simp add: word_le_nat_alt less_Suc_eq_le)
    then have "family_kinds fam = kind # map word_of_nat [Suc (unat kind) ..< Suc (unat (snd fam))]"
      by (simp add: family_kinds_def fst upt_conv_Cons del: upt_Suc)
    then show ?thesis by (simp add: family_delete_ranges_def Let_def)
  qed
  then have plen: "slot_prefix_len (fst (family_delete_ranges pfx fam src ! 0)) = Some (length pfx)"
    by (simp add: pfx_def data_key_def slot_prefix_len_slot)
  have "decode_data_key k (length pfx) \<noteq> None" if mem: "(k, v) \<in> set records" for k v
  proof -
    obtain kind' s where k: "k = elem_key pfx kind' src s" "fst fam \<le> kind'" "kind' \<le> snd fam"
      using mem unfolding rec(2) family_record_def by blast
    have fam': "family_of kind' = Some fam" using family_members_same_family [OF kind(2) k(2,3)] by blast
    have "kind' \<noteq> KIND_STREAM_DELAY"
    proof
      assume "kind' = KIND_STREAM_DELAY"
      then have "fam = DELAY_FAMILY" using fam' by (simp add: family_of_def kind_simps)
      then show False using fst user_kind_family [OF kind(1)] by (simp add: DELAY_FAMILY_def)
    qed
    then show ?thesis using decode_data_key_elem [OF len(1)] fam' k(1) by simp
  qed
  then have "map (move_record pfx dst (length pfx)) records =
    map (\<lambda>kv. Put (elem_key pfx (fst (the (decode_data_key (fst kv) (length pfx)))) dst
                    (snd (snd (the (decode_data_key (fst kv) (length pfx)))))) (snd kv)) records"
    by (fastforce simp: move_record_def split: option.splits)
  then show thesis
    using kind(3) by (intro that [OF _ rec(2)]) (simp add: move_family_def or rec(1) plen fst Let_def)
qed

end

lemma family_record_other:
  assumes "length src < 2 ^ 32" "length dst < 2 ^ 32" "src \<noteq> dst"
  shows "\<not> family_record pfx fam src (elem_key pfx kind dst s)"
  using assms by (auto simp: family_record_def elem_key_same_prefix_iff)

lemma family_record_not_index:
  assumes "family_of kind0 = Some fam" "family_record pfx fam key k"
  shows "k \<noteq> expire_index_key pfx e dk"
  using assms elem_key_neq_index family_span_typed unfolding family_record_def by metis

lemma move_target_inj:
  assumes "family_record pfx fam src (fst x)" "family_record pfx fam src (fst y)"
    and "family_of kind = Some fam" "fam \<noteq> DELAY_FAMILY" "length src < 2 ^ 32" "length dst < 2 ^ 32"
  defines "f \<equiv> \<lambda>kv :: kv. elem_key pfx (fst (the (decode_data_key (fst kv) (length pfx)))) dst
                 (snd (snd (the (decode_data_key (fst kv) (length pfx)))))"
  shows "f x = f y \<longleftrightarrow> fst x = fst y"
    and "fst x = elem_key pfx k src s \<Longrightarrow> fst fam \<le> k \<Longrightarrow> k \<le> snd fam \<Longrightarrow> f x = elem_key pfx k dst s"
proof -
  have f: "f z = elem_key pfx k dst s"
    if "fst z = elem_key pfx k src s" "fst fam \<le> k" "k \<le> snd fam" for z k s
  proof -
    have fam: "family_of k = Some fam" using family_members_same_family [OF assms(3) that(2,3)] by blast
    moreover have "k \<noteq> KIND_STREAM_DELAY" using fam assms(4) by (auto simp: family_of_def kind_simps)
    ultimately show ?thesis
      using decode_data_key_elem [OF assms(5), of k pfx s] that(1) by (simp add: f_def)
  qed
  then show "fst x = elem_key pfx k src s \<Longrightarrow> fst fam \<le> k \<Longrightarrow> k \<le> snd fam \<Longrightarrow> f x = elem_key pfx k dst s"
    by blast
  obtain k s k' s' where "fst x = elem_key pfx k src s" "fst fam \<le> k" "k \<le> snd fam"
    "fst y = elem_key pfx k' src s'" "fst fam \<le> k'" "k' \<le> snd fam"
    using assms(1,2) unfolding family_record_def by blast
  then show "f x = f y \<longleftrightarrow> fst x = fst y"
    using f elem_key_same_prefix_iff [OF assms(6,6)] elem_key_same_prefix_iff [OF assms(5,5)] by metis
qed

text \<open>The content after the moves: records appear under the new name, the old ones are gone.\<close>
lemma moves_content:
  fixes pfx src dst :: bytes and records :: "kv list" and fam kind c e
  defines "f \<equiv> \<lambda>kv :: kv. elem_key pfx (fst (the (decode_data_key (fst kv) (length pfx)))) dst
                 (snd (snd (the (decode_data_key (fst kv) (length pfx)))))"
  defines "moves \<equiv> map (\<lambda>kv. Put (f kv) (snd kv)) records @
       map (\<lambda>(lower, upper). DeleteRange lower upper) (family_delete_ranges pfx fam src) @
       set_ttl_entries pfx (data_key pfx kind dst) 0 e @
       (if 0 < e then [Delete (expire_index_key pfx e (data_key pfx kind src))] else [])"
  assumes bounded: "bounded_prefix pfx" and kind: "family_of kind = Some fam" "fam \<noteq> DELAY_FAMILY"
    and len: "length src < 2 ^ 32" "length dst < 2 ^ 32" "src \<noteq> dst"
    and records: "set records = {(k, v). c k = Some v \<and> family_record pfx fam src k}"
  shows "fst fam \<le> kind' \<Longrightarrow> kind' \<le> snd fam \<Longrightarrow>
      apply_batch moves m (elem_key pfx kind' dst s) =
        (case c (elem_key pfx kind' src s) of Some v \<Rightarrow> Some v | None \<Rightarrow> m (elem_key pfx kind' dst s))"
    and "family_record pfx fam src k \<Longrightarrow> apply_batch moves m k = None"
    and "\<not> family_record pfx fam src k \<Longrightarrow> \<not> family_record pfx fam dst k \<Longrightarrow>
      k \<noteq> expire_index_key pfx e (data_key pfx kind src) \<Longrightarrow>
      k \<noteq> expire_index_key pfx e (data_key pfx kind dst) \<Longrightarrow> apply_batch moves m k = m k"
    and "0 < e \<Longrightarrow> apply_batch moves m (expire_index_key pfx e (data_key pfx kind dst)) = Some []"
    and "0 < e \<Longrightarrow> apply_batch moves m (expire_index_key pfx e (data_key pfx kind src)) = None"
proof -
  let ?puts = "map (\<lambda>kv. Put (f kv) (snd kv)) records"
  let ?idx = "\<lambda>key. expire_index_key pfx e (data_key pfx kind key)"
  have idx_ne: "?idx src \<noteq> ?idx dst" using index_key_eq_iff [OF len(1,2)] len(3) by blast
  have at: "apply_batch moves m k =
      (if 0 < e \<and> k = ?idx src then None else if 0 < e \<and> k = ?idx dst then Some []
       else if family_record pfx fam src k then None else apply_batch ?puts m k)" for k
    unfolding moves_def by (auto simp: apply_family_ranges [OF bounded] set_ttl_entries_def)
  have tgt: "\<exists>k s. fst kv = elem_key pfx k src s \<and> fst fam \<le> k \<and> k \<le> snd fam \<and> f kv = elem_key pfx k dst s"
    if "kv \<in> set records" for kv
  proof -
    have fr: "family_record pfx fam src (fst kv)" using that unfolding records by auto
    then obtain k s where ks: "fst kv = elem_key pfx k src s" "fst fam \<le> k" "k \<le> snd fam"
      unfolding family_record_def by blast
    then show ?thesis
      using move_target_inj(2) [OF fr fr kind len(1,2) ks] unfolding f_def by blast
  qed
  show "apply_batch moves m (elem_key pfx kind' dst s) =
        (case c (elem_key pfx kind' src s) of Some v \<Rightarrow> Some v | None \<Rightarrow> m (elem_key pfx kind' dst s))"
    if span: "fst fam \<le> kind'" "kind' \<le> snd fam"
  proof -
    let ?k = "elem_key pfx kind' dst s" and ?ksrc = "elem_key pfx kind' src s"
    have fr0: "family_record pfx fam src ?ksrc" using span unfolding family_record_def by blast
    have ne: "?k \<noteq> ?idx src" "?k \<noteq> ?idx dst"
      using elem_key_neq_index family_span_typed [OF kind(1) span] by blast+
    have "\<not> family_record pfx fam src ?k" by (rule family_record_other [OF len])
    then have moves: "apply_batch moves m ?k = apply_batch ?puts m ?k" by (simp add: at ne)
    show ?thesis
    proof (cases "c ?ksrc")
      case None
      have "?k \<notin> f ` set records"
      proof
        assume "?k \<in> f ` set records"
        then obtain kv where kv: "kv \<in> set records" "f kv = ?k" by auto
        obtain k s' where "fst kv = elem_key pfx k src s'" "f kv = elem_key pfx k dst s'"
          using tgt [OF kv(1)] by blast
        then have "fst kv = ?ksrc" using kv(2) elem_key_same_prefix_iff [OF len(2,2)] by metis
        then show False using kv(1) None unfolding records by auto
      qed
      then show ?thesis using moves None apply_puts_other [of ?k f records snd m] by simp
    next
      case (Some v)
      let ?x = "(?ksrc, v)"
      have x: "?x \<in> set records" using Some fr0 unfolding records by simp
      have fx: "f ?x = ?k"
        using move_target_inj(2) [of pfx fam src ?x ?x kind dst kind' s] fr0 kind len span
        unfolding f_def by simp
      have "snd y = snd ?x" if "y \<in> set records" "f y = f ?x" for y
      proof -
        have "family_record pfx fam src (fst y)" using that(1) unfolding records by auto
        then have "fst y = fst ?x"
          using move_target_inj(1) [of pfx fam src y ?x kind dst] fr0 kind len that(2)
          unfolding f_def by simp
        then show ?thesis using that(1) Some unfolding records by auto
      qed
      then have "apply_batch ?puts m (f ?x) = Some (snd ?x)"
        using apply_puts_hit [of ?x records f snd m] x by blast
      then show ?thesis using moves Some fx by simp
    qed
  qed
  show "apply_batch moves m k = None" if "family_record pfx fam src k"
    using that family_record_not_index [OF kind(1) that] by (simp add: at)
  show "apply_batch moves m k = m k"
    if "\<not> family_record pfx fam src k" "\<not> family_record pfx fam dst k" "k \<noteq> ?idx src" "k \<noteq> ?idx dst"
  proof -
    have "k \<notin> f ` set records"
      using tgt that(2) unfolding family_record_def by fastforce
    then show ?thesis using that apply_puts_other [of k f records snd m] by (simp add: at)
  qed
  show "0 < e \<Longrightarrow> apply_batch moves m (?idx dst) = Some []" using idx_ne by (simp add: at)
  show "0 < e \<Longrightarrow> apply_batch moves m (?idx src) = None" by (simp add: at)
qed

lemma user_not_delay_family:
  assumes "is_user_key_kind kind" "family_of kind = Some fam"
  shows "fam \<noteq> DELAY_FAMILY"
  using user_kind_family [OF assms(1)] assms(2) by (auto simp: DELAY_FAMILY_def)

text \<open>No leftover records of the family under a key that is not of that type.\<close>
definition no_orphans :: "content \<Rightarrow> bytes \<Rightarrow> codec_family \<Rightarrow> bytes \<Rightarrow> u64 \<Rightarrow> bool" where
  "no_orphans m pfx fam key now \<longleftrightarrow>
     (\<forall>k. family_record pfx fam key k \<longrightarrow> m k \<noteq> None \<longrightarrow>
        (\<exists>kind e p. lookup m pfx key now = Enveloped kind e p \<and> family_of kind = Some fam))"

context healthy_rocksdb
begin

lemma delete_batch_content:
  assumes "bounded_prefix pfx"
  shows "apply_batch (delete_batch R (Some db) pfx key st) (content db) =
    (\<lambda>k. if (case st of
               RawString _ \<Rightarrow> k = string_key pfx key
             | Enveloped kind e _ \<Rightarrow> purge_set pfx (family_or STRING_FAMILY kind) key e k
             | Missing \<Rightarrow> False)
         then None else content db k)"
  by (cases st) (auto simp: delete_batch_def apply_family_delete_entries_now [OF assms])

lemma rename_enveloped:
  fixes slot :: u16 and src dst :: bytes and sh now kind e p fam
  defines "pfx \<equiv> slot_prefix slot" and "m \<equiv> content (sh_store sh)"
  assumes src: "lookup m pfx src now = Enveloped kind e p"
    and fam: "family_of kind = Some fam" "fam \<noteq> STREAM_FAMILY"
    and len: "length src < 2 ^ 32" "length dst < 2 ^ 32" "src \<noteq> dst"
    and nx: "\<not> nx \<or> lookup m pfx dst now = Missing"
  shows "\<exists>sh' moves. rename_key R pfx src dst nx now sh = (Inr RenameMoved, sh') \<and>
    content (sh_store sh') =
      apply_batch moves (apply_batch (delete_batch R (Some (sh_store sh)) pfx dst (lookup m pfx dst now)) m) \<and>
    (\<exists>records. moves =
       map (\<lambda>kv. Put (elem_key pfx (fst (the (decode_data_key (fst kv) (length pfx)))) dst
                    (snd (snd (the (decode_data_key (fst kv) (length pfx)))))) (snd kv)) records @
       map (\<lambda>(lower, upper). DeleteRange lower upper) (family_delete_ranges pfx fam src) @
       set_ttl_entries pfx (data_key pfx kind dst) 0 e @
       (if 0 < e then [Delete (expire_index_key pfx e (data_key pfx kind src))] else []) \<and>
     set records = {(k, v). m k = Some v \<and> family_record pfx fam src k})"
proof -
  have kind: "is_user_key_kind kind" using lookup_EnvelopedD [OF src] by blast
  have res: "resolve_arc R pfx src now sh = (Enveloped kind e p, sh)"
    using resolve_arc_present [of sh pfx src now] src by (simp add: is_present_def m_def)
  obtain sh1 where dst: "resolve_arc R pfx dst now sh = (lookup m pfx dst now, sh1)"
    "sh_store sh1 = sh_store sh"
    using resolve_arc_cases [of pfx dst now sh] unfolding m_def by blast
  let ?batch = "delete_batch R (Some (sh_store sh)) pfx dst (lookup m pfx dst now)"
  obtain records where mv: "move_family R (sh_store sh) pfx kind src dst e ?batch = Inr (?batch @
       map (\<lambda>kv. Put (elem_key pfx (fst (the (decode_data_key (fst kv) (length pfx)))) dst
                    (snd (snd (the (decode_data_key (fst kv) (length pfx)))))) (snd kv)) records @
       map (\<lambda>(lower, upper). DeleteRange lower upper) (family_delete_ranges pfx fam src) @
       set_ttl_entries pfx (data_key pfx kind dst) 0 e @
       (if 0 < e then [Delete (expire_index_key pfx e (data_key pfx kind src))] else []))"
    and records: "set records = {(k, v). m k = Some v \<and> family_record pfx fam src k}"
    using move_family_eq [OF kind fam len] unfolding pfx_def m_def by blast
  let ?moves = "map (\<lambda>kv. Put (elem_key pfx (fst (the (decode_data_key (fst kv) (length pfx)))) dst
                    (snd (snd (the (decode_data_key (fst kv) (length pfx)))))) (snd kv)) records @
       map (\<lambda>(lower, upper). DeleteRange lower upper) (family_delete_ranges pfx fam src) @
       set_ttl_entries pfx (data_key pfx kind dst) 0 e @
       (if 0 < e then [Delete (expire_index_key pfx e (data_key pfx kind src))] else [])"
  obtain db' where w: "sh_batch_write R (?batch @ ?moves) sh1 = (Inr (), sh1\<lparr>sh_store := db'\<rparr>)"
    and db': "content db' = apply_batch (?batch @ ?moves) (content (sh_store sh1))"
    using sh_batch_write_eq by blast
  have "rename_key R pfx src dst nx now sh = (Inr RenameMoved, sh1\<lparr>sh_store := db'\<rparr>)"
    unfolding rename_key_def Let_def res dst(1) prod.case dst(2) key_state.case mv sum.case w
    using len(3) nx by (simp add: is_present_def)
  moreover have "content db' = apply_batch ?moves (apply_batch ?batch m)"
    unfolding db' dst(2) m_def by simp
  ultimately show ?thesis using records by (intro exI [of _ "sh1\<lparr>sh_store := db'\<rparr>"] exI [of _ ?moves]) auto
qed

end

section \<open>Properties of the key space\<close>


text \<open>A shared state with one raw string, and one with a hash.\<close>
definition raw_shared :: "mem_db shared" where
  "raw_shared = \<lparr>sh_store = [(string_key [49, 47] [107], [118])], sh_detached = [], sh_reaps = [], sh_wait = wait_hub_new\<rparr>"

definition hash_shared :: "mem_db shared" where
  "hash_shared = \<lparr>sh_store =
     [(data_key (slot_prefix 1) KIND_HASH_META [104], encode_envelope 0 [1]),
      (elem_key (slot_prefix 1) KIND_HASH_FLD [104] [102], [118])],
     sh_detached = [], sh_reaps = [], sh_wait = wait_hub_new\<rparr>"

lemma raw_shared_lookup: "lookup (map_of (sh_store raw_shared)) [49, 47] [107] now = RawString [118]"
  by (simp add: lookup_def raw_shared_def)

lemma foreign_other: "foreign pfx [107] (string_key pfx [108])"
  by (auto simp: foreign_def classify_Cons kind_simps)


text \<open>\<open>PERSIST\<close> undoes a deadline: it keeps the value, clears the expiry (an enveloped string
  becomes a raw record again) and changes no record of another key.\<close>
theorem persist_effect:
  assumes "healthy_rocksdb R content"
    and "lookup (content (sh_store sh)) pfx key now = Enveloped kind e p" "e \<noteq> 0"
    and "length key < 2 ^ 32" "classify key = Raw" "foreign pfx key k"
  shows "\<exists>sh'. persist_key R pfx key now sh = (Inr True, sh') \<and>
    lookup (content (sh_store sh')) pfx key t =
      (if kind = KIND_STRING_TTL then RawString p else Enveloped kind 0 p) \<and>
    content (sh_store sh') k = content (sh_store sh) k"
proof -
  have kind: "is_user_key_kind kind" using lookup_EnvelopedD [OF assms(2)] by blast
  obtain db' where db': "persist_key R pfx key now sh = (Inr True, sh\<lparr>sh_store := db'\<rparr>)"
    "content db' = apply_batch (persist_batch pfx key kind e p) (content (sh_store sh))"
    using healthy_rocksdb.persist_key_eq [OF assms(1-3)] by blast
  then show ?thesis
    using persist_batch_lookup [OF assms(2,3), of t] foreign_neq_index [OF assms(6)]
      foreign_neq_raw [OF assms(6,5)] foreign_neq_root [OF assms(6,4) kind]
    by (intro exI [of _ "sh\<lparr>sh_store := db'\<rparr>"]) (simp add: persist_batch_at [OF kind assms(3)])
qed

theorem persist_effect_witness:
  "\<exists>sh'. persist_key mem_rocksdb [49, 47] [107] 5
      \<lparr>sh_store = [(data_key [49, 47] KIND_STRING_TTL [107], encode_envelope 9 [118])],
       sh_detached = [], sh_reaps = [], sh_wait = wait_hub_new\<rparr> = (Inr True, sh') \<and>
    lookup (map_of (sh_store sh')) [49, 47] [107] 100 = RawString [118]"
proof -
  let ?sh = "\<lparr>sh_store = [(data_key [49, 47] KIND_STRING_TTL [107], encode_envelope 9 [118])],
       sh_detached = [], sh_reaps = [], sh_wait = wait_hub_new\<rparr>"
  have st: "lookup (map_of (sh_store ?sh)) [49, 47] [107] 5 = Enveloped KIND_STRING_TTL 9 [118]"
    by (simp add: lookup_def first_kind_def META_KINDS_def is_expired_def)
  have "classify [107] = Raw" by (simp add: classify_Cons kind_simps)
  with persist_effect [OF mem_healthy st, of "string_key [49, 47] [108]" 100]
  show ?thesis using foreign_other by auto
qed


lemma hash_shared_shape: "single_shape (map_of (sh_store hash_shared)) (slot_prefix 1) [104]"
  by (auto simp: single_shape_def hash_shared_def data_key_kind_eq elem_key_def data_key_def
      string_key_def split: if_splits)




text \<open>The \<open>LT\<close> flag refuses a key without a deadline.\<close>
lemma flag_lt_without_ttl: "\<not> flag_allows Lt 0 new"
  by (simp add: flag_allows_def)

end
