(* ===== verification/Rdb_Sets.thy ===== *)
theory Rdb_Sets
  imports Rdb_Keys Rdb_Glob
begin

text \<open>
  Hashes and sets, \<^verbatim>\<open>src/ds/hash_ds.rs\<close>, \<^verbatim>\<open>src/ds/set_ds.rs\<close> and the set algebra of
  \<^verbatim>\<open>src/ds/setops.rs\<close>.  Both structures keep a meta record with a count and one record per
  element; the locale \<open>counted_family\<close> is what they share, and is interpreted for the kinds of
  both.  A \<open>HashSet\<close> is a finite set; its unspecified order is removed by the final sort.
\<close>

section \<open>Hash records (hash_ds.rs)\<close>

definition hash_meta_key :: "bytes \<Rightarrow> bytes \<Rightarrow> bytes" where
  "hash_meta_key pfx key = data_key pfx KIND_HASH_META key"

definition field_key :: "bytes \<Rightarrow> bytes \<Rightarrow> bytes \<Rightarrow> bytes" where
  "field_key pfx key field = elem_key pfx KIND_HASH_FLD key field"

definition fields_range :: "bytes \<Rightarrow> bytes \<Rightarrow> bytes \<times> bytes" where
  "fields_range pfx key =
     (let lower = data_key pfx KIND_HASH_FLD key
      in (lower, case key_upper_bound lower of Some u \<Rightarrow> u | None \<Rightarrow> []))"

datatype meta_read = MetaMissing | MetaPresent u64 u64 | MetaPurged | MetaFailed string

definition hash_read_meta ::
    "'db rocksdb \<Rightarrow> 'db \<Rightarrow> bytes \<Rightarrow> bytes \<Rightarrow> u64 \<Rightarrow> meta_read \<times> 'db" where
  "hash_read_meta R db pfx key now =
     (case get_physical R db (hash_meta_key pfx key) of
        Inl e \<Rightarrow> (MetaFailed e, db)
      | Inr None \<Rightarrow> (MetaMissing, db)
      | Inr (Some val) \<Rightarrow>
          (let (expire, payload) = decode_envelope val in
           if is_expired expire now then
             (case purge_if_expired R db pfx HASH_FAMILY key now of
                (True, db') \<Rightarrow> (MetaPurged, db')
              | (False, db') \<Rightarrow> (MetaFailed ''purge failed'', db'))
           else (MetaPresent expire (decode_count payload), db)))"

definition hash_write_meta :: "bytes \<Rightarrow> bytes \<Rightarrow> u64 \<Rightarrow> u64 \<Rightarrow> write_batch" where
  "hash_write_meta pfx key expire count =
     [Put (hash_meta_key pfx key) (encode_envelope expire (encode_count count))]"

definition hash_delete_family :: "'db rocksdb \<Rightarrow> bytes \<Rightarrow> bytes \<Rightarrow> u64 \<Rightarrow> write_batch" where
  "hash_delete_family R pfx key expire = family_delete_entries R None pfx HASH_FAMILY key expire"

definition read_field :: "'db rocksdb \<Rightarrow> 'db \<Rightarrow> bytes \<Rightarrow> bytes \<Rightarrow> bytes \<Rightarrow> bytes option result" where
  "read_field R db pfx key field = get_physical R db (field_key pfx key field)"

record field_page =
  fp_fields :: "(bytes \<times> bytes) list"
  fp_next :: "bytes option"

definition pattern_ok :: "bytes option \<Rightarrow> bytes \<Rightarrow> bool" where
  "pattern_ok pat s = (case pat of None \<Rightarrow> True | Some p \<Rightarrow> glob_match p s)"

definition fields_visit ::
    "bytes \<Rightarrow> nat \<Rightarrow> bytes option \<Rightarrow> nat \<Rightarrow> ((bytes \<times> bytes) list \<times> bytes option) visitor" where
  "fields_visit upper base pat count k v s =
     (let (flds, resume) = s in
      if upper \<le> k then (False, s)
      else (case get_from base k of
          Some field \<Rightarrow>
            if pattern_ok pat field then
              (let flds = flds @ [(field, v)] in
               if count \<noteq> 0 \<and> length flds \<ge> count then (False, (flds, Some field))
               else (True, (flds, resume)))
            else (True, s)
        | None \<Rightarrow> (True, s)))"

definition collect_fields ::
    "'db rocksdb \<Rightarrow> 'db \<Rightarrow> bytes \<Rightarrow> bytes \<Rightarrow> bytes option \<Rightarrow> bytes option \<Rightarrow> nat \<Rightarrow> field_page result" where
  "collect_fields R db pfx key from_field pat count =
     (let (lower, upper) = fields_range pfx key;
          (start, excl_start) = (case from_field of
             Some f \<Rightarrow> (elem_key pfx KIND_HASH_FLD key f, True)
           | None \<Rightarrow> (lower, False));
          base = length lower in
      case for_each_from R db start excl_start (fields_visit upper base pat count) ([], None) of
        (Inl e, _) \<Rightarrow> Inl e
      | (Inr _, (flds, resume)) \<Rightarrow> Inr \<lparr>fp_fields = flds, fp_next = resume\<rparr>)"

section \<open>Set records (set_ds.rs)\<close>

definition set_meta_key :: "bytes \<Rightarrow> bytes \<Rightarrow> bytes" where
  "set_meta_key pfx key = data_key pfx KIND_SET_META key"

definition member_key :: "bytes \<Rightarrow> bytes \<Rightarrow> bytes \<Rightarrow> bytes" where
  "member_key pfx key member = elem_key pfx KIND_SET_MEMBER key member"

definition members_range :: "bytes \<Rightarrow> bytes \<Rightarrow> bytes \<times> bytes" where
  "members_range pfx key =
     (let lower = data_key pfx KIND_SET_MEMBER key
      in (lower, case key_upper_bound lower of Some u \<Rightarrow> u | None \<Rightarrow> []))"

definition set_read_meta ::
    "'db rocksdb \<Rightarrow> 'db \<Rightarrow> bytes \<Rightarrow> bytes \<Rightarrow> u64 \<Rightarrow> meta_read \<times> 'db" where
  "set_read_meta R db pfx key now =
     (case get_physical R db (set_meta_key pfx key) of
        Inl e \<Rightarrow> (MetaFailed e, db)
      | Inr None \<Rightarrow> (MetaMissing, db)
      | Inr (Some val) \<Rightarrow>
          (let (expire, payload) = decode_envelope val in
           if is_expired expire now then
             (case purge_if_expired R db pfx SET_FAMILY key now of
                (True, db') \<Rightarrow> (MetaPurged, db')
              | (False, db') \<Rightarrow> (MetaFailed ''purge failed'', db'))
           else (MetaPresent expire (decode_count payload), db)))"

definition set_write_meta :: "bytes \<Rightarrow> bytes \<Rightarrow> u64 \<Rightarrow> u64 \<Rightarrow> write_batch" where
  "set_write_meta pfx key expire count =
     [Put (set_meta_key pfx key) (encode_envelope expire (encode_count count))]"

definition set_delete_family :: "'db rocksdb \<Rightarrow> bytes \<Rightarrow> bytes \<Rightarrow> u64 \<Rightarrow> write_batch" where
  "set_delete_family R pfx key expire = family_delete_entries R None pfx SET_FAMILY key expire"

definition has_member :: "'db rocksdb \<Rightarrow> 'db \<Rightarrow> bytes \<Rightarrow> bytes \<Rightarrow> bytes \<Rightarrow> bool result" where
  "has_member R db pfx key member =
     (case get_physical R db (member_key pfx key member) of
        Inl e \<Rightarrow> Inl e
      | Inr v \<Rightarrow> Inr (v \<noteq> None))"

record member_page =
  mp_members :: "bytes list"
  mp_next :: "bytes option"

definition members_visit ::
    "bytes \<Rightarrow> nat \<Rightarrow> bytes option \<Rightarrow> nat \<Rightarrow> (bytes list \<times> bytes option) visitor" where
  "members_visit upper base pat count k v s =
     (let (members, resume) = s in
      if upper \<le> k then (False, s)
      else (case get_from base k of
          Some member \<Rightarrow>
            if pattern_ok pat member then
              (let members = members @ [member] in
               if count \<noteq> 0 \<and> length members \<ge> count then (False, (members, Some member))
               else (True, (members, resume)))
            else (True, s)
        | None \<Rightarrow> (True, s)))"

definition collect_members ::
    "'db rocksdb \<Rightarrow> 'db \<Rightarrow> bytes \<Rightarrow> bytes \<Rightarrow> bytes option \<Rightarrow> bytes option \<Rightarrow> nat \<Rightarrow> member_page result" where
  "collect_members R db pfx key from_member pat count =
     (let (lower, upper) = members_range pfx key;
          (start, excl_start) = (case from_member of
             Some f \<Rightarrow> (elem_key pfx KIND_SET_MEMBER key f, True)
           | None \<Rightarrow> (lower, False));
          base = length lower in
      case for_each_from R db start excl_start (members_visit upper base pat count) ([], None) of
        (Inl e, _) \<Rightarrow> Inl e
      | (Inr _, (members, resume)) \<Rightarrow> Inr \<lparr>mp_members = members, mp_next = resume\<rparr>)"

section \<open>Set algebra (setops.rs)\<close>

datatype members_read = MembersMissing | MembersWrongType | Members "bytes set" | MembersFailed string

definition read_members ::
    "'db rocksdb \<Rightarrow> 'db \<Rightarrow> bytes \<Rightarrow> bytes \<Rightarrow> u64 \<Rightarrow> members_read \<times> 'db" where
  "read_members R db pfx key now =
     (case resolve R db pfx key now of
        (Missing, db) \<Rightarrow> (MembersMissing, db)
      | (RawString _, db) \<Rightarrow> (MembersWrongType, db)
      | (Enveloped kind _ _, db) \<Rightarrow>
          if kind \<noteq> KIND_SET_META then (MembersWrongType, db)
          else (case collect_members R db pfx key None None 0 of
              Inr page \<Rightarrow> (Members (set (mp_members page)), db)
            | Inl e \<Rightarrow> (MembersFailed e, db)))"

definition union_all :: "bytes set list \<Rightarrow> bytes list" where
  "union_all sets = sorted_list_of_set (fold (\<lambda>s acc. acc \<union> s) sets {})"

text \<open>\<open>iter().min_by_key(|s| s.len())\<close>: the first of the smallest.\<close>
fun min_by_card :: "'a set list \<Rightarrow> 'a set option" where
  "min_by_card [] = None"
| "min_by_card (s # sets) =
     (case min_by_card sets of
        None \<Rightarrow> Some s
      | Some t \<Rightarrow> if card t < card s then Some t else Some s)"

definition intersect_all :: "bytes set list \<Rightarrow> bytes list" where
  "intersect_all sets =
     (case min_by_card sets of
        None \<Rightarrow> []
      | Some seed \<Rightarrow> sorted_list_of_set (Set.filter (\<lambda>m. list_all (\<lambda>s. m \<in> s) sets) seed))"

definition diff_all :: "bytes set list \<Rightarrow> bytes list" where
  "diff_all sets =
     (case sets of
        [] \<Rightarrow> []
      | first # rest \<Rightarrow> sorted_list_of_set (Set.filter (\<lambda>m. \<not> list_ex (\<lambda>s. m \<in> s) rest) first))"

definition store_clear ::
    "'db rocksdb \<Rightarrow> 'db \<Rightarrow> bytes \<Rightarrow> bytes \<Rightarrow> u64 \<Rightarrow> write_batch \<times> 'db" where
  "store_clear R db pfx key now =
     (case resolve R db pfx key now of
        (Missing, db) \<Rightarrow> ([], db)
      | (RawString _, db) \<Rightarrow> ([Delete (string_key pfx key)], db)
      | (Enveloped kind expire _, db) \<Rightarrow>
          (family_delete_entries R (Some db) pfx (family_or SET_FAMILY kind) key expire, db))"

text \<open>The batch \<open>store_set\<close> builds, its reply, and the store after the resolution's lazy purge.\<close>
definition setop_store ::
    "'db rocksdb \<Rightarrow> 'db \<Rightarrow> bytes \<Rightarrow> bytes \<Rightarrow> bytes list \<Rightarrow> u64 \<Rightarrow> nat \<times> write_batch \<times> 'db" where
  "setop_store R db pfx key members now =
     (let (batch, db) = store_clear R db pfx key now in
      (length members,
       batch @ set_write_meta pfx key 0 (word_of_nat (length members)) @
         map (\<lambda>m. Put (member_key pfx key m) []) members,
       db))"

section \<open>Elements of a key\<close>

text \<open>The elements of a key under one kind, in key order, with the prefix cut off.\<close>
definition elements :: "content \<Rightarrow> bytes \<Rightarrow> u8 \<Rightarrow> bytes \<Rightarrow> (bytes \<times> bytes) list" where
  "elements m pfx kind key =
     map (\<lambda>(k, v). (drop (length (data_key pfx kind key)) k, v))
       (entries m (Sublist.prefix (data_key pfx kind key)))"

lemma set_elements:
  assumes "finite (dom m)"
  shows "set (elements m pfx kind key) = {(s, v). m (elem_key pfx kind key s) = Some v}"
  using assms by (force simp: elements_def set_entries prefix_elem_key elem_key_def image_iff)

lemma strict_sorted_entries: "sorted_wrt (<) (map fst (entries m P))"
  using sorted_entries distinct_entries strict_sorted_iff by blast

lemma sorted_wrt_drop_prefix:
  "sorted_wrt (<) (map fst kvs) \<Longrightarrow> \<forall>(k, v) \<in> set kvs. Sublist.prefix p k \<Longrightarrow>
   sorted_wrt (<) (map fst (map (\<lambda>(k, v). (drop (length p) k, v)) (kvs :: (bytes \<times> 'v) list)))"
proof (induction kvs)
  case (Cons kv kvs)
  obtain k v where kv: "kv = (k, v)" by (cases kv)
  have "drop (length p) k < drop (length p) k'" if "(k', v') \<in> set kvs" for k' v'
  proof -
    have "Sublist.prefix p k" "Sublist.prefix p k'" "k < k'"
      using Cons.prems that by (auto simp: kv)
    then show ?thesis by (auto simp: prefix_def)
  qed
  then show ?case using Cons by (auto simp: kv)
qed simp

lemma sorted_elements:
  assumes "finite (dom m)"
  shows "sorted_wrt (<) (map fst (elements m pfx kind key))"
  unfolding elements_def
  using assms by (intro sorted_wrt_drop_prefix strict_sorted_entries) (auto simp: set_entries)

lemma finite_dom_if [simp]: "finite (dom m) \<Longrightarrow> finite (dom (\<lambda>k. if P k then None else m k))"
  by (rule rev_finite_subset [of "dom m"]) (auto split: if_splits)

subsection \<open>Pages\<close>

text \<open>The elements after the cursor that match.\<close>
definition after :: "bytes option \<Rightarrow> bytes option \<Rightarrow> (bytes \<times> bytes) list \<Rightarrow> (bytes \<times> bytes) list" where
  "after cursor pat es =
     filter (\<lambda>(s, _). pattern_ok pat s \<and> (case cursor of None \<Rightarrow> True | Some c \<Rightarrow> c < s)) es"

text \<open>The page of at most \<open>count\<close> candidates (0 for all) and its resume cursor.\<close>
definition page_of :: "nat \<Rightarrow> (bytes \<times> bytes) list \<Rightarrow> (bytes \<times> bytes) list \<times> bytes option" where
  "page_of count cand =
     (if count = 0 \<or> length cand < count then (cand, None)
      else (take count cand, Some (fst (cand ! (count - 1)))))"

text \<open>The callback both structures use, on what it keeps of an element.\<close>
definition page_visit ::
    "bytes \<Rightarrow> nat \<Rightarrow> bytes option \<Rightarrow> nat \<Rightarrow> (bytes \<times> bytes \<Rightarrow> 'x) \<Rightarrow> ('x list \<times> bytes option) visitor" where
  "page_visit upper base pat count h k v s =
     (if upper \<le> k then (False, s)
      else (case get_from base k of
          Some x \<Rightarrow>
            if pattern_ok pat x then
              (let xs = fst s @ [h (x, v)] in
               if count \<noteq> 0 \<and> length xs \<ge> count then (False, (xs, Some x))
               else (True, (xs, snd s)))
            else (True, s)
        | None \<Rightarrow> (True, s)))"

lemma fields_visit_page: "fields_visit upper base pat count = page_visit upper base pat count id"
  by (auto simp: fun_eq_iff fields_visit_def page_visit_def Let_def split: option.splits)

lemma members_visit_page: "members_visit upper base pat count = page_visit upper base pat count fst"
  by (auto simp: fun_eq_iff members_visit_def page_visit_def Let_def split: option.splits)

lemma page_visit_eq:
  fixes kvs :: "kv list" and upper :: bytes and base count :: nat and pat
  assumes "sorted (map fst kvs)" "\<forall>(k, v) \<in> set kvs. k < upper \<longrightarrow> base \<le> length k"
    and "count = 0 \<or> length acc < count"
  defines "cand \<equiv> filter (\<lambda>(s, _). pattern_ok pat s)
      (map (\<lambda>(k, v). (drop base k, v)) (filter (\<lambda>(k, _). k < upper) kvs))"
  shows "visit kvs (page_visit upper base pat count h) (acc, None) =
    (if count = 0 \<or> length acc + length cand < count then (acc @ map h cand, None)
     else (acc @ map h (take (count - length acc) cand), Some (fst (cand ! (count - length acc - 1)))))"
  using assms(1-3) unfolding cand_def
proof (induction kvs arbitrary: acc)
  case (Cons kv kvs)
  obtain k v where kv: "kv = (k, v)" by (cases kv)
  show ?case
  proof (cases "k < upper")
    case False
    then have "filter (\<lambda>(k, _). k < upper) (kv # kvs) = []"
      using Cons.prems(1) by (fastforce simp: kv filter_empty_conv)
    then show ?thesis using False Cons.prems(3) by (auto simp: kv page_visit_def)
  next
    case True
    then have get: "get_from base k = Some (drop base k)" and nle: "\<not> upper \<le> k"
      using Cons.prems(2) by (simp_all add: kv get_from_def)
    have prems: "sorted (map fst kvs)" "\<forall>(k, v) \<in> set kvs. k < upper \<longrightarrow> base \<le> length k"
      using Cons.prems by (auto simp: kv)
    show ?thesis
    proof (cases "pattern_ok pat (drop base k)")
      case False
      have step: "visit (kv # kvs) (page_visit upper base pat count h) (acc, None) =
          visit kvs (page_visit upper base pat count h) (acc, None)"
        using nle get False by (simp add: kv page_visit_def)
      show ?thesis
        unfolding step Cons.IH [OF prems Cons.prems(3)] using True False by (simp add: kv)
    next
      case ok: True
      show ?thesis
      proof (cases "count \<noteq> 0 \<and> Suc (length acc) \<ge> count")
        case stop: True
        then have "count - length acc = Suc 0" using Cons.prems(3) by auto
        then show ?thesis
          using True nle get ok stop by (simp add: kv page_visit_def Let_def)
      next
        case False
        then have c: "count = 0 \<or> length (acc @ [h (drop base k, v)]) < count" by auto
        have step: "visit (kv # kvs) (page_visit upper base pat count h) (acc, None) =
            visit kvs (page_visit upper base pat count h) (acc @ [h (drop base k, v)], None)"
          using nle get ok False by (auto simp: kv page_visit_def Let_def)
        show ?thesis
        proof (cases "count = 0")
          case True
          then show ?thesis unfolding step Cons.IH [OF prems c] using \<open>k < upper\<close> ok by (simp add: kv)
        next
          case nz: False
          then have "Suc (length acc) < count" using False by simp
          then obtain d where d: "count = Suc (Suc (length acc) + d)"
            by (blast dest: less_imp_Suc_add)
          show ?thesis unfolding step Cons.IH [OF prems c] using True ok by (simp add: kv d)
        qed
      qed
    qed
  qed
qed (use assms(3) in auto)

lemma bounded_upper:
  assumes "bounded_prefix pfx"
  obtains u where "key_upper_bound (data_key pfx kind key) = Some u"
proof -
  have "\<exists>x \<in> set (data_key pfx kind key). x + 1 \<noteq> 0"
    using assms by (auto simp: bounded_prefix_def data_key_def)
  then show ?thesis using that key_upper_bound_None_iff by blast
qed

lemma filter_map_entries:
  assumes "finite (dom m)"
  shows "map (\<lambda>(k, v). (drop b k, v)) (entries m (\<lambda>k. P k \<and> Q (drop b k))) =
    filter (\<lambda>(s, _). Q s) (map (\<lambda>(k, v). (drop b k, v)) (entries m P))"
proof -
  have "entries m (\<lambda>k. P k \<and> Q (drop b k)) = filter (\<lambda>(k, _). Q (drop b k)) (entries m P)"
    using filter_entries [OF assms, of "\<lambda>k. Q (drop b k)" P] by simp
  then show ?thesis by (simp add: filter_map comp_def case_prod_unfold)
qed

context healthy_rocksdb
begin

text \<open>A page scan over the records of one kind of a key.\<close>
lemma page_scan:
  fixes kind :: u8 and key :: bytes
  assumes "bounded_prefix pfx"
  defines "lower \<equiv> data_key pfx kind key"
  shows "for_each_from R db (case cursor of Some f \<Rightarrow> elem_key pfx kind key f | None \<Rightarrow> lower) (cursor \<noteq> None)
      (page_visit (case key_upper_bound lower of Some u \<Rightarrow> u | None \<Rightarrow> []) (length lower) pat count h) ([], None) =
    (Inr (), let (page, nxt) = page_of count (after cursor pat (elements (content db) pfx kind key))
             in (map h page, nxt))"
proof -
  obtain u where u: "key_upper_bound lower = Some u" using bounded_upper [OF assms(1)] unfolding lower_def by blast
  let ?start = "case cursor of Some f \<Rightarrow> elem_key pfx kind key f | None \<Rightarrow> lower"
  let ?P = "\<lambda>k. if cursor \<noteq> None then ?start < k else ?start \<le> k"
  let ?kvs = "entries (content db) ?P"
  have win: "k < u \<and> lower \<le> k \<longleftrightarrow> Sublist.prefix lower k" for k
    using key_upper_bound_in [of lower k] by (simp add: u below_def)
  have start: "lower \<le> ?start" by (cases cursor) (auto simp: elem_key_def lower_def)
  have inside: "?P k \<and> k < u \<longleftrightarrow>
      Sublist.prefix lower k \<and> (case cursor of None \<Rightarrow> True | Some c \<Rightarrow> c < drop (length lower) k)" for k
  proof (cases cursor)
    case None
    then show ?thesis using win [of k] by auto
  next
    case (Some c)
    have "lower @ c < k \<and> k < u \<longleftrightarrow> Sublist.prefix lower k \<and> c < drop (length lower) k"
    proof
      assume "lower @ c < k \<and> k < u"
      moreover then have "lower \<le> k" using le_append [of lower c] by (meson less_imp_le order_trans)
      ultimately show "Sublist.prefix lower k \<and> c < drop (length lower) k"
        using win [of k] by (auto simp: prefix_def)
    next
      assume "Sublist.prefix lower k \<and> c < drop (length lower) k"
      then show "lower @ c < k \<and> k < u" using win [of k] by (auto simp: prefix_def)
    qed
    then show ?thesis using Some by (simp add: elem_key_def lower_def)
  qed
  have cand: "filter (\<lambda>(s, _). pattern_ok pat s)
      (map (\<lambda>(k, v). (drop (length lower) k, v)) (filter (\<lambda>(k, _). k < u) ?kvs)) =
      after cursor pat (elements (content db) pfx kind key)"
  proof -
    have "filter (\<lambda>(k, _). k < u) ?kvs = entries (content db) (\<lambda>k. Sublist.prefix lower k \<and>
        (case cursor of None \<Rightarrow> True | Some c \<Rightarrow> c < drop (length lower) k))"
      unfolding filter_entries [OF finite_dom] by (rule entries_cong) (rule inside)
    then show ?thesis
      using filter_map_entries [OF finite_dom, of "length lower" db "Sublist.prefix lower"
          "\<lambda>s. case cursor of None \<Rightarrow> True | Some c \<Rightarrow> c < s"]
      by (simp add: after_def elements_def lower_def [symmetric] filter_filter case_prod_beta
          cong: filter_cong) (simp add: conj_commute)
  qed
  have len: "\<forall>(k, v) \<in> set ?kvs. k < u \<longrightarrow> length lower \<le> length k"
  proof (clarify)
    fix k v
    assume "(k, v) \<in> set ?kvs" "k < u"
    then have "?P k \<and> k < u" using set_entries [OF finite_dom, of db ?P] by blast
    then have "Sublist.prefix lower k" by (simp only: inside)
    then show "length lower \<le> length k" by (rule prefix_length_le)
  qed
  define kvs where "kvs = ?kvs"
  have "visit kvs (page_visit u (length lower) pat count h) ([], None) =
      (let (page, nxt) = page_of count (after cursor pat (elements (content db) pfx kind key))
       in (map h page, nxt))"
    using page_visit_eq [OF sorted_entries len, of count "[]" pat h]
    unfolding cand unfolding kvs_def [symmetric] by (auto simp: page_of_def)
  then show ?thesis
    unfolding for_each_from_visit kvs_def [symmetric] by (simp add: u)
qed

lemma collect_fields_eq:
  assumes "bounded_prefix pfx"
  shows "collect_fields R db pfx key cursor pat count =
    (let (page, nxt) = page_of count (after cursor pat (elements (content db) pfx KIND_HASH_FLD key))
     in Inr \<lparr>fp_fields = page, fp_next = nxt\<rparr>)"
  using page_scan [OF assms, where kind = KIND_HASH_FLD and h = id and cursor = cursor]
  by (cases cursor) (simp_all add: collect_fields_def fields_range_def fields_visit_page Let_def case_prod_beta)

lemma collect_members_eq:
  assumes "bounded_prefix pfx"
  shows "collect_members R db pfx key cursor pat count =
    (let (page, nxt) = page_of count (after cursor pat (elements (content db) pfx KIND_SET_MEMBER key))
     in Inr \<lparr>mp_members = map fst page, mp_next = nxt\<rparr>)"
  using page_scan [OF assms, where kind = KIND_SET_MEMBER and h = fst and cursor = cursor]
  by (cases cursor) (simp_all add: collect_members_def members_range_def members_visit_page Let_def case_prod_beta)

end

text \<open>Following the cursor continues exactly where the page stopped.\<close>
lemma after_page:
  assumes "sorted_wrt (<) (map fst es)" "page_of count (after cursor pat es) = (page, nxt)"
  shows "after cursor pat es = page @ (case nxt of None \<Rightarrow> [] | Some c \<Rightarrow> after (Some c) pat es)"
proof (cases "count = 0 \<or> length (after cursor pat es) < count")
  case True
  then show ?thesis using assms(2) by (auto simp: page_of_def)
next
  case False
  let ?cand = "after cursor pat es"
  let ?c = "fst (?cand ! (count - 1))"
  have page: "page = take count ?cand" and nxt: "nxt = Some ?c" and n: "0 < count" "count \<le> length ?cand"
    using assms(2) False by (auto simp: page_of_def)
  have sorted: "sorted_wrt (<) (map fst ?cand)"
    using assms(1) by (simp add: after_def sorted_wrt_map sorted_wrt_filter)
  have mem: "?cand ! (count - 1) \<in> set ?cand" using n by simp
  have "after (Some ?c) pat es = filter (\<lambda>(s, _). ?c < s) ?cand"
  proof -
    have "case cursor of None \<Rightarrow> True | Some c \<Rightarrow> c < ?c"
      using mem unfolding after_def by (cases cursor) auto
    then show ?thesis
      unfolding after_def filter_filter by (intro filter_cong) (auto split: option.splits)
  qed
  also have "\<dots> = drop count ?cand"
  proof -
    have lt: "i < j \<Longrightarrow> j < length ?cand \<Longrightarrow> fst (?cand ! i) < fst (?cand ! j)" for i j
      using sorted by (simp add: sorted_wrt_map sorted_wrt_iff_nth_less)
    have le: "\<not> ?c < fst x" if x: "x \<in> set (take count ?cand)" for x
    proof -
      obtain i where i: "i < count" "x = ?cand ! i"
        using x n by (auto simp: in_set_conv_nth)
      then have "i = count - 1 \<or> i < count - 1" by linarith
      then have "fst x \<le> ?c" using lt [of i "count - 1"] n i by (auto intro: less_imp_le)
      then show ?thesis by simp
    qed
    have gt: "?c < fst x" if x: "x \<in> set (drop count ?cand)" for x
    proof -
      obtain i where "i < length ?cand - count" "x = ?cand ! (count + i)"
        using x n by (auto simp: in_set_conv_nth)
      then show ?thesis using lt [of "count - 1" "count + i"] n by simp
    qed
    have "filter (\<lambda>(s, _). ?c < s) (take count ?cand @ drop count ?cand) = drop count ?cand"
      using le gt by (auto simp: filter_empty_conv filter_id_conv case_prod_beta simp del: append_take_drop_id)
    then show ?thesis by simp
  qed
  finally show ?thesis by (simp add: page nxt)
qed


section \<open>Replacing a key\<close>

text \<open>The records that go when a key is cleared, live or expired.\<close>
definition cleared_record :: "content \<Rightarrow> bytes \<Rightarrow> bytes \<Rightarrow> bytes \<Rightarrow> bool" where
  "cleared_record m pfx key k \<longleftrightarrow>
     (if m (string_key pfx key) \<noteq> None then k = string_key pfx key
      else case first_kind m pfx key of
          None \<Rightarrow> False
        | Some kind \<Rightarrow>
            purge_set pfx (the (family_of kind)) key (deadline m (data_key pfx kind key)) k)"

text \<open>No element record without the meta record of its family.\<close>
definition rooted :: "content \<Rightarrow> bytes \<Rightarrow> codec_family \<Rightarrow> bytes \<Rightarrow> bool" where
  "rooted m pfx fam key \<longleftrightarrow>
     (\<forall>k. family_record pfx fam key k \<longrightarrow> m k \<noteq> None \<longrightarrow> m (data_key pfx (fst fam) key) \<noteq> None)"

lemma first_kind_family:
  assumes "first_kind m pfx key = Some kind"
  obtains fam v where "family_of kind = Some fam" "fst fam = kind" "kind \<le> snd fam"
    "family_or d kind = fam" "m (data_key pfx kind key) = Some v" "is_user_key_kind kind"
  using first_kind_SomeD [OF assms] family_or_user [of kind d] by blast

lemma lookup_cases:
  "lookup m pfx key now =
     (if m (string_key pfx key) \<noteq> None then RawString (the (m (string_key pfx key)))
      else case first_kind m pfx key of
          None \<Rightarrow> Missing
        | Some kind \<Rightarrow>
            if is_expired (deadline m (data_key pfx kind key)) now then Missing
            else Enveloped kind (deadline m (data_key pfx kind key))
                   (snd (decode_envelope (the (m (data_key pfx kind key))))))"
  by (auto simp: lookup_def deadline_def split: option.splits prod.splits dest!: first_kind_SomeD)

context healthy_rocksdb
begin

lemma resolve_content:
  assumes "bounded_prefix pfx"
  shows "fst (resolve R db pfx key now) = lookup (content db) pfx key now"
    and "content (snd (resolve R db pfx key now)) =
      (if lookup (content db) pfx key now = Missing
       then (\<lambda>k. if cleared_record (content db) pfx key k then None else content db k)
       else content db)"
proof -
  show "fst (resolve R db pfx key now) = lookup (content db) pfx key now"
    by (simp add: resolve_def resolve_with_fst)
  show "content (snd (resolve R db pfx key now)) =
      (if lookup (content db) pfx key now = Missing
       then (\<lambda>k. if cleared_record (content db) pfx key k then None else content db k)
       else content db)"
  proof (cases "content db (string_key pfx key) = None")
    case False
    then show ?thesis
      by (auto simp: resolve_def resolve_with_def lookup_cases get_physical_def)
  next
    case raw: True
    show ?thesis
    proof (cases "first_kind (content db) pfx key")
      case None
      then show ?thesis
        using raw unfolding first_kind_def
        by (simp add: resolve_def resolve_with_def resolve_kinds_eq get_physical_def cleared_record_def
            first_kind_def)
    next
      case (Some kind)
      obtain fam v where k: "family_of kind = Some fam" "fst fam = kind" "content db (data_key pfx kind key) = Some v"
        using first_kind_family [OF Some] by metis
      then show ?thesis
        using raw Some Some [unfolded first_kind_def] purge_if_expired_eq [OF assms, of db fam key now]
        by (auto simp: resolve_def resolve_with_def resolve_kinds_eq get_physical_def lookup_cases cleared_record_def deadline_def fun_eq_iff split: prod.splits)
    qed
  qed
qed

lemma store_clear_content:
  assumes "bounded_prefix pfx"
  shows "apply_batch (fst (store_clear R db pfx key now)) (content (snd (store_clear R db pfx key now))) =
    (\<lambda>k. if cleared_record (content db) pfx key k then None else content db k)"
proof -
  obtain st db' where r: "resolve R db pfx key now = (st, db')" by (cases "resolve R db pfx key now")
  have st: "st = lookup (content db) pfx key now" and db': "content db' =
      (if st = Missing then (\<lambda>k. if cleared_record (content db) pfx key k then None else content db k)
       else content db)"
    using resolve_content [OF assms, of db key now] by (simp_all add: r)
  show ?thesis
  proof (cases st)
    case Missing
    then show ?thesis using db' by (simp add: store_clear_def r)
  next
    case (RawString v)
    then have "cleared_record (content db) pfx key k \<longleftrightarrow> k = string_key pfx key" for k
      using st by (auto simp: cleared_record_def lookup_cases split: option.splits if_splits)
    then show ?thesis using db' RawString by (auto simp: store_clear_def r fun_eq_iff)
  next
    case (Enveloped kind e p)
    then have raw: "content db (string_key pfx key) = None" and fk: "first_kind (content db) pfx key = Some kind"
      and e: "e = deadline (content db) (data_key pfx kind key)"
      using st by (auto simp: lookup_cases split: option.splits if_splits)
    obtain fam where "family_of kind = Some fam" "family_or SET_FAMILY kind = fam"
      using first_kind_family [OF fk] by metis
    then show ?thesis
      using db' Enveloped raw fk e apply_family_delete_entries_now [OF assms, of db' fam key e]
      by (simp add: store_clear_def r cleared_record_def cong: if_cong)
  qed
qed

end


lemma cleared_gone:
  assumes "single_shape m pfx key" "classify key = Raw"
  defines "m' \<equiv> \<lambda>k. if cleared_record m pfx key k then None else m k"
  shows "m' (string_key pfx key) = None" "is_user_key_kind kind \<Longrightarrow> m' (data_key pfx kind key) = None"
proof -
  show "m' (string_key pfx key) = None" by (simp add: m'_def cleared_record_def)
  assume kind: "is_user_key_kind kind"
  show "m' (data_key pfx kind key) = None"
  proof (cases "m (data_key pfx kind key)")
    case (Some v)
    then have raw: "m (string_key pfx key) = None"
      using assms(1) kind by (auto simp: single_shape_def first_kind_None_iff)
    obtain kd where kd: "first_kind m pfx key = Some kd"
      using Some kind first_kind_None_iff [of m pfx key] by fastforce
    then have eq: "kd = kind"
      using first_kind_SomeD [OF kd] assms(1) Some kind unfolding single_shape_def by blast
    obtain fam where "family_of kind = Some fam" "fst fam = kind" "kind \<le> snd fam"
      using first_kind_family [OF kd] eq by metis
    then show ?thesis
      using purge_set_root [of fam pfx key "deadline m (data_key pfx kind key)"]
      by (simp add: m'_def cleared_record_def raw kd eq)
  qed (simp add: m'_def)
qed

lemma cleared_foreign:
  assumes "foreign pfx key k" "length key < 2 ^ 32" "classify key = Raw"
  shows "\<not> cleared_record m pfx key k"
proof (cases "first_kind m pfx key")
  case None
  then show ?thesis using foreign_neq_raw [OF assms(1,3)] by (simp add: cleared_record_def)
next
  case (Some kind)
  obtain fam where fam: "family_of kind = Some fam" using first_kind_family [OF Some] by metis
  show ?thesis
    using foreign_neq_raw [OF assms(1,3)] foreign_not_purged [OF assms(1,2) fam] Some fam
    by (simp add: cleared_record_def)
qed

text \<open>A family with one meta record and one record per element.\<close>
locale counted_family =
  fixes meta_kind elem_kind :: u8 and fam :: codec_family
  assumes families: "family_of meta_kind = Some fam" "family_of elem_kind = Some fam"
    and root: "fst fam = meta_kind"
    and user: "is_user_key_kind meta_kind" "\<not> is_user_key_kind elem_kind"
    and elem_span: "meta_kind \<le> elem_kind" "elem_kind \<le> snd fam"
begin

lemma elem_record: "family_record pfx fam key (elem_key pfx elem_kind key s)"
  using elem_span root unfolding family_record_def by blast

lemma cleared_family:
  assumes "single_shape m pfx key" "rooted m pfx fam key" "family_record pfx fam key k"
  shows "(if cleared_record m pfx key k then None else m k) = None"
proof (cases "m k")
  case (Some v)
  then have meta: "m (data_key pfx meta_kind key) \<noteq> None"
    using assms(2,3) root unfolding rooted_def by (metis option.distinct(1))
  then have raw: "m (string_key pfx key) = None"
    using assms(1) user(1) by (auto simp: single_shape_def first_kind_None_iff)
  obtain kd where kd: "first_kind m pfx key = Some kd"
    using meta user(1) first_kind_None_iff [of m pfx key] by fastforce
  then have "kd = meta_kind"
    using first_kind_SomeD [OF kd] assms(1) meta user(1) unfolding single_shape_def by blast
  then show ?thesis
    using assms(3) families by (simp add: cleared_record_def raw kd purge_set_def)
qed simp

lemma cleared_elem:
  assumes "single_shape m pfx key" "rooted m pfx fam key"
  shows "(if cleared_record m pfx key (elem_key pfx elem_kind key s) then None
          else m (elem_key pfx elem_kind key s)) = None"
  by (rule cleared_family [OF assms elem_record])

lemma elem_neq_user:
  "is_user_key_kind kind \<Longrightarrow> elem_key pfx elem_kind key s \<noteq> data_key pfx kind key"
  using user(2) by (auto simp: elem_key_def data_key_def)

lemma apply_puts_elems:
  "apply_batch (map (\<lambda>(s, v). Put (elem_key pfx elem_kind key s) v) es) m k =
     (if \<exists>s. k = elem_key pfx elem_kind key s \<and> s \<in> fst ` set es
      then map_of (rev es) (drop (length (data_key pfx elem_kind key)) k) else m k)"
proof (induction es rule: rev_induct)
  case (snoc e es)
  obtain s v where e: "e = (s, v)" by (cases e)
  show ?case
  proof (cases "k = elem_key pfx elem_kind key s")
    case True
    then show ?thesis by (auto simp: e elem_key_def)
  next
    case False
    then show ?thesis using snoc.IH by (auto simp: e elem_key_def)
  qed
qed simp

text \<open>A family written over a cleared key.\<close>
lemma fresh_family:
  fixes e :: u64 and c :: bytes and es :: "(bytes \<times> bytes) list"
  assumes raw: "m (string_key pfx key) = None" and cls: "classify key = Raw" and e: "e < 2 ^ 63"
    and users: "\<And>kind. is_user_key_kind kind \<Longrightarrow> m (data_key pfx kind key) = None"
    and elems: "\<And>s. m (elem_key pfx elem_kind key s) = None"
  defines "m' \<equiv> apply_batch (Put (data_key pfx meta_kind key) (encode_envelope e c) #
      map (\<lambda>(s, v). Put (elem_key pfx elem_kind key s) v) es) m"
  shows "lookup m' pfx key now = (if is_expired e now then Missing else Enveloped meta_kind e c)"
    and "m' (elem_key pfx elem_kind key s) = map_of (rev es) s"
    and "foreign pfx key k \<Longrightarrow> length key < 2 ^ 32 \<Longrightarrow> m' k = m k"
proof -
  have at: "m' k = (if \<exists>s. k = elem_key pfx elem_kind key s \<and> s \<in> fst ` set es
      then map_of (rev es) (drop (length (data_key pfx elem_kind key)) k)
      else if k = data_key pfx meta_kind key then Some (encode_envelope e c) else m k)" for k
    unfolding m'_def apply_batch_simps(2) apply_puts_elems apply_op.simps by (rule if_cong) simp_all
  have user_at: "m' (data_key pfx kind key) =
      (if kind = meta_kind then Some (encode_envelope e c) else None)" if "is_user_key_kind kind" for kind
    using elem_neq_user [OF that, symmetric] users [OF that] by (simp add: at data_key_kind_eq)
  have "m' (string_key pfx key) = None"
    using raw string_key_neq_elem [OF cls, of elem_kind pfx key] families by (simp add: at)
  moreover have "first_kind m' pfx key = Some meta_kind"
  proof -
    have "first_kind m' pfx key \<noteq> None" using user_at [OF user(1)] user(1) by (auto simp: first_kind_None_iff)
    then obtain kd where kd: "first_kind m' pfx key = Some kd" by blast
    then show ?thesis using first_kind_SomeD [OF kd] user_at [of kd] by (auto split: if_splits)
  qed
  ultimately show "lookup m' pfx key now = (if is_expired e now then Missing else Enveloped meta_kind e c)"
    using e by (simp add: lookup_def user_at [OF user(1)])
  show "m' (elem_key pfx elem_kind key s) = map_of (rev es) s"
    using elem_neq_user [OF user(1), of pfx key s] elems [of s]
    using map_of_eq_None_iff [of "rev es" s] by (auto simp: at elem_key_def)
  assume k: "foreign pfx key k" "length key < 2 ^ 32"
  have "k \<noteq> elem_key pfx elem_kind key s" for s
    using foreign_not_family [OF k families(1)] elem_record by metis
  moreover have "k \<noteq> data_key pfx meta_kind key"
    using foreign_not_family [OF k families(1)] elem_span(1) elem_span(2) root
    unfolding family_record_def by (metis data_key_as_elem order_refl order_trans)
  ultimately show "m' k = m k" by (simp add: at)
qed

end

interpretation hash: counted_family KIND_HASH_META KIND_HASH_FLD HASH_FAMILY
  by unfold_locales (simp_all add: family_of_def kind_simps HASH_FAMILY_def is_user_key_kind_def META_KINDS_def)

interpretation sets: counted_family KIND_SET_META KIND_SET_MEMBER SET_FAMILY
  by unfold_locales (simp_all add: family_of_def kind_simps SET_FAMILY_def is_user_key_kind_def META_KINDS_def)


section \<open>Set algebra\<close>

lemma fold_union: "fold (\<lambda>s acc. acc \<union> s) sets acc = acc \<union> \<Union> (set sets)"
  by (induction sets arbitrary: acc) auto

lemma min_by_card_None: "min_by_card sets = None \<longleftrightarrow> sets = []"
  by (cases sets) (auto split: option.splits)

lemma min_by_card_in: "min_by_card sets = Some s \<Longrightarrow> s \<in> set sets"
  by (induction sets arbitrary: s rule: min_by_card.induct) (auto split: option.splits if_splits)

lemma min_by_card_mem: "sets \<noteq> [] \<Longrightarrow> \<exists>s \<in> set sets. min_by_card sets = Some s"
  using min_by_card_None [of sets] min_by_card_in [of sets] by fastforce

context healthy_rocksdb
begin

lemma read_members_set:
  assumes "bounded_prefix pfx" "lookup (content db) pfx key now = Enveloped KIND_SET_META e p"
  shows "read_members R db pfx key now = (Members {s. content db (member_key pfx key s) \<noteq> None}, db)"
proof -
  have res: "resolve R db pfx key now = (Enveloped KIND_SET_META e p, db)"
    using resolve_with_present [of db pfx key now] assms(2) by (simp add: resolve_def is_present_def)
  have "fst ` set (elements (content db) pfx KIND_SET_MEMBER key) = {s. content db (member_key pfx key s) \<noteq> None}"
    by (auto simp: set_elements [OF finite_dom] member_key_def image_iff)
  then show ?thesis
    by (simp add: read_members_def res collect_members_eq [OF assms(1)] page_of_def after_def
        pattern_ok_def case_prod_unfold)
qed

lemma set_read_meta_live:
  assumes "lookup (content db) pfx key now = Enveloped KIND_SET_META e p"
  shows "set_read_meta R db pfx key now = (MetaPresent e (decode_count p), db)"
proof -
  obtain v where "content db (data_key pfx KIND_SET_META key) = Some v" "decode_envelope v = (e, p)"
    "\<not> is_expired e now"
    using assms by (auto simp: lookup_def split: option.splits prod.splits if_splits dest: first_kind_SomeD)
  then show ?thesis by (simp add: set_read_meta_def set_meta_key_def get_physical_def)
qed

end

section \<open>Properties\<close>


text \<open>C38: \<open>SUNION\<close>, \<open>SINTER\<close> and \<open>SDIFF\<close> compute the union, the intersection, and the first set
  without the others; each answer is sorted and without repetition.\<close>
theorem set_algebra_exact:
  assumes "\<forall>s \<in> set sets. finite s"
  shows "set (union_all sets) = \<Union> (set sets) \<and>
    set (intersect_all sets) = (if sets = [] then {} else \<Inter> (set sets)) \<and>
    set (diff_all sets) = (case sets of [] \<Rightarrow> {} | s # rest \<Rightarrow> s - \<Union> (set rest)) \<and>
    (\<forall>f \<in> {union_all, intersect_all, diff_all}. sorted (f sets) \<and> distinct (f sets))"
proof (intro conjI)
  show "set (union_all sets) = \<Union> (set sets)"
    using assms by (simp add: union_all_def fold_union)
  show "set (intersect_all sets) = (if sets = [] then {} else \<Inter> (set sets))"
  proof (cases "sets = []")
    case False
    then obtain s where s: "s \<in> set sets" "min_by_card sets = Some s" using min_by_card_mem by blast
    then have "finite (Set.filter (\<lambda>m. list_all (\<lambda>s. m \<in> s) sets) s)"
      using assms by auto
    then show ?thesis using s False by (auto simp: intersect_all_def list_all_iff)
  qed (simp add: intersect_all_def)
  show "set (diff_all sets) = (case sets of [] \<Rightarrow> {} | s # rest \<Rightarrow> s - \<Union> (set rest))"
    using assms by (cases sets) (auto simp: diff_all_def list_ex_iff)
  show "\<forall>f \<in> {union_all, intersect_all, diff_all}. sorted (f sets) \<and> distinct (f sets)"
    by (simp add: union_all_def intersect_all_def diff_all_def split: option.splits list.splits)
qed

theorem set_algebra_exact_witness:
  "set (intersect_all [{[1], [2]}, {[2], [3 :: u8]}]) = {[2]} \<and>
   diff_all [{[1], [2]}, {[2], [3 :: u8]}] = [[1]]"
proof -
  let ?sets = "[{[1], [2]}, {[2], [3 :: u8]}]"
  have "\<forall>s \<in> set ?sets. finite s" by simp
  note algebra = set_algebra_exact [OF this]
  have "\<Inter> (set ?sets) = {[2]}" by auto
  then have inter: "set (intersect_all ?sets) = {[2]}"
    using algebra [THEN conjunct2, THEN conjunct1] by simp
  have "{[1], [2]} - \<Union> (set [{[2], [3 :: u8]}]) = {[1]}" by auto
  then have diff: "set (diff_all ?sets) = {[1]}"
    using algebra [THEN conjunct2, THEN conjunct2, THEN conjunct1] by simp
  have "distinct (diff_all ?sets)"
    using algebra [THEN conjunct2, THEN conjunct2, THEN conjunct2] by blast
  then have "length (diff_all ?sets) = 1" using distinct_card [of "diff_all ?sets"] diff by simp
  then obtain x where "diff_all ?sets = [x]" by (auto simp: length_Suc_conv)
  then show ?thesis using inter diff by simp
qed





end
