(* ===== verification/Rdb_Resp.thy ===== *)
theory Rdb_Resp
  imports Rdb_Slot
begin

text \<open>
  The RESP2 codec of \<^verbatim>\<open>src/resp/codec.rs\<close>: the multibulk and the inline (telnet) request
  parsers, the reply writers, and the framing of outbound commands in
  \<^verbatim>\<open>src/resp/client.rs\<close>.  The parsers are total functions of the connection buffer; buffer
  positions are list indices, as in the code.
\<close>

section \<open>Results and limits\<close>

text \<open>\<open>i64\<close>, read with \<open>sint\<close>.\<close>
type_synonym i64 = "64 word"

datatype parse_outcome =
    Incomplete
  | Complete (cmd_args: "bytes list") (consumed: nat)
  | ProtocolError (proto_msg: string) (proto_consumed: nat)

definition protocol_error :: "string \<Rightarrow> parse_outcome" where
  "protocol_error msg = ProtocolError msg 0"

definition MAX_MULTIBULK_COUNT :: int where
  "MAX_MULTIBULK_COUNT = 1048576"

definition MAX_BULK_LEN :: int where
  "MAX_BULK_LEN = 512 * 1024 * 1024"

definition MAX_INLINE_LEN :: nat where
  "MAX_INLINE_LEN = 64 * 1024"

section \<open>Multibulk requests\<close>

text \<open>The \<open>while i < b.len()\<close> loop of \<open>parse_int\<close>.\<close>
fun parse_int_loop :: "bytes \<Rightarrow> i64 \<Rightarrow> i64 option" where
  "parse_int_loop [] n = Some n"
| "parse_int_loop (b # bs) n =
     (if is_ascii_digit b then parse_int_loop bs (n * 10 + ucast (b - 48)) else None)"

definition parse_int :: "bytes \<Rightarrow> i64 option" where
  "parse_int b =
     (if length b = 1 \<and> is_ascii_digit (b ! 0) then Some (ucast (b ! 0 - 48))
      else
        (let sign = (b \<noteq> [] \<and> b ! 0 = 45) in
         case parse_int_loop (if sign then drop 1 b else b) 0 of
           None \<Rightarrow> None
         | Some n \<Rightarrow> Some (if sign then - n else n)))"

text \<open>The scan of \<open>buf\<close> from \<open>i\<close> for a newline, and \<open>&buf[a..b]\<close>.\<close>
definition scan_nl :: "bytes \<Rightarrow> nat \<Rightarrow> nat option" where
  "scan_nl buf i = map_option (\<lambda>k. i + k) (position (\<lambda>b. b = 10) (drop i buf))"

definition sub_slice :: "nat \<Rightarrow> nat \<Rightarrow> bytes \<Rightarrow> bytes" where
  "sub_slice a b buf = take (b - a) (drop a buf)"

text \<open>\<open>Some(v) if (0..=limit).contains(&v) => v as usize\<close>.\<close>
definition parse_count :: "int \<Rightarrow> bytes \<Rightarrow> nat option" where
  "parse_count limit b =
     (case parse_int b of
        Some v \<Rightarrow> if 0 \<le> sint v \<and> sint v \<le> limit then Some (nat (sint v)) else None
      | None \<Rightarrow> None)"

text \<open>One round of the \<open>while args.len() < count\<close> loop: the argument and the position after it.\<close>
definition parse_bulk :: "bytes \<Rightarrow> nat \<Rightarrow> parse_outcome + bytes \<times> nat" where
  "parse_bulk buf i =
     (if i = length buf then Inl Incomplete
      else if buf ! i \<noteq> 36 then
        Inl (protocol_error (''expected '$', got '' @ [CHR 0x27, char_of (unat (buf ! i)), CHR 0x27]))
      else (case scan_nl buf i of
          None \<Rightarrow> Inl Incomplete
        | Some j \<Rightarrow>
            if buf ! (j - 1) \<noteq> 13 then Inl (protocol_error ''invalid bulk length'')
            else (case parse_count MAX_BULK_LEN (sub_slice (i + 1) (j - 1) buf) of
                None \<Rightarrow> Inl (protocol_error ''invalid bulk length'')
              | Some n \<Rightarrow>
                  (let start = j + 1 in
                   if length buf - start < n + 2 then Inl Incomplete
                   else if buf ! (start + n) \<noteq> 13 \<or> buf ! (start + n + 1) \<noteq> 10
                   then Inl (protocol_error ''invalid bulk length'')
                   else Inr (sub_slice start (start + n) buf, start + n + 2)))))"

fun parse_bulks :: "nat \<Rightarrow> bytes \<Rightarrow> nat \<Rightarrow> bytes list \<Rightarrow> parse_outcome" where
  "parse_bulks 0 buf i args = Complete args i"
| "parse_bulks (Suc left) buf i args =
     (case parse_bulk buf i of
        Inl r \<Rightarrow> r
      | Inr (arg, i') \<Rightarrow> parse_bulks left buf i' (args @ [arg]))"

definition parse_multibulk :: "bytes \<Rightarrow> parse_outcome" where
  "parse_multibulk buf =
     (case scan_nl buf 1 of
        None \<Rightarrow> Incomplete
      | Some i \<Rightarrow>
          if buf ! (i - 1) \<noteq> 13 then protocol_error ''invalid multibulk length''
          else (case parse_count MAX_MULTIBULK_COUNT (sub_slice 1 (i - 1) buf) of
              None \<Rightarrow> protocol_error ''invalid multibulk length''
            | Some count \<Rightarrow> parse_bulks count buf (i + 1) []))"

section \<open>Inline requests\<close>

text \<open>Where one pass of the inner loop of \<open>parse_telnet\<close> ends.\<close>
datatype telnet_pass =
    AtSpace bytes bytes
  | QuoteOpens u8 bytes
  | QuoteCloses bytes bytes
  | Unbalanced
  | AtEnd

definition unescape :: "u8 \<Rightarrow> u8" where
  "unescape c = (if c = 110 then 10 else if c = 114 then 13 else if c = 116 then 9 else c)"

text \<open>
  The inner loop: \<open>first\<close> is \<open>i = 0\<close>, the list is the rest of the line from \<open>i\<close>, \<open>quote\<close> is the
  open quote character, if any.
\<close>
fun telnet_scan :: "bool \<Rightarrow> u8 option \<Rightarrow> bool \<Rightarrow> bytes \<Rightarrow> bytes \<Rightarrow> telnet_pass" where
  "telnet_scan first quote escape nline [] = AtEnd"
| "telnet_scan first None escape nline (c # line) =
     (if c = 32 then AtSpace nline line
      else if c = 34 \<or> c = 39 then (if \<not> first then Unbalanced else QuoteOpens c line)
      else telnet_scan False None escape (nline @ [c]) line)"
| "telnet_scan first (Some q) escape nline (c # line) =
     (if escape then telnet_scan False (Some q) False (nline @ [unescape c]) line
      else if c = q then
        (if line \<noteq> [] \<and> line ! 0 \<noteq> 32 then Unbalanced else QuoteCloses nline line)
      else if c = 92 then telnet_scan False (Some q) True nline line
      else telnet_scan False (Some q) False (nline @ [c]) line)"

lemma telnet_scan_shorter:
  "telnet_scan first quote escape nline line = AtSpace w rest \<Longrightarrow> length rest < length line"
  "telnet_scan first quote escape nline line = QuoteOpens q rest \<Longrightarrow> length rest < length line"
  "telnet_scan first quote escape nline line = QuoteCloses w rest \<Longrightarrow> length rest < length line"
  by (induction first quote escape nline line rule: telnet_scan.induct) (auto split: if_splits)

text \<open>The outer loop.  A pass that meets no boundary appends the remaining line as it is.\<close>
function telnet_loop :: "bytes \<Rightarrow> bytes list \<Rightarrow> u8 option \<Rightarrow> bytes list option" where
  "telnet_loop line args quote =
     (case telnet_scan True quote False [] line of
        AtSpace w rest \<Rightarrow> telnet_loop rest (if w \<noteq> [] then args @ [w] else args) None
      | QuoteOpens q rest \<Rightarrow> telnet_loop rest args (Some q)
      | QuoteCloses w rest \<Rightarrow> telnet_loop rest (args @ [w]) None
      | Unbalanced \<Rightarrow> None
      | AtEnd \<Rightarrow>
          if quote \<noteq> None then None
          else Some (if line \<noteq> [] then args @ [line] else args))"
  by pat_completeness auto
termination
  by (relation "measure (\<lambda>(line, _, _). length line)") (auto dest: telnet_scan_shorter)

declare telnet_loop.simps [simp del]

definition parse_telnet :: "bytes \<Rightarrow> parse_outcome" where
  "parse_telnet buf =
     (case position (\<lambda>b. b = 10) buf of
        None \<Rightarrow>
          if length buf > MAX_INLINE_LEN then protocol_error ''Protocol error: too big inline request''
          else Incomplete
      | Some nl \<Rightarrow>
          (let line = (if nl > 0 \<and> buf ! (nl - 1) = 13 then take (nl - 1) buf else take nl buf) in
           case telnet_loop line [] None of
             None \<Rightarrow> protocol_error ''unbalanced quotes in request''
           | Some args \<Rightarrow> Complete args (nl + 1)))"

definition parse_command :: "bytes \<Rightarrow> parse_outcome" where
  "parse_command buf =
     (if buf = [] then Incomplete
      else if buf ! 0 = 42 then parse_multibulk buf
      else if buf ! 0 = 36 then protocol_error ''invalid message''
      else parse_telnet buf)"

section \<open>Writers\<close>

text \<open>\<open>n.to_string()\<close> of an \<open>i64\<close>.\<close>
definition signed_dec :: "i64 \<Rightarrow> bytes" where
  "signed_dec n = (if sint n < 0 then 45 # dec_digits (nat (- sint n)) else dec_digits (nat (sint n)))"

definition append_string :: "bytes \<Rightarrow> bytes \<Rightarrow> bytes" where
  "append_string buf s = buf @ [43] @ s @ [13, 10]"

definition append_error :: "bytes \<Rightarrow> bytes \<Rightarrow> bytes" where
  "append_error buf msg = buf @ [45] @ msg @ [13, 10]"

definition append_null :: "bytes \<Rightarrow> bytes" where
  "append_null buf = buf @ [36, 45, 49, 13, 10]"

definition append_raw :: "bytes \<Rightarrow> bytes \<Rightarrow> bytes" where
  "append_raw buf data = buf @ data"

definition append_bulk :: "bytes \<Rightarrow> bytes \<Rightarrow> bytes" where
  "append_bulk buf data = buf @ [36] @ dec_digits (length data) @ [13, 10] @ data @ [13, 10]"

definition append_bulk_string :: "bytes \<Rightarrow> bytes \<Rightarrow> bytes" where
  "append_bulk_string buf s = append_bulk buf s"

definition append_int :: "bytes \<Rightarrow> i64 \<Rightarrow> bytes" where
  "append_int buf n = buf @ [58] @ signed_dec n @ [13, 10]"

definition append_array :: "bytes \<Rightarrow> nat \<Rightarrow> bytes" where
  "append_array buf count = buf @ [42] @ dec_digits count @ [13, 10]"

text \<open>The frame \<open>client::send_command\<close> writes.\<close>
definition send_command :: "bytes list \<Rightarrow> bytes" where
  "send_command args =
     foldl (\<lambda>buf a. buf @ [36] @ dec_digits (length a) @ [13, 10] @ a @ [13, 10])
       ([42] @ dec_digits (length args) @ [13, 10]) args"

section \<open>Decimal counts\<close>

lemma ucast_digit:
  assumes "is_ascii_digit b"
  shows "(ucast (b - 48) :: i64) = word_of_nat (unat b - 48)"
proof -
  have "48 \<le> b" using assms by (simp add: is_ascii_digit_def)
  then have "unat (b - 48) = unat b - 48" by (simp add: unat_sub)
  then show ?thesis by (metis of_nat_unat)
qed

lemma parse_int_loop_append:
  "parse_int_loop (xs @ ys) n = (case parse_int_loop xs n of None \<Rightarrow> None | Some m \<Rightarrow> parse_int_loop ys m)"
  by (induction xs arbitrary: n) auto

lemma parse_int_loop_digits:
  "(\<And>b. b \<in> set ds \<Longrightarrow> is_ascii_digit b) \<Longrightarrow> parse_int_loop ds 0 = Some (word_of_nat (dec_val ds))"
proof (induction ds rule: rev_induct)
  case Nil
  then show ?case by (simp add: dec_val_def)
next
  case (snoc d ds)
  then show ?case by (simp add: parse_int_loop_append dec_val_snoc ucast_digit)
qed

lemma parse_int_dec: "parse_int (dec_digits n) = Some (word_of_nat n)"
proof -
  have digits: "\<And>b. b \<in> set (dec_digits n) \<Longrightarrow> is_ascii_digit b" by (rule dec_digits_digit)
  have loop: "parse_int_loop (dec_digits n) 0 = Some (word_of_nat n)"
    using parse_int_loop_digits [OF digits] by (simp add: dec_val_dec_digits)
  have d0: "is_ascii_digit (dec_digits n ! 0)" by (rule digits) simp
  then have sign: "dec_digits n ! 0 \<noteq> 45" by (auto simp: is_ascii_digit_def)
  show ?thesis
  proof (cases "length (dec_digits n) = 1")
    case True
    then obtain d where d: "dec_digits n = [d]" by (auto simp: length_Suc_conv)
    then show ?thesis using loop d0 by (simp add: parse_int_def)
  next
    case False
    then show ?thesis using loop sign by (simp add: parse_int_def Let_def)
  qed
qed

lemma parse_count_dec:
  assumes "int n \<le> limit" "n < 2 ^ 63"
  shows "parse_count limit (dec_digits n) = Some n"
proof -
  have "sint (word_of_nat n :: i64) = int n"
    using assms(2) by (simp add: signed_of_nat signed_take_bit_int_eq_self)
  then show ?thesis using assms(1) by (simp add: parse_count_def parse_int_dec)
qed

section \<open>Scanning\<close>

lemma position_append:
  "position p (xs @ ys) =
     (case position p xs of Some i \<Rightarrow> Some i | None \<Rightarrow> map_option (\<lambda>i. length xs + i) (position p ys))"
  by (induction xs; cases "position p ys") (auto split: option.splits)

lemma scan_nl_Some:
  assumes "scan_nl buf i = Some j"
  shows "i \<le> j" "j < length buf" "buf ! j = 10"
  using assms by (auto simp: scan_nl_def position_Some_iff add.commute)

lemma scan_nl_more: "scan_nl buf i = Some j \<Longrightarrow> i \<le> length buf \<Longrightarrow> scan_nl (buf @ more) i = Some j"
  by (auto simp: scan_nl_def position_append)

lemma scan_nl_after:
  assumes "10 \<notin> set line"
  shows "scan_nl (pre @ line @ 10 # rest) (length pre) = Some (length pre + length line)"
proof -
  have "position (\<lambda>b. b = 10) line = None" using assms by (auto simp: position_None_iff)
  then show ?thesis by (simp add: scan_nl_def position_append)
qed

lemma sub_slice_more: "b \<le> length buf \<Longrightarrow> sub_slice a b (buf @ more) = sub_slice a b buf"
  by (simp add: sub_slice_def)

lemma sub_slice_mid: "length pre = a \<Longrightarrow> b = a + length mid \<Longrightarrow> sub_slice a b (pre @ mid @ rest) = mid"
  by (simp add: sub_slice_def)

section \<open>One bulk argument\<close>

lemma parse_bulk_bound:
  assumes "parse_bulk buf i = Inr (arg, i')"
  shows "i < i'" "i' \<le> length buf"
  using assms scan_nl_Some [of buf i]
  by (auto simp: parse_bulk_def Let_def split: if_splits option.splits)

lemma parse_bulk_more:
  assumes "parse_bulk buf i = r" "r \<noteq> Inl Incomplete" "i \<le> length buf"
  shows "parse_bulk (buf @ more) i = r"
proof -
  have i: "i < length buf" using assms by (cases "i = length buf") (auto simp: parse_bulk_def)
  show ?thesis
  proof (cases "buf ! i = 36")
    case False
    then show ?thesis using assms i by (auto simp: parse_bulk_def nth_append)
  next
    case True
    then obtain j where j: "scan_nl buf i = Some j"
      using assms i by (cases "scan_nl buf i") (auto simp: parse_bulk_def)
    note jb = scan_nl_Some [OF j]
    have more: "scan_nl (buf @ more) i = Some j" using scan_nl_more [OF j assms(3)] .
    have sl: "sub_slice (Suc i) (j - Suc 0) (buf @ more) = sub_slice (Suc i) (j - Suc 0) buf"
      using jb by (simp add: sub_slice_more)
    show ?thesis
    proof (cases "parse_count MAX_BULK_LEN (sub_slice (i + 1) (j - 1) buf)")
      case None
      then show ?thesis using assms i True jb by (auto simp: parse_bulk_def j more sl nth_append)
    next
      case (Some n)
      show ?thesis
      proof (cases "buf ! (j - 1) = 13")
        case False
        then show ?thesis using assms i True jb by (auto simp: parse_bulk_def j more sl nth_append)
      next
        case cr: True
        then have enough: "\<not> length buf - (j + 1) < n + 2"
          using assms i True by (auto simp: parse_bulk_def j Some [simplified])
        then have b: "j + 1 + n + 1 < length buf" using jb by linarith
        have "\<not> length (buf @ more) - (j + 1) < n + 2" using enough by simp
        then show ?thesis
          using assms(1) i True cr b jb enough
          by (auto simp: parse_bulk_def j more sl Some [simplified] Let_def nth_append sub_slice_more)
      qed
    qed
  qed
qed


lemma nl_not_digit: "10 \<notin> set (dec_digits n)"
  using dec_digits_digit [of 10 n] by (auto simp: is_ascii_digit_def)

text \<open>The frame of one argument.\<close>
definition bulk_frame :: "bytes \<Rightarrow> bytes" where
  "bulk_frame d = 36 # dec_digits (length d) @ [13, 10] @ d @ [13, 10]"

lemma parse_bulk_frame:
  assumes "int (length d) \<le> MAX_BULK_LEN"
  shows "parse_bulk (pre @ bulk_frame d @ rest) (length pre) = Inr (d, length pre + length (bulk_frame d))"
proof -
  let ?ds = "dec_digits (length d)"
  let ?buf = "pre @ bulk_frame d @ rest"
  let ?j = "length pre + length ?ds + 2"
  have line: "?buf = pre @ (36 # ?ds @ [13]) @ 10 # (d @ [13, 10] @ rest)" by (simp add: bulk_frame_def)
  have j: "scan_nl ?buf (length pre) = Some ?j"
    unfolding line by (subst scan_nl_after) (auto simp: nl_not_digit)
  have cr: "?buf ! (?j - 1) = 13" by (simp add: line nth_append)
  have sl: "sub_slice (length pre + 1) (?j - 1) ?buf = ?ds"
    using sub_slice_mid [of "pre @ [36]" "length pre + 1" "?j - 1" ?ds "[13, 10] @ d @ [13, 10] @ rest"]
    by (simp add: bulk_frame_def)
  have count: "parse_count MAX_BULK_LEN ?ds = Some (length d)"
    using assms by (intro parse_count_dec) (simp_all add: MAX_BULK_LEN_def)
  have "length ?buf = ?j + 1 + length d + 2 + length rest" by (simp add: bulk_frame_def)
  moreover have "?buf ! (?j + 1 + length d) = 13" "?buf ! (?j + 1 + length d + 1) = 10"
    by (simp_all add: line nth_append)
  moreover have "sub_slice (?j + 1) (?j + 1 + length d) ?buf = d"
    using sub_slice_mid [of "pre @ 36 # ?ds @ [13, 10]" "?j + 1" "?j + 1 + length d" d "[13, 10] @ rest"]
    by (simp add: bulk_frame_def)
  moreover have "?buf ! length pre = 36" "length pre \<noteq> length ?buf" by (simp_all add: line)
  ultimately show ?thesis
    unfolding parse_bulk_def j option.case cr sl count Let_def by (simp add: bulk_frame_def)
qed


section \<open>Whole requests\<close>

lemma parse_bulks_bound:
  "parse_bulks left buf i args = Complete as n \<Longrightarrow> i \<le> n \<and> (i \<le> length buf \<longrightarrow> n \<le> length buf)"
proof (induction left buf i args rule: parse_bulks.induct)
  case (2 left buf i args)
  then obtain arg i' where b: "parse_bulk buf i = Inr (arg, i')"
    by (auto simp: parse_bulk_def protocol_error_def Let_def split: sum.splits if_splits option.splits)
  then have "parse_bulks left buf i' (args @ [arg]) = Complete as n" using "2.prems" by simp
  from "2.IH" [OF b refl this] parse_bulk_bound [OF b] show ?case by simp
qed simp

lemma parse_bulks_more:
  "parse_bulks left buf i args \<noteq> Incomplete \<Longrightarrow> i \<le> length buf \<Longrightarrow>
   parse_bulks left (buf @ more) i args = parse_bulks left buf i args"
proof (induction left buf i args rule: parse_bulks.induct)
  case (2 left buf i args)
  then have "parse_bulk buf i \<noteq> Inl Incomplete" by auto
  from parse_bulk_more [OF refl this \<open>i \<le> length buf\<close>]
  have eq: "parse_bulk (buf @ more) i = parse_bulk buf i" .
  show ?case
  proof (cases "parse_bulk buf i")
    case (Inl r)
    then show ?thesis by (simp add: eq)
  next
    case (Inr p)
    obtain arg i' where p: "p = (arg, i')" by (cases p)
    with 2 Inr parse_bulk_bound [of buf i arg i'] show ?thesis by (simp add: eq)
  qed
qed simp

lemma parse_multibulk_cases:
  assumes "parse_multibulk buf = r" "r \<noteq> Incomplete" "buf \<noteq> []"
  shows "parse_multibulk (buf @ more) = r" and "r = Complete args n \<Longrightarrow> 0 < n \<and> n \<le> length buf"
proof -
  obtain i where i: "scan_nl buf 1 = Some i"
    using assms by (cases "scan_nl buf 1") (auto simp: parse_multibulk_def)
  note ib = scan_nl_Some [OF i]
  have one: "1 \<le> length buf" using assms(3) by (cases buf) auto
  have more: "scan_nl (buf @ more) 1 = Some i" using scan_nl_more [OF i one] .
  have at: "(buf @ more) ! (i - 1) = buf ! (i - 1)" "sub_slice 1 (i - 1) (buf @ more) = sub_slice 1 (i - 1) buf"
    using ib by (auto simp: nth_append sub_slice_more)
  have stable: "parse_bulks c (buf @ more) (i + 1) [] = parse_bulks c buf (i + 1) []"
    if "parse_bulks c buf (i + 1) [] \<noteq> Incomplete" for c
    using parse_bulks_more [OF that, of more] ib by simp
  show "parse_multibulk (buf @ more) = r"
    using assms(1,2) stable unfolding parse_multibulk_def i more option.case at
    by (auto split: if_splits option.splits)
  assume "r = Complete args n"
  then obtain c where "parse_bulks c buf (i + 1) [] = Complete args n"
    using assms(1) unfolding parse_multibulk_def i
    by (auto simp: protocol_error_def split: if_splits option.splits)
  with parse_bulks_bound [OF this] ib show "0 < n \<and> n \<le> length buf" by simp
qed

lemma parse_telnet_complete:
  assumes "parse_telnet buf = Complete args n"
  shows "parse_telnet (buf @ more) = Complete args n" "0 < n" "n \<le> length buf"
proof -
  obtain nl where nl: "position (\<lambda>b. b = 10) buf = Some nl"
    using assms by (cases "position (\<lambda>b. b = 10) buf") (auto simp: parse_telnet_def protocol_error_def split: if_splits)
  then have b: "nl < length buf" by (simp add: position_Some_iff)
  have "position (\<lambda>b. b = 10) (buf @ more) = Some nl" by (simp add: position_append nl)
  moreover have "(buf @ more) ! (nl - 1) = buf ! (nl - 1)" "take (nl - 1) (buf @ more) = take (nl - 1) buf"
    "take nl (buf @ more) = take nl buf"
    using b less_imp_diff_less [OF b, of 1] by (simp_all add: nth_append)
  ultimately show "parse_telnet (buf @ more) = Complete args n"
    using assms unfolding parse_telnet_def nl by (simp only: option.case)
  show "0 < n" "n \<le> length buf"
    using assms b by (auto simp: parse_telnet_def nl protocol_error_def Let_def split: option.splits)
qed

lemma parse_command_complete:
  assumes "parse_command buf = Complete args n"
  shows "parse_command (buf @ more) = Complete args n" "0 < n" "n \<le> length buf"
proof -
  have ne: "buf \<noteq> []" using assms by (auto simp: parse_command_def)
  then have hd: "(buf @ more) ! 0 = buf ! 0" by (simp add: nth_append)
  show "parse_command (buf @ more) = Complete args n" "0 < n" "n \<le> length buf"
    using assms ne hd parse_multibulk_cases(1) [of buf "Complete args n" more]
      parse_multibulk_cases(2) [of buf "Complete args n" args n]
      parse_telnet_complete(1) [of buf args n more] parse_telnet_complete(2,3) [of buf args n]
    by (auto simp: parse_command_def protocol_error_def split: if_splits)
qed

lemma foldl_frames: "foldl (\<lambda>buf a. buf @ bulk_frame a) acc args = acc @ concat (map bulk_frame args)"
  by (induction args arbitrary: acc) auto

lemma send_command_eq:
  "send_command args = 42 # dec_digits (length args) @ [13, 10] @ concat (map bulk_frame args)"
  using foldl_frames by (simp add: send_command_def bulk_frame_def)

lemma parse_bulks_frames:
  assumes "\<forall>a \<in> set args. int (length a) \<le> MAX_BULK_LEN"
  shows "parse_bulks (length args) (pre @ concat (map bulk_frame args) @ rest) (length pre) acc =
    Complete (acc @ args) (length pre + length (concat (map bulk_frame args)))"
  using assms
proof (induction args arbitrary: pre acc)
  case (Cons a args)
  have "parse_bulk (pre @ concat (map bulk_frame (a # args)) @ rest) (length pre) =
      Inr (a, length (pre @ bulk_frame a))"
    using parse_bulk_frame [of a pre "concat (map bulk_frame args) @ rest"] Cons.prems by simp
  then show ?case using Cons.IH [of "pre @ bulk_frame a" "acc @ [a]"] Cons.prems by simp
qed simp

lemma parse_send_command:
  assumes "int (length args) \<le> MAX_MULTIBULK_COUNT" "\<forall>a \<in> set args. int (length a) \<le> MAX_BULK_LEN"
  shows "parse_command (send_command args @ rest) = Complete args (length (send_command args))"
proof -
  let ?ds = "dec_digits (length args)" and ?frames = "concat (map bulk_frame args)"
  let ?buf = "send_command args @ rest" and ?i = "length (dec_digits (length args)) + 2"
  have line: "?buf = [42] @ (?ds @ [13]) @ 10 # (?frames @ rest)" by (simp add: send_command_eq)
  have nl: "scan_nl ?buf 1 = Some ?i"
    unfolding line using scan_nl_after [of "?ds @ [13]" "[42]"] by (simp add: nl_not_digit)
  have cr: "?buf ! (?i - 1) = 13" by (simp add: line nth_append)
  have sl: "sub_slice 1 (?i - 1) ?buf = ?ds"
    using sub_slice_mid [of "[42]" 1 "?i - 1" ?ds "[13, 10] @ ?frames @ rest"] by (simp add: line)
  have count: "parse_count MAX_MULTIBULK_COUNT ?ds = Some (length args)"
    using assms(1) by (intro parse_count_dec) (simp_all add: MAX_MULTIBULK_COUNT_def)
  have "parse_bulks (length args) ?buf (?i + 1) [] = Complete args (length (send_command args))"
    using parse_bulks_frames [OF assms(2), of "42 # ?ds @ [13, 10]" rest "[]"] by (simp add: send_command_eq)
  moreover have "parse_command ?buf = parse_multibulk ?buf" by (simp add: parse_command_def line)
  ultimately show ?thesis unfolding parse_multibulk_def nl option.case cr sl count by simp
qed


section \<open>Quoted words of an inline request\<close>

definition escape_byte :: "u8 \<Rightarrow> bytes" where
  "escape_byte c =
     (if c = 34 \<or> c = 92 then [92, c] else if c = 10 then [92, 110] else if c = 13 then [92, 114] else [c])"

definition quote_word :: "bytes \<Rightarrow> bytes" where
  "quote_word w = 34 # concat (map escape_byte w) @ [34]"

lemma telnet_scan_quoted:
  assumes "line = [] \<or> line ! 0 = 32"
  shows "telnet_scan first (Some 34) False nline (concat (map escape_byte w) @ 34 # line) =
    QuoteCloses (nline @ w) line"
  using assms
proof (induction w arbitrary: nline first)
  case (Cons c w)
  then show ?case by (auto simp: escape_byte_def unescape_def)
qed auto

text \<open>The words of a line, each after a space but the first.\<close>
fun quote_line :: "bytes list \<Rightarrow> bytes" where
  "quote_line [] = []"
| "quote_line [w] = quote_word w"
| "quote_line (w # ws) = quote_word w @ 32 # quote_line ws"

lemma telnet_open_quote: "telnet_loop (34 # line) args None = telnet_loop line args (Some 34)"
  by (subst telnet_loop.simps) simp

lemma telnet_skip_space: "telnet_loop (32 # line) args None = telnet_loop line args None"
  by (subst telnet_loop.simps) simp

lemma telnet_close_quote:
  assumes "line = [] \<or> line ! 0 = 32"
  shows "telnet_loop (quote_word w @ line) args None = telnet_loop line (args @ [w]) None"
proof -
  have "telnet_loop (quote_word w @ line) args None =
      telnet_loop (concat (map escape_byte w) @ 34 # line) args (Some 34)"
    by (simp add: quote_word_def telnet_open_quote)
  also have "\<dots> = telnet_loop line (args @ [w]) None"
    using telnet_scan_quoted [OF assms, of True "[]" w] by (subst telnet_loop.simps) simp
  finally show ?thesis .
qed

lemma telnet_loop_quote_line: "telnet_loop (quote_line ws) args None = Some (args @ ws)"
proof (induction ws arbitrary: args rule: quote_line.induct)
  case 1
  then show ?case by (subst telnet_loop.simps) simp
next
  case (2 w)
  have "telnet_loop [] (args @ [w]) None = Some (args @ [w])" by (subst telnet_loop.simps) simp
  then show ?case using telnet_close_quote [of "[]" w args] by simp
next
  case (3 w v ws)
  then show ?case
    using telnet_close_quote [of "32 # quote_line (v # ws)" w args] by (simp add: telnet_skip_space)
qed

lemma escape_byte_line: "b \<in> set (escape_byte c) \<Longrightarrow> b \<noteq> 10 \<and> b \<noteq> 13"
  by (auto simp: escape_byte_def split: if_splits)

lemma quote_line_bytes: "b \<in> set (quote_line ws) \<Longrightarrow> b \<noteq> 10 \<and> b \<noteq> 13"
  by (induction ws rule: quote_line.induct) (auto simp: quote_word_def dest: escape_byte_line)

section \<open>Properties\<close>

text \<open>C29: A command framed by \<open>send_command\<close> is parsed back to exactly its arguments, consuming exactly
  the frame whatever follows it, and no strict prefix of the frame is taken for a command or for an
  error: the parser waits for the rest.\<close>
theorem send_parse_roundtrip:
  assumes "int (length args) \<le> MAX_MULTIBULK_COUNT" "\<forall>a \<in> set args. int (length a) \<le> MAX_BULK_LEN"
    and "k < length (send_command args)"
  shows "parse_command (send_command args @ rest) = Complete args (length (send_command args)) \<and>
    parse_command (take k (send_command args)) = Incomplete"
proof -
  let ?f = "send_command args"
  have whole: "parse_command (take k ?f @ drop k ?f) = Complete args (length ?f)"
    using parse_send_command [OF assms(1,2), of "[]"] by simp
  have "parse_command (take k ?f) = Incomplete"
  proof (cases "take k ?f = []")
    case False
    then have hd: "take k ?f ! 0 = 42" by (cases k) (auto simp: send_command_eq)
    then have multi: "parse_command (take k ?f) = parse_multibulk (take k ?f)"
      using False by (simp add: parse_command_def)
    have multi': "parse_multibulk (take k ?f @ drop k ?f) = Complete args (length ?f)"
      using whole hd False by (simp add: parse_command_def nth_append split: if_splits)
    show ?thesis
    proof (rule ccontr)
      assume "parse_command (take k ?f) \<noteq> Incomplete"
      then have ne: "parse_multibulk (take k ?f) \<noteq> Incomplete" by (simp add: multi)
      have "parse_multibulk (take k ?f) = Complete args (length ?f)"
        using parse_multibulk_cases(1) [OF refl ne False, of "drop k ?f"] multi' by simp
      then show False using parse_multibulk_cases(2) [OF _ _ False] assms(3) by fastforce
    qed
  qed (simp add: parse_command_def)
  then show ?thesis using parse_send_command [OF assms(1,2)] by blast
qed

theorem send_parse_roundtrip_witness:
  "parse_command (take 7 (send_command [ascii ''GET'', []])) = Incomplete"
proof -
  have "length (send_command [ascii ''GET'', []]) = 19"
    by (simp add: send_command_def ascii_def dec_digits.simps)
  then show ?thesis
    using send_parse_roundtrip [of "[ascii ''GET'', []]" 7 "[]"]
    by (simp add: MAX_MULTIBULK_COUNT_def MAX_BULK_LEN_def ascii_def)
qed

text \<open>C36: An answer of the parser is final: bytes that arrive later change neither a completed command
  nor what it consumed, which is at least one byte and never more than was received.\<close>
theorem parse_complete_final:
  assumes "parse_command buf = Complete args n"
  shows "parse_command (buf @ more) = Complete args n \<and> 0 < n \<and> n \<le> length buf"
  using parse_command_complete [OF assms] by blast

theorem parse_complete_final_witness:
  "parse_command (ascii ''PING'' @ [10] @ [42]) = Complete [ascii ''PING''] 5"
proof -
  have "parse_command (ascii ''PING'' @ [10]) = Complete [ascii ''PING''] 5"
    by (simp add: parse_command_def parse_telnet_def ascii_def telnet_loop.simps Let_def)
  from parse_complete_final [OF this, of "[42]"] show ?thesis by simp
qed

text \<open>In an inline request every byte string can be sent as a quoted word: a line of quoted words,
  with quotes, backslashes and line breaks escaped, is parsed back to exactly the words.\<close>
theorem inline_quoted_roundtrip:
  assumes "ws \<noteq> []"
  shows "parse_command (quote_line ws @ [13, 10] @ rest) = Complete ws (length (quote_line ws) + 2)"
proof -
  let ?l = "quote_line ws"
  have first: "(?l @ [13, 10] @ rest) ! 0 = 34" "?l \<noteq> []"
    using assms by (cases ws rule: quote_line.cases; simp add: quote_word_def)+
  have "position (\<lambda>b. b = 10) ?l = None" using quote_line_bytes by (auto simp: position_None_iff)
  then have "position (\<lambda>b. b = 10) (?l @ [13, 10] @ rest) = Some (length ?l + 1)"
    by (simp add: position_append)
  moreover have "(?l @ [13, 10] @ rest) ! length ?l = 13" by (simp add: nth_append)
  ultimately have "parse_telnet (?l @ [13, 10] @ rest) = Complete ws (length ?l + 2)"
    using telnet_loop_quote_line [of ws "[]"] by (simp add: parse_telnet_def)
  then show ?thesis using first by (simp add: parse_command_def)
qed

theorem inline_quoted_roundtrip_witness:
  "parse_command (quote_line [[10, 34], []] @ [13, 10]) = Complete [[10, 34], []] 11"
  using inline_quoted_roundtrip [of "[[10, 34], []]" "[]"] by (simp add: quote_word_def escape_byte_def)

end
