(* ===== verification/Rdb_Tx.thy ===== *)
theory Rdb_Tx
  imports Rdb_Keys Rdb_Resp
begin

text \<open>
  Transactions and command dispatch: the per-connection \<open>MULTI\<close>/\<open>WATCH\<close> state of
  \<^verbatim>\<open>src/tx/session.rs\<close>, queue-time key extraction (\<^verbatim>\<open>src/tx/keyspec.rs\<close>), the
  fingerprint of a watched key (\<^verbatim>\<open>src/tx/watch.rs\<close>), the \<open>EXEC\<close> engine
  (\<^verbatim>\<open>src/tx/exec.rs\<close>), the transaction handlers (\<^verbatim>\<open>src/command/tx_cmd.rs\<close>) and the
  dispatch pipeline of \<^verbatim>\<open>src/command/mod.rs\<close> with its routing and read-only gates.

  Command names are compared with ASCII literals only, so a name is the list of its bytes as
  characters; the Unicode conversions of the standard library are the argument \<open>tf\<close>.  The
  handlers of the other commands are the argument \<open>other\<close>: a handler maps its context to the
  context after it and to the text of its panic, if any.  The hash function of \<open>DefaultHasher\<close> is
  the argument \<open>finish\<close> on the sequence of values fed to it.
\<close>

section \<open>Key extraction (keyspec.rs)\<close>

definition name_of :: "bytes \<Rightarrow> string" where
  "name_of b = map (\<lambda>c. char_of (unat c)) b"

definition to_ascii_lowercase :: "bytes \<Rightarrow> bytes" where
  "to_ascii_lowercase b = map (\<lambda>c. if 65 \<le> c \<and> c \<le> 90 then c + 32 else c) b"

text \<open>\<open>str::parse::<usize>\<close>: an optional plus sign, digits, no overflow of 64 bits.\<close>
definition parse_usize :: "bytes \<Rightarrow> nat option" where
  "parse_usize b =
     (let ds = (case b of c # cs \<Rightarrow> if c = 43 then cs else b | [] \<Rightarrow> b) in
      if ds \<noteq> [] \<and> list_all is_ascii_digit ds \<and> dec_val ds < 2 ^ 64 then Some (dec_val ds) else None)"

datatype shape =
  ShapeNone | ShapeFirst | ShapeAll | ShapeEven | ShapeFirstTwo | ShapeSecond | ShapeZStore | ShapeSkip1 | ShapeNumKeys

definition shape_of :: "string \<Rightarrow> shape" where
  "shape_of cmd =
     (if cmd \<in> {''ping'', ''quit'', ''config'', ''cluster'', ''raft'', ''migrate'', ''scan'', ''keys'',
        ''randomkey'', ''xread'', ''xreadgroup'', ''command'', ''info'', ''dbsize'', ''echo'',
        ''select'', ''flushdb''} then ShapeNone
      else if cmd = ''bitop'' then ShapeSkip1
      else if cmd \<in> {''sintercard'', ''lmpop''} then ShapeNumKeys
      else if cmd \<in> {''xgroup'', ''xinfo'', ''xpick'', ''xack''} then ShapeSecond
      else if cmd \<in> {''xpending'', ''xclaim'', ''xautoclaim''} then ShapeFirst
      else if cmd \<in> {''rename'', ''renamenx'', ''smove'', ''lmove'', ''blmove'', ''rpoplpush'', ''brpoplpush''}
      then ShapeFirstTwo
      else if cmd = ''mset'' then ShapeEven
      else if cmd \<in> {''del'', ''unlink'', ''exists'', ''mget'', ''smismember'', ''sdiff'', ''sinter'', ''sunion'',
        ''sdiffstore'', ''sinterstore'', ''sunionstore''} then ShapeAll
      else if cmd \<in> {''zunionstore'', ''zinterstore'', ''zdiffstore''} then ShapeZStore
      else ShapeFirst)"

text \<open>The first of every chunk of two.\<close>
fun even_args :: "'a list \<Rightarrow> 'a list" where
  "even_args (k # v # rest) = k # even_args rest"
| "even_args [k] = [k]"
| "even_args [] = []"

definition keys_of :: "string \<Rightarrow> bytes list \<Rightarrow> bytes list" where
  "keys_of cmd args =
     (case shape_of cmd of
        ShapeNone \<Rightarrow> []
      | ShapeFirst \<Rightarrow> (case first_of args of Some k \<Rightarrow> [k] | None \<Rightarrow> [])
      | ShapeAll \<Rightarrow> args
      | ShapeEven \<Rightarrow> even_args args
      | ShapeFirstTwo \<Rightarrow> take 2 args
      | ShapeSecond \<Rightarrow> (case get_at 1 args of Some k \<Rightarrow> [k] | None \<Rightarrow> [])
      | ShapeSkip1 \<Rightarrow> drop 1 args
      | ShapeNumKeys \<Rightarrow>
          (case parse_usize (case first_of args of Some v \<Rightarrow> v | None \<Rightarrow> []) of
             None \<Rightarrow> []
           | Some numkeys \<Rightarrow> take numkeys (drop 1 args))
      | ShapeZStore \<Rightarrow>
          (case first_of args of
             None \<Rightarrow> []
           | Some dest \<Rightarrow>
               (case parse_usize (case get_at 1 args of Some v \<Rightarrow> v | None \<Rightarrow> []) of
                  None \<Rightarrow> [dest]
                | Some numkeys \<Rightarrow> dest # take numkeys (drop 2 args))))"

definition may_block :: "string \<Rightarrow> bool" where
  "may_block cmd \<longleftrightarrow>
     cmd \<in> {''blpop'', ''brpop'', ''blmove'', ''brpoplpush'', ''bzpopmin'', ''bzpopmax'', ''xread'', ''xreadgroup''}"

section \<open>Connection state (session.rs)\<close>

record watch_entry =
  we_prefix :: bytes
  we_key :: bytes
  we_hash :: u64

record multi_state =
  ms_slot :: u16
  ms_slot_bound :: bool
  ms_queued :: "bytes list list"
  ms_dirty :: bool

definition multi_new :: multi_state where
  "multi_new = \<lparr>ms_slot = 0, ms_slot_bound = False, ms_queued = [], ms_dirty = False\<rparr>"

definition queued_keys :: "multi_state \<Rightarrow> bytes list" where
  "queued_keys m =
     concat (map (\<lambda>argv.
       keys_of (name_of (case first_of argv of Some v \<Rightarrow> to_ascii_lowercase v | None \<Rightarrow> []))
         (drop 1 argv)) (ms_queued m))"

record conn_state =
  cs_multi :: "multi_state option"
  cs_watches :: "watch_entry list"
  cs_asking :: bool

definition conn_default :: conn_state where
  "conn_default = \<lparr>cs_multi = None, cs_watches = [], cs_asking = False\<rparr>"

datatype queue_result = Queued | QueueRejected

definition in_multi :: "conn_state \<Rightarrow> bool" where
  "in_multi c \<longleftrightarrow> cs_multi c \<noteq> None"

definition is_dirty :: "conn_state \<Rightarrow> bool" where
  "is_dirty c = (case cs_multi c of Some m \<Rightarrow> ms_dirty m | None \<Rightarrow> False)"

definition mark_dirty :: "conn_state \<Rightarrow> conn_state" where
  "mark_dirty c = c\<lparr>cs_multi := map_option (\<lambda>m. m\<lparr>ms_dirty := True\<rparr>) (cs_multi c)\<rparr>"

text \<open>The \<open>for key in keys\<close> loop of \<open>queue\<close>: whether every key kept to the slot.\<close>
fun queue_slots :: "(bytes \<Rightarrow> u16) \<Rightarrow> bytes list \<Rightarrow> multi_state \<Rightarrow> bool \<times> multi_state" where
  "queue_slots slot_of [] m = (True, m)"
| "queue_slots slot_of (key # keys) m =
     (let slot = slot_of key;
          m = (if \<not> ms_slot_bound m then m\<lparr>ms_slot := slot, ms_slot_bound := True\<rparr> else m) in
      if slot \<noteq> ms_slot m then (False, m\<lparr>ms_dirty := True\<rparr>)
      else queue_slots slot_of keys m)"

definition queue_cmd ::
    "(bytes \<Rightarrow> u16) \<Rightarrow> bytes list \<Rightarrow> bytes list \<Rightarrow> conn_state \<Rightarrow> queue_result \<times> conn_state" where
  "queue_cmd slot_of argv keys c =
     (case cs_multi c of
        None \<Rightarrow> (QueueRejected, c)
      | Some m \<Rightarrow>
          (case queue_slots slot_of keys m of
             (False, m) \<Rightarrow> (QueueRejected, c\<lparr>cs_multi := Some m\<rparr>)
           | (True, m) \<Rightarrow> (Queued, c\<lparr>cs_multi := Some (m\<lparr>ms_queued := ms_queued m @ [argv]\<rparr>)\<rparr>)))"

definition reset_multi :: "conn_state \<Rightarrow> conn_state" where
  "reset_multi c = c\<lparr>cs_multi := None\<rparr>"

definition clear_watches :: "conn_state \<Rightarrow> conn_state" where
  "clear_watches c = c\<lparr>cs_watches := []\<rparr>"

section \<open>Fingerprint of a key (watch.rs)\<close>

text \<open>What is fed to the hasher.\<close>
datatype hash_input = Byte u8 | Bytes bytes | Text string

definition USER_KINDS :: "u8 list" where
  "USER_KINDS = map word_of_nat [1..<26]"

definition hash_visit :: "bytes \<Rightarrow> hash_input list visitor" where
  "hash_visit upper k v h =
     (if upper \<noteq> [] \<and> upper \<le> k then (False, h) else (True, h @ [Bytes k, Bytes v]))"

definition hash_kind :: "'db rocksdb \<Rightarrow> 'db \<Rightarrow> bytes \<Rightarrow> bytes \<Rightarrow> u8 \<Rightarrow> hash_input list \<Rightarrow> hash_input list" where
  "hash_kind R db pfx key kind h =
     (let h = h @ [Byte kind];
          lower = data_key pfx kind key;
          upper = (case key_upper_bound lower of Some u \<Rightarrow> u | None \<Rightarrow> []) in
      case for_each_from R db lower False (hash_visit upper) h of
        (Inl e, h) \<Rightarrow> h @ [Byte 0xFF, Text e]
      | (Inr _, h) \<Rightarrow> h)"

definition hash_inputs :: "'db rocksdb \<Rightarrow> 'db \<Rightarrow> bytes \<Rightarrow> bytes \<Rightarrow> hash_input list" where
  "hash_inputs R db pfx key =
     fold (hash_kind R db pfx key) USER_KINDS
       (case get_physical R db (string_key pfx key) of
          Inr (Some v) \<Rightarrow> [Byte 1, Bytes v]
        | _ \<Rightarrow> [Byte 0])"

definition value_hash ::
    "(hash_input list \<Rightarrow> u64) \<Rightarrow> 'db rocksdb \<Rightarrow> 'db \<Rightarrow> bytes \<Rightarrow> bytes \<Rightarrow> u64" where
  "value_hash finish R db pfx key = finish (hash_inputs R db pfx key)"

section \<open>Routing and gates\<close>

record server =
  sv_backup :: bool
  sv_tx_enabled :: bool
  sv_token :: bytes
  sv_host :: string
  sv_addrs :: "string list"
  sv_per_node_slots :: nat
  sv_owner_map :: "u16 \<rightharpoonup> string"
  sv_importing :: "u16 \<rightharpoonup> string"
  sv_migrating :: "u16 \<rightharpoonup> string"

definition is_whitelisted :: "string \<Rightarrow> bool" where
  "is_whitelisted cmd \<longleftrightarrow> cmd \<in> {
     ''ping'', ''quit'', ''command'', ''info'', ''dbsize'', ''echo'', ''select'', ''flushdb'',
     ''asking'', ''config'', ''cluster'', ''raft'', ''migrate'', ''scan'', ''keys'',
     ''randomkey'', ''xadd'', ''xlen'', ''xrange'', ''xrevrange'', ''xtrim'', ''xdel'',
     ''xidle'', ''xread'', ''xreadgroup'', ''xack'', ''xgroup'', ''xinfo'', ''xpick'',
     ''xpending'', ''xclaim'', ''xautoclaim'', ''multi'', ''exec'', ''discard'', ''unwatch''}"

text \<open>The read-only table of the backup listener.\<close>
definition ALLOWED :: "string list" where
  "ALLOWED = [
     ''ping'', ''quit'', ''echo'', ''select'', ''command'', ''info'', ''dbsize'', ''config'',
     ''asking'', ''get'', ''mget'', ''strlen'', ''getrange'', ''getbit'', ''bitcount'',
     ''bitpos'', ''exists'', ''type'', ''ttl'', ''pttl'', ''scan'', ''keys'', ''randomkey'',
     ''hget'', ''hmget'', ''hlen'', ''hexists'', ''hstrlen'', ''hgetall'', ''hkeys'', ''hvals'',
     ''hrandfield'', ''hscan'', ''smembers'', ''sismember'', ''smismember'', ''scard'',
     ''srandmember'', ''sscan'', ''sdiff'', ''sinter'', ''sunion'', ''sintercard'', ''lindex'',
     ''llen'', ''lrange'', ''lpos'', ''zcard'', ''zscore'', ''zmscore'', ''zcount'', ''zrank'',
     ''zrevrank'', ''zrandmember'', ''zrange'', ''zrevrange'', ''zrangebyscore'',
     ''zrevrangebyscore'', ''zrangebylex'', ''zrevrangebylex'', ''zlexcount'', ''zscan'',
     ''xlen'', ''xrange'', ''xrevrange'', ''xinfo'', ''xpending'', ''xread'', ''vcard'',
     ''vdim'', ''vgetattr'', ''vsim'', ''json.get'', ''json.mget'', ''json.type'',
     ''json.strlen'', ''json.arrindex'', ''json.arrlen'', ''json.objkeys'', ''json.objlen'',
     ''ft.info'', ''ft.search'', ''multi'', ''exec'', ''discard'', ''watch'', ''unwatch'']"

definition allowed :: "string \<Rightarrow> bool" where
  "allowed cmd \<longleftrightarrow> cmd \<in> set ALLOWED"

definition READONLY_ERROR :: bytes where
  "READONLY_ERROR = ascii ''READONLY You can't write against a read only replica.''"

definition moved_error_line :: "u16 \<Rightarrow> string \<Rightarrow> bytes" where
  "moved_error_line slot addr = ascii ''MOVED '' @ dec_digits (unat slot) @ [32] @ ascii addr"

definition key_present :: "'db rocksdb \<Rightarrow> u16 \<Rightarrow> bytes \<Rightarrow> u64 \<Rightarrow> 'db shared \<Rightarrow> bool \<times> 'db shared" where
  "key_present R slot key now sh =
     (case resolve_arc R (slot_prefix slot) key now sh of (st, sh) \<Rightarrow> (is_present st, sh))"

definition redirect_line ::
    "'db rocksdb \<Rightarrow> server \<Rightarrow> u64 \<Rightarrow> u16 \<Rightarrow> bytes \<Rightarrow> bool \<Rightarrow> 'db shared \<Rightarrow> bytes option \<times> 'db shared" where
  "redirect_line R sv now slot key asking sh =
     (case sv_importing sv slot of
        Some src \<Rightarrow> (if \<not> asking then (Some (moved_error_line slot src), sh) else (None, sh))
      | None \<Rightarrow>
          (case route_with_owners slot (sv_addrs sv) (sv_per_node_slots sv) (sv_host sv) (sv_owner_map sv) of
             Moved slot addr \<Rightarrow> (Some (moved_error_line slot addr), sh)
           | Local \<Rightarrow>
               (case sv_migrating sv slot of
                  Some dst \<Rightarrow>
                    (case key_present R slot key now sh of
                       (False, sh) \<Rightarrow> (Some (ascii ''ASK '' @ dec_digits (unat slot) @ [32] @ ascii dst), sh)
                     | (True, sh) \<Rightarrow> (None, sh))
                | None \<Rightarrow> (None, sh))))"

definition arity_error :: "bytes \<Rightarrow> string \<Rightarrow> bytes" where
  "arity_error out cmd =
     append_error out (ascii (''ERR wrong number of arguments for '' @ [CHR 0x27] @ cmd @ [CHR 0x27] @ '' command''))"

section \<open>Dispatch (mod.rs)\<close>

text \<open>
  \<open>String::from_utf8_lossy\<close> and its lower-case form; the context of a handler; and what dispatch
  keeps between commands.
\<close>
record text_fns =
  tf_lossy :: "bytes \<Rightarrow> bytes"
  tf_lower :: "bytes \<Rightarrow> string"

record 'db ctx =
  cx_shared :: "'db shared"
  cx_prefix :: bytes
  cx_args :: "bytes list"
  cx_out :: bytes
  cx_close :: bool
  cx_conn :: conn_state
  cx_wrote :: bool

definition commit :: "'db rocksdb \<Rightarrow> write_batch \<Rightarrow> 'db ctx \<Rightarrow> unit result \<times> 'db ctx" where
  "commit R batch ctx =
     (case batch_write R (sh_store (cx_shared ctx)) batch of
        (r, db) \<Rightarrow> (r, ctx\<lparr>cx_wrote := True, cx_shared := (cx_shared ctx)\<lparr>sh_store := db\<rparr>\<rparr>))"

record 'db dstate =
  ds_shared :: "'db shared"
  ds_conn :: conn_state
  ds_out :: bytes
  ds_close :: bool

type_synonym 'db handler = "'db ctx \<Rightarrow> string option \<times> 'db ctx"

text \<open>The names of the handler table.\<close>
definition COMMANDS :: "string list" where
  "COMMANDS = [
     ''ping'', ''quit'', ''asking'', ''restore'', ''get'', ''set'', ''incr'', ''decr'',
     ''incrby'', ''decrby'', ''incrbyfloat'', ''append'', ''strlen'', ''getset'', ''setnx'',
     ''setex'', ''psetex'', ''getdel'', ''setrange'', ''getrange'', ''setbit'', ''getbit'',
     ''bitcount'', ''bitpos'', ''bitop'', ''command'', ''info'', ''dbsize'', ''echo'',
     ''select'', ''flushdb'', ''del'', ''unlink'', ''exists'', ''type'', ''expire'', ''pexpire'',
     ''expireat'', ''pexpireat'', ''ttl'', ''pttl'', ''persist'', ''scan'', ''keys'',
     ''randomkey'', ''rename'', ''renamenx'', ''hset'', ''hmset'', ''hsetnx'', ''hget'',
     ''hmget'', ''hdel'', ''hlen'', ''hexists'', ''hstrlen'', ''hgetall'', ''hkeys'', ''hvals'',
     ''hincrby'', ''hincrbyfloat'', ''hrandfield'', ''hscan'', ''sadd'', ''srem'', ''smembers'',
     ''sismember'', ''smismember'', ''scard'', ''spop'', ''srandmember'', ''smove'', ''sscan'',
     ''sdiff'', ''sdiffstore'', ''sinter'', ''sinterstore'', ''sunion'', ''sintercard'',
     ''sunionstore'', ''mget'', ''mset'', ''config'', ''cluster'', ''raft'', ''migrate'',
     ''xadd'', ''xlen'', ''xrange'', ''xrevrange'', ''xtrim'', ''xdel'', ''xidle'', ''xread'',
     ''xreadgroup'', ''xack'', ''xgroup'', ''xinfo'', ''xpending'', ''xclaim'', ''xautoclaim'',
     ''xpick'', ''blpop'', ''blmove'', ''brpop'', ''brpoplpush'', ''lindex'', ''linsert'',
     ''llen'', ''lmove'', ''lpop'', ''lpos'', ''lmpop'', ''lpush'', ''lpushx'', ''lrange'',
     ''lrem'', ''lset'', ''ltrim'', ''rpop'', ''rpoplpush'', ''rpush'', ''rpushx'', ''zadd'',
     ''zincrby'', ''zcard'', ''zscore'', ''zmscore'', ''zcount'', ''zrank'', ''zrevrank'',
     ''zrandmember'', ''zrem'', ''zpopmin'', ''zpopmax'', ''zrange'', ''zrevrange'',
     ''zrangebyscore'', ''zrevrangebyscore'', ''zrangebylex'', ''zrevrangebylex'', ''zlexcount'',
     ''zremrangebyrank'', ''zremrangebyscore'', ''zremrangebylex'', ''zscan'', ''zunionstore'',
     ''zinterstore'', ''zdiffstore'', ''bzpopmin'', ''bzpopmax'', ''json.set'', ''json.get'',
     ''json.del'', ''json.forget'', ''json.type'', ''json.mget'', ''json.strappend'',
     ''json.strlen'', ''json.numincrby'', ''json.arrappend'', ''json.arrpop'', ''json.arrindex'',
     ''json.arrinsert'', ''json.arrlen'', ''json.arrtrim'', ''json.objkeys'', ''json.objlen'',
     ''vadd'', ''vrem'', ''vcard'', ''vdim'', ''vsetattr'', ''vgetattr'', ''vsim'',
     ''ft.create'', ''ft.add'', ''ft.del'', ''ft.drop'', ''ft.dropindex'', ''ft.build'',
     ''ft.info'', ''ft.search'', ''multi'', ''exec'', ''discard'', ''watch'', ''unwatch'']"

definition dispatch ::
    "(string \<Rightarrow> 'db handler option) \<Rightarrow> text_fns \<Rightarrow> 'db rocksdb \<Rightarrow> server \<Rightarrow> u64 \<Rightarrow>
     bytes list \<Rightarrow> 'db dstate \<Rightarrow> bool \<times> 'db dstate" where
  "dispatch table tf R sv now argv d =
     (let raw0 = tf_lossy tf (argv ! 0); first = tf_lower tf (argv ! 0) in
      case table first of
        None \<Rightarrow>
          (False, d\<lparr>ds_out := append_error (ds_out d)
             (ascii (''ERR unknown command '' @ [CHR 0x27]) @ raw0 @ [39])\<rparr>)
      | Some handler \<Rightarrow>
          if sv_backup sv \<and> \<not> allowed first then
            (False, d\<lparr>ds_out := append_error (ds_out d) READONLY_ERROR\<rparr>)
          else
            (let key_idx = routing_key_index first;
                 run = (\<lambda>pfx d.
                   (case handler \<lparr>cx_shared = ds_shared d, cx_prefix = pfx, cx_args = drop 1 argv,
                       cx_out = ds_out d, cx_close = False, cx_conn = ds_conn d, cx_wrote = False\<rparr> of
                      (panicked, ctx) \<Rightarrow>
                        (let out = (case panicked of
                             Some payload \<Rightarrow> append_error (cx_out ctx) (ascii (''fatal error: '' @ payload))
                           | None \<Rightarrow> cx_out ctx) in
                         (cx_wrote ctx,
                          \<lparr>ds_shared = cx_shared ctx, ds_conn = cx_conn ctx, ds_out = out,
                           ds_close = (ds_close d \<or> panicked \<noteq> None \<or> cx_close ctx)\<rparr>)))) in
             if is_whitelisted first then run [] d
             else if length argv < key_idx + 1 then (False, d\<lparr>ds_out := arity_error (ds_out d) first\<rparr>)
             else
               (let (slot, pfx) = slot_with_prefix (hash_tag (argv ! key_idx));
                    asking = cs_asking (ds_conn d);
                    d = d\<lparr>ds_conn := (ds_conn d)\<lparr>cs_asking := False\<rparr>\<rparr> in
                case redirect_line R sv now slot (argv ! key_idx) asking (ds_shared d) of
                  (Some line, sh) \<Rightarrow> (False, d\<lparr>ds_shared := sh, ds_out := append_error (ds_out d) line\<rparr>)
                | (None, sh) \<Rightarrow> run pfx (d\<lparr>ds_shared := sh\<rparr>))))"

section \<open>Transaction handlers and the EXEC engine (tx_cmd.rs, exec.rs)\<close>

definition multi_cmd :: "server \<Rightarrow> 'db handler" where
  "multi_cmd sv ctx =
     (if \<not> sv_tx_enabled sv then
        (None, ctx\<lparr>cx_out := append_error (cx_out ctx) (ascii ''ERR transactions are disabled'')\<rparr>)
      else if cs_multi (cx_conn ctx) \<noteq> None then
        (None, ctx\<lparr>cx_conn := mark_dirty (cx_conn ctx),
           cx_out := append_error (cx_out ctx) (ascii ''ERR MULTI calls can not be nested'')\<rparr>)
      else
        (None, ctx\<lparr>cx_conn := (cx_conn ctx)\<lparr>cs_multi := Some multi_new\<rparr>,
           cx_out := append_string (cx_out ctx) (ascii ''OK'')\<rparr>))"

definition discard_cmd :: "'db handler" where
  "discard_cmd ctx =
     (if cs_multi (cx_conn ctx) = None then
        (None, ctx\<lparr>cx_out := append_error (cx_out ctx) (ascii ''ERR DISCARD without MULTI'')\<rparr>)
      else
        (None, ctx\<lparr>cx_conn := clear_watches (reset_multi (cx_conn ctx)),
           cx_out := append_string (cx_out ctx) (ascii ''OK'')\<rparr>))"

definition watch_cmd :: "(hash_input list \<Rightarrow> u64) \<Rightarrow> 'db rocksdb \<Rightarrow> 'db handler" where
  "watch_cmd finish R ctx =
     (if cs_multi (cx_conn ctx) \<noteq> None then
        (None, ctx\<lparr>cx_conn := mark_dirty (cx_conn ctx),
           cx_out := append_error (cx_out ctx) (ascii ''ERR WATCH inside MULTI is not allowed'')\<rparr>)
      else if cx_args ctx = [] then
        (None, ctx\<lparr>cx_out := arity_error (cx_out ctx) ''watch''\<rparr>)
      else
        (None, ctx\<lparr>cx_conn := (cx_conn ctx)\<lparr>cs_watches := cs_watches (cx_conn ctx) @
             map (\<lambda>key. \<lparr>we_prefix = cx_prefix ctx, we_key = key,
               we_hash = value_hash finish R (sh_store (cx_shared ctx)) (cx_prefix ctx) key\<rparr>) (cx_args ctx)\<rparr>,
           cx_out := append_string (cx_out ctx) (ascii ''OK'')\<rparr>))"

definition unwatch_cmd :: "'db handler" where
  "unwatch_cmd ctx =
     (None, ctx\<lparr>cx_conn := clear_watches (cx_conn ctx), cx_out := append_string (cx_out ctx) (ascii ''OK'')\<rparr>)"

definition asking_cmd :: "'db handler" where
  "asking_cmd ctx =
     (None, ctx\<lparr>cx_conn := (cx_conn ctx)\<lparr>cs_asking := True\<rparr>, cx_out := append_string (cx_out ctx) (ascii ''OK'')\<rparr>)"

definition EXECABORT :: bytes where
  "EXECABORT = ascii ''EXECABORT Transaction discarded because of previous errors.''"

text \<open>The latches \<open>EXEC\<close> takes, in the order it takes them.\<close>
definition exec_latches :: "multi_state \<Rightarrow> bytes list" where
  "exec_latches m = sorted_list_of_set (set (map (latch_key (slot_prefix (ms_slot m))) (queued_keys m)))"

definition conflicted :: "(hash_input list \<Rightarrow> u64) \<Rightarrow> 'db rocksdb \<Rightarrow> 'db \<Rightarrow> watch_entry list \<Rightarrow> bool" where
  "conflicted finish R db watches \<longleftrightarrow>
     list_ex (\<lambda>w. value_hash finish R db (we_prefix w) (we_key w) \<noteq> we_hash w) watches"

text \<open>The replay of the queue through dispatch, replies going to \<open>ds_out\<close>.\<close>
definition replay :: "(bytes list \<Rightarrow> 'db dstate \<Rightarrow> bool \<times> 'db dstate) \<Rightarrow> bytes list list \<Rightarrow> 'db dstate \<Rightarrow> 'db dstate" where
  "replay disp queued d = fold (\<lambda>argv d. snd (disp argv d)) queued d"

definition exec_run ::
    "(hash_input list \<Rightarrow> u64) \<Rightarrow> 'db rocksdb \<Rightarrow> (bytes list \<Rightarrow> 'db dstate \<Rightarrow> bool \<times> 'db dstate) \<Rightarrow>
     'db dstate \<Rightarrow> 'db dstate" where
  "exec_run finish R disp d =
     (case cs_multi (ds_conn d) of
        None \<Rightarrow> d\<lparr>ds_out := append_error (ds_out d) (ascii ''ERR EXEC without MULTI'')\<rparr>
      | Some m \<Rightarrow>
          (let conn = (ds_conn d)\<lparr>cs_multi := None\<rparr> in
           if ms_dirty m then
             d\<lparr>ds_out := append_error (ds_out d) EXECABORT, ds_conn := clear_watches conn\<rparr>
           else if ms_queued m = [] then
             d\<lparr>ds_out := append_array (ds_out d) 0, ds_conn := clear_watches conn\<rparr>
           else if cs_watches conn \<noteq> [] \<and> conflicted finish R (sh_store (ds_shared d)) (cs_watches conn) then
             d\<lparr>ds_out := ds_out d @ ascii ''*-1'' @ [13, 10], ds_conn := clear_watches conn\<rparr>
           else
             (let header_at = length (ds_out d);
                  d' = replay disp (ms_queued m) (d\<lparr>ds_conn := conn\<rparr>);
                  header = [42] @ dec_digits (length (ms_queued m)) @ [13, 10] in
              d'\<lparr>ds_out := take header_at (ds_out d') @ header @ drop header_at (ds_out d'),
                 ds_conn := clear_watches (ds_conn d')\<rparr>)))"

definition exec_cmd ::
    "(hash_input list \<Rightarrow> u64) \<Rightarrow> 'db rocksdb \<Rightarrow> (bytes list \<Rightarrow> 'db dstate \<Rightarrow> bool \<times> 'db dstate) \<Rightarrow> 'db handler" where
  "exec_cmd finish R disp ctx =
     (if cs_multi (cx_conn ctx) = None then
        (None, ctx\<lparr>cx_out := append_error (cx_out ctx) (ascii ''ERR EXEC without MULTI'')\<rparr>)
      else
        (let d = exec_run finish R disp \<lparr>ds_shared = cx_shared ctx, ds_conn = cx_conn ctx, ds_out = cx_out ctx,
                   ds_close = cx_close ctx\<rparr> in
         (None, ctx\<lparr>cx_shared := ds_shared d, cx_conn := ds_conn d, cx_out := ds_out d, cx_close := ds_close d\<rparr>)))"

text \<open>The handler table: the connection-state handlers, and \<open>other\<close> for the rest.\<close>
definition table_with ::
    "'db handler \<Rightarrow> (hash_input list \<Rightarrow> u64) \<Rightarrow> 'db rocksdb \<Rightarrow> server \<Rightarrow> (string \<Rightarrow> 'db handler) \<Rightarrow>
     string \<Rightarrow> 'db handler option" where
  "table_with exec finish R sv other name =
     (if name = ''multi'' then Some (multi_cmd sv)
      else if name = ''exec'' then Some exec
      else if name = ''discard'' then Some discard_cmd
      else if name = ''watch'' then Some (watch_cmd finish R)
      else if name = ''unwatch'' then Some unwatch_cmd
      else if name = ''asking'' then Some asking_cmd
      else if name \<in> set COMMANDS then Some (other name)
      else None)"

text \<open>
  Replayed commands are dispatched through the same table.  A queue never holds \<open>exec\<close> itself, so
  the handler it would run during a replay is left to \<open>other\<close>.
\<close>
definition replay_dispatch ::
    "(hash_input list \<Rightarrow> u64) \<Rightarrow> text_fns \<Rightarrow> 'db rocksdb \<Rightarrow> server \<Rightarrow> (string \<Rightarrow> 'db handler) \<Rightarrow> u64 \<Rightarrow>
     bytes list \<Rightarrow> 'db dstate \<Rightarrow> bool \<times> 'db dstate" where
  "replay_dispatch finish tf R sv other now =
     dispatch (table_with (other ''exec'') finish R sv other) tf R sv now"

definition run_command ::
    "(hash_input list \<Rightarrow> u64) \<Rightarrow> text_fns \<Rightarrow> 'db rocksdb \<Rightarrow> server \<Rightarrow> (string \<Rightarrow> 'db handler) \<Rightarrow> u64 \<Rightarrow>
     bytes list \<Rightarrow> 'db dstate \<Rightarrow> bool \<times> 'db dstate" where
  "run_command finish tf R sv other now =
     dispatch (table_with (exec_cmd finish R (replay_dispatch finish tf R sv other now)) finish R sv other)
       tf R sv now"

section \<open>The fingerprint sees every record\<close>

fun kv_inputs :: "kv list \<Rightarrow> hash_input list" where
  "kv_inputs [] = []"
| "kv_inputs ((k, v) # kvs) = Bytes k # Bytes v # kv_inputs kvs"

lemma kv_inputs_inject [simp]: "kv_inputs xs = kv_inputs ys \<longleftrightarrow> xs = ys"
proof (induction xs arbitrary: ys)
  case Nil
  then show ?case by (cases ys rule: kv_inputs.cases) auto
next
  case (Cons x xs)
  then show ?case by (cases x; cases ys rule: kv_inputs.cases) auto
qed

definition is_bytes :: "hash_input \<Rightarrow> bool" where
  "is_bytes x = (case x of Bytes _ \<Rightarrow> True | _ \<Rightarrow> False)"

lemma takeWhile_kv_inputs: "rest = [] \<or> \<not> is_bytes (rest ! 0) \<Longrightarrow> takeWhile is_bytes (kv_inputs kvs @ rest) = kv_inputs kvs"
  by (induction kvs rule: kv_inputs.induct; cases rest) (auto simp: is_bytes_def)

lemma kind_blocks_inject:
  "concat (map (\<lambda>k. Byte k # kv_inputs (f k)) ks) = concat (map (\<lambda>k. Byte k # kv_inputs (g k)) ks) \<Longrightarrow>
   \<forall>k \<in> set ks. f k = g k"
proof (induction ks)
  case (Cons k ks)
  let ?rest = "\<lambda>f. concat (map (\<lambda>k. Byte k # kv_inputs (f k)) ks)"
  have start: "?rest f = [] \<or> \<not> is_bytes (?rest f ! 0)" for f by (cases ks) (auto simp: is_bytes_def)
  have eq: "kv_inputs (f k) @ ?rest f = kv_inputs (g k) @ ?rest g" using Cons.prems by simp
  have "kv_inputs (f k) = kv_inputs (g k)"
    using arg_cong [OF eq, of "takeWhile is_bytes"] by (simp only: takeWhile_kv_inputs [OF start])
  then have "f k = g k" "?rest f = ?rest g" using eq by simp_all
  then show ?case using Cons.IH by simp
qed simp

context healthy_rocksdb
begin

lemma hash_kind_eq:
  assumes "bounded_prefix pfx"
  shows "hash_kind R db pfx key kind h =
    h @ Byte kind # kv_inputs (entries (content db) (Sublist.prefix (data_key pfx kind key)))"
proof -
  let ?lower = "data_key pfx kind key"
  have "key_upper_bound ?lower \<noteq> None"
    using assms unfolding key_upper_bound_None_iff by (auto simp: bounded_prefix_def data_key_def)
  then obtain u where u: "key_upper_bound ?lower = Some u" by blast
  then have ne: "u \<noteq> []" using key_upper_bound_Some_nonempty by blast
  have win: "?lower \<le> k \<and> k < u \<longleftrightarrow> Sublist.prefix ?lower k" for k
    using key_upper_bound_in [of ?lower k] by (auto simp: u below_def)
  let ?kvs = "entries (content db) (\<lambda>k. ?lower \<le> k)"
  have "visit ?kvs (hash_visit u) h' = fold (\<lambda>(k, v) h. h @ [Bytes k, Bytes v]) (filter (\<lambda>(k, _). k < u) ?kvs) h'" for h'
    by (rule visit_window [where r = "(\<le>)"]) (auto simp: hash_visit_def ne)
  moreover have "fold (\<lambda>(k, v) h. h @ [Bytes k, Bytes v]) kvs h' = h' @ kv_inputs kvs" for kvs h'
    by (induction kvs arbitrary: h' rule: kv_inputs.induct) auto
  moreover have "filter (\<lambda>(k, _). k < u) ?kvs = entries (content db) (Sublist.prefix ?lower)"
    unfolding filter_entries [OF finite_dom] by (rule entries_cong) (rule win)
  ultimately show ?thesis by (simp add: hash_kind_def u for_each_from_visit)
qed

lemma hash_inputs_eq:
  assumes "bounded_prefix pfx"
  shows "hash_inputs R db pfx key =
    (case content db (string_key pfx key) of Some v \<Rightarrow> [Byte 1, Bytes v] | None \<Rightarrow> [Byte 0]) @
    concat (map (\<lambda>kind. Byte kind # kv_inputs (entries (content db) (Sublist.prefix (data_key pfx kind key)))) USER_KINDS)"
proof -
  have "fold (hash_kind R db pfx key) kinds h = h @
      concat (map (\<lambda>kind. Byte kind # kv_inputs (entries (content db) (Sublist.prefix (data_key pfx kind key)))) kinds)"
    for kinds h
    by (induction kinds arbitrary: h) (auto simp: hash_kind_eq [OF assms])
  then show ?thesis by (simp add: hash_inputs_def get_physical_def split: option.splits)
qed

end

lemma entries_prefix_cong:
  assumes "finite (dom m)" "finite (dom m')"
  shows "entries m (Sublist.prefix p) = entries m' (Sublist.prefix p) \<longleftrightarrow> (\<forall>s. m (p @ s) = m' (p @ s))"
proof
  assume eq: "entries m (Sublist.prefix p) = entries m' (Sublist.prefix p)"
  then have "(p @ s, v) \<in> set (entries m (Sublist.prefix p)) \<longleftrightarrow>
      (p @ s, v) \<in> set (entries m' (Sublist.prefix p))" for s v
    by simp
  then have "m (p @ s) = Some v \<longleftrightarrow> m' (p @ s) = Some v" for s v
    by (simp add: set_entries assms)
  then show "\<forall>s. m (p @ s) = m' (p @ s)" by (metis not_Some_eq)
next
  assume eq: "\<forall>s. m (p @ s) = m' (p @ s)"
  then have "{k \<in> dom m. Sublist.prefix p k} = {k \<in> dom m'. Sublist.prefix p k}"
    by (auto simp: prefix_def)
  then show "entries m (Sublist.prefix p) = entries m' (Sublist.prefix p)"
    using eq assms by (auto simp: entries_def prefix_def)
qed


lemma USER_KINDS_iff: "kind \<in> set USER_KINDS \<longleftrightarrow> KIND_STRING_TTL \<le> kind \<and> kind \<le> KIND_SEARCH_NUMVAL"
proof -
  have "kind \<in> set USER_KINDS \<longleftrightarrow> (\<exists>n \<in> {1..<26}. kind = word_of_nat n)" by (auto simp: USER_KINDS_def)
  also have "\<dots> \<longleftrightarrow> 1 \<le> unat kind \<and> unat kind < 26"
    by (auto simp: unat_of_nat intro!: bexI [of _ "unat kind"])
  also have "\<dots> \<longleftrightarrow> KIND_STRING_TTL \<le> kind \<and> kind \<le> KIND_SEARCH_NUMVAL"
    by (auto simp: kind_simps word_le_nat_alt)
  finally show ?thesis .
qed

section \<open>Queueing\<close>

definition is_tx_control :: "string \<Rightarrow> bool" where
  "is_tx_control first \<longleftrightarrow> first \<in> {''multi'', ''exec'', ''discard'', ''watch'', ''unwatch''}"

text \<open>What a queue holds: commands that passed the queue-time checks, all on the slot of the transaction.\<close>
definition queued_ok :: "server \<Rightarrow> text_fns \<Rightarrow> multi_state \<Rightarrow> bool" where
  "queued_ok sv tf m \<longleftrightarrow>
     (\<forall>argv \<in> set (ms_queued m). argv \<noteq> [] \<and>
        (let name = tf_lower tf (argv ! 0) in
         name \<in> set COMMANDS \<and> \<not> is_tx_control name \<and> \<not> may_block name \<and> (sv_backup sv \<longrightarrow> allowed name) \<and>
         (\<forall>k \<in> set (keys_of name (drop 1 argv)).
            ms_slot_bound m \<and> fst (slot_with_prefix (hash_tag k)) = ms_slot m)))"

definition conn_ok :: "server \<Rightarrow> text_fns \<Rightarrow> conn_state \<Rightarrow> bool" where
  "conn_ok sv tf c = (case cs_multi c of None \<Rightarrow> True | Some m \<Rightarrow> queued_ok sv tf m)"

lemma queue_slots_frame:
  "queue_slots slot_of keys m = (ok, m') \<Longrightarrow>
   ms_queued m' = ms_queued m \<and> (ms_slot_bound m \<longrightarrow> ms_slot_bound m' \<and> ms_slot m' = ms_slot m) \<and>
   (ok \<longrightarrow> ms_dirty m' = ms_dirty m \<and> (\<forall>k \<in> set keys. ms_slot_bound m' \<and> slot_of k = ms_slot m')) \<and>
   (\<not> ok \<longrightarrow> ms_dirty m')"
proof (induction slot_of keys m rule: queue_slots.induct)
  case (2 slot_of key keys m)
  let ?m = "if \<not> ms_slot_bound m then m\<lparr>ms_slot := slot_of key, ms_slot_bound := True\<rparr> else m"
  show ?case
  proof (cases "slot_of key = ms_slot ?m")
    case False
    then show ?thesis using "2.prems" by (auto simp: Let_def split: if_splits)
  next
    case True
    then have "queue_slots slot_of keys ?m = (ok, m')" using "2.prems" by (simp add: Let_def)
    from "2.IH" [OF refl refl _ this] True show ?thesis by (auto split: if_splits)
  qed
qed simp

lemma conn_ok_simps [simp]:
  "conn_ok sv tf (mark_dirty c) = conn_ok sv tf c"
  "conn_ok sv tf (clear_watches c) = conn_ok sv tf c"
  "conn_ok sv tf (reset_multi c)"
  "conn_ok sv tf (c\<lparr>cs_asking := b\<rparr>) = conn_ok sv tf c"
  "conn_ok sv tf (c\<lparr>cs_watches := ws\<rparr>) = conn_ok sv tf c"
  "conn_ok sv tf (c\<lparr>cs_multi := Some multi_new\<rparr>)"
  "conn_ok sv tf (c\<lparr>cs_multi := None\<rparr>)"
  "conn_ok sv tf conn_default"
  by (auto simp: conn_ok_def mark_dirty_def clear_watches_def reset_multi_def conn_default_def queued_ok_def
      multi_new_def split: option.splits)

lemma queue_cmd_ok:
  assumes "conn_ok sv tf c" "argv \<noteq> []" "name = tf_lower tf (argv ! 0)"
    and "name \<in> set COMMANDS" "\<not> is_tx_control name" "\<not> may_block name" "sv_backup sv \<longrightarrow> allowed name"
  shows "conn_ok sv tf (snd (queue_cmd (\<lambda>k. fst (slot_with_prefix (hash_tag k))) argv
    (keys_of name (drop 1 argv)) c))"
proof (cases "cs_multi c")
  case (Some m)
  let ?keys = "keys_of name (drop 1 argv)" and ?slot = "\<lambda>k. fst (slot_with_prefix (hash_tag k))"
  obtain ok m' where q: "queue_slots ?slot ?keys m = (ok, m')" by fastforce
  note frame = queue_slots_frame [OF q]
  have old: "queued_ok sv tf m" using assms(1) Some by (simp add: conn_ok_def)
  then have "queued_ok sv tf m'" using frame by (auto simp: queued_ok_def Let_def)
  moreover have "queued_ok sv tf (m'\<lparr>ms_queued := ms_queued m' @ [argv]\<rparr>)" if ok
    using calculation frame that assms(2-) by (auto simp: queued_ok_def Let_def)
  ultimately show ?thesis using Some by (cases ok) (simp_all add: queue_cmd_def q [simplified] conn_ok_def)
qed (simp add: queue_cmd_def conn_ok_def)

section \<open>What a watch sees\<close>

text \<open>C22: What \<open>WATCH\<close> feeds its fingerprint determines the state of the key and nothing else: on a
  healthy engine two stores give the same input exactly when they agree on the key's raw record and
  on every record whose bytes start with the key of one of the kinds 0x01 to 0x19.  So any change,
  removal or addition of a field, member, element, score, TTL envelope or header of a watched key
  reaches the hasher, and a store that differs only under other kinds or other slots does not.\<close>
theorem watch_sees_every_record:
  assumes "healthy_rocksdb R content"
  shows "hash_inputs R db (slot_prefix s) key = hash_inputs R db' (slot_prefix s) key \<longleftrightarrow>
    content db (string_key (slot_prefix s) key) = content db' (string_key (slot_prefix s) key) \<and>
    (\<forall>kind tail. KIND_STRING_TTL \<le> kind \<and> kind \<le> KIND_SEARCH_NUMVAL \<longrightarrow>
      content db (data_key (slot_prefix s) kind key @ tail) = content db' (data_key (slot_prefix s) kind key @ tail))"
proof -
  let ?p = "\<lambda>kind. data_key (slot_prefix s) kind key"
  let ?es = "\<lambda>db kind. entries (content db) (Sublist.prefix (?p kind))"
  let ?blocks = "\<lambda>db. concat (map (\<lambda>kind. Byte kind # kv_inputs (?es db kind)) USER_KINDS)"
  let ?raw = "\<lambda>db. content db (string_key (slot_prefix s) key)"
  have fin: "finite (dom (content db))" for db
    by (rule rocksdb_engine.finite_content [OF healthy_rocksdb.axioms(1) [OF assms]])
  note hin = healthy_rocksdb.hash_inputs_eq [OF assms bounded_slot_prefix]
  obtain x xs where ks: "USER_KINDS = x # xs" by (cases USER_KINDS) (simp_all add: USER_KINDS_def)
  have "hash_inputs R db (slot_prefix s) key = hash_inputs R db' (slot_prefix s) key \<longleftrightarrow>
      ?raw db = ?raw db' \<and> ?blocks db = ?blocks db'"
    unfolding hin by (cases "?raw db"; cases "?raw db'") (auto simp: ks)
  also have "?blocks db = ?blocks db' \<longleftrightarrow> (\<forall>kind \<in> set USER_KINDS. ?es db kind = ?es db' kind)"
  proof
    assume "\<forall>kind \<in> set USER_KINDS. ?es db kind = ?es db' kind"
    then have "map (\<lambda>kind. Byte kind # kv_inputs (?es db kind)) USER_KINDS =
        map (\<lambda>kind. Byte kind # kv_inputs (?es db' kind)) USER_KINDS" by simp
    then show "?blocks db = ?blocks db'" by (rule arg_cong)
  qed (rule kind_blocks_inject)
  finally show ?thesis
    unfolding entries_prefix_cong [OF fin fin] by (auto simp: USER_KINDS_iff)
qed

theorem watch_sees_every_record_witness:
  "hash_inputs mem_rocksdb [(data_key (slot_prefix 7) KIND_HASH_FLD [107] @ [102], [1])] (slot_prefix 7) [107] \<noteq>
   hash_inputs mem_rocksdb [(data_key (slot_prefix 7) KIND_HASH_FLD [107] @ [102], [2])] (slot_prefix 7) [107]"
proof -
  let ?k = "data_key (slot_prefix 7) KIND_HASH_FLD [107]"
  have "KIND_STRING_TTL \<le> KIND_HASH_FLD \<and> KIND_HASH_FLD \<le> KIND_SEARCH_NUMVAL"
    by (simp add: kind_simps)
  moreover have "map_of [(?k @ [102], [1 :: u8])] (?k @ [102]) \<noteq> map_of [(?k @ [102], [2])] (?k @ [102])" by simp
  ultimately show ?thesis
    using watch_sees_every_record [OF mem.healthy_rocksdb_axioms] by blast
qed

end
