(* ===== verification/Rdb_Conn.thy ===== *)
theory Rdb_Conn
  imports Rdb_Tx
begin

text \<open>
  The connection of \<^verbatim>\<open>src/resp/conn.rs\<close>: the authentication gate, queueing inside
  \<open>MULTI\<close>, and the read loop that parses and runs every complete command it has received.  A read
  is an event with the bytes it returned; socket writes append to \<open>cn_sent\<close> and succeed (a failed
  write ends the connection task at once, with nothing left to observe).
\<close>

section \<open>Limits and the token check\<close>

definition MAX_CONN_BUF :: nat where
  "MAX_CONN_BUF = 1024 * 1024 * 1024"

definition PREAUTH_MAX_BUF :: nat where
  "PREAUTH_MAX_BUF = 64 * 1024"

definition OUT_FLUSH_THRESHOLD :: nat where
  "OUT_FLUSH_THRESHOLD = 64 * 1024"

definition exceeds_conn_cap :: "nat \<Rightarrow> bool" where
  "exceeds_conn_cap len \<longleftrightarrow> len > MAX_CONN_BUF"

definition exceeds_preauth_cap :: "nat \<Rightarrow> bool" where
  "exceeds_preauth_cap len \<longleftrightarrow> len > PREAUTH_MAX_BUF"

text \<open>Elapsed time in seconds.\<close>
definition preauth_expired :: "bool \<Rightarrow> nat \<Rightarrow> bool" where
  "preauth_expired authed elapsed \<longleftrightarrow> \<not> authed \<and> elapsed \<ge> 30"

definition ct_eq :: "bytes \<Rightarrow> bytes \<Rightarrow> bool" where
  "ct_eq a b =
     (let (short, long) = (if length a < length b then (a, b) else (b, a));
          diff = fold (\<lambda>(i, byte) diff. diff OR (byte XOR (case get_at i short of Some x \<Rightarrow> x | None \<Rightarrow> 0)))
            (enumerate 0 long) 0 in
      length a = length b \<and> diff = 0)"

section \<open>One command\<close>

record 'db conn =
  cn_d :: "'db dstate"
  cn_authed :: bool
  cn_buf :: bytes
  cn_sent :: bytes
  cn_open :: bool

definition queue_command ::
    "text_fns \<Rightarrow> 'db rocksdb \<Rightarrow> server \<Rightarrow> u64 \<Rightarrow> bytes list \<Rightarrow> 'db dstate \<Rightarrow> 'db dstate" where
  "queue_command tf R sv now argv d =
     (let first = tf_lower tf (argv ! 0); raw0 = tf_lossy tf (argv ! 0);
          reject = (\<lambda>text d. d\<lparr>ds_out := append_error (ds_out d) text, ds_conn := mark_dirty (ds_conn d)\<rparr>);
          key_idx = routing_key_index first;
          enqueue = (\<lambda>d.
            (case queue_cmd (\<lambda>key. fst (slot_with_prefix (hash_tag key))) argv
                (keys_of first (drop 1 argv)) (ds_conn d) of
               (Queued, conn) \<Rightarrow> d\<lparr>ds_conn := conn, ds_out := append_string (ds_out d) (ascii ''QUEUED'')\<rparr>
             | (QueueRejected, conn) \<Rightarrow> d\<lparr>ds_conn := conn, ds_out := append_error (ds_out d) CROSSSLOT_ERROR\<rparr>)) in
      if first \<notin> set COMMANDS then
        reject (ascii (''ERR unknown command '' @ [CHR 0x27]) @ raw0 @ [39]) d
      else if may_block first \<or> first = ''migrate'' \<or> first = ''raft'' then
        reject (ascii (''ERR command '' @ [CHR 0x27] @ first @ [CHR 0x27] @ '' is not allowed in transactions'')) d
      else if sv_backup sv \<and> \<not> allowed first then reject READONLY_ERROR d
      else if is_whitelisted first then enqueue d
      else if length argv < key_idx + 1 then
        d\<lparr>ds_out := arity_error (ds_out d) first, ds_conn := mark_dirty (ds_conn d)\<rparr>
      else
        (case redirect_line R sv now (fst (slot_with_prefix (hash_tag (argv ! key_idx)))) (argv ! key_idx)
            (cs_asking (ds_conn d)) (ds_shared d) of
           (Some line, sh) \<Rightarrow> reject line (d\<lparr>ds_shared := sh\<rparr>)
         | (None, sh) \<Rightarrow> enqueue (d\<lparr>ds_shared := sh\<rparr>)))"

definition process_command ::
    "(hash_input list \<Rightarrow> u64) \<Rightarrow> text_fns \<Rightarrow> 'db rocksdb \<Rightarrow> server \<Rightarrow> (string \<Rightarrow> 'db handler) \<Rightarrow> u64 \<Rightarrow>
     bytes list \<Rightarrow> bool \<times> 'db dstate \<Rightarrow> bool \<times> 'db dstate" where
  "process_command finish tf R sv other now argv s =
     (let (authed, d) = s in
      if argv = [] then (authed, d\<lparr>ds_out := arity_error (ds_out d) []\<rparr>)
      else if \<not> authed then
        (if length argv = 2 \<and> (argv ! 0 = ascii ''AUTH'' \<or> argv ! 0 = ascii ''auth'') \<and> ct_eq (argv ! 1) (sv_token sv)
         then (True, d\<lparr>ds_out := append_string (ds_out d) (ascii ''OK'')\<rparr>)
         else (authed, d\<lparr>ds_out := append_error (ds_out d) (ascii ''ERR: NOAUTH'')\<rparr>))
      else if in_multi (ds_conn d) \<and> \<not> is_tx_control (tf_lower tf (argv ! 0)) then
        (authed, queue_command tf R sv now argv d)
      else
        (let (wrote, d) = run_command finish tf R sv other now argv d in
         (authed, if wrote \<and> \<not> in_multi (ds_conn d) then d\<lparr>ds_conn := clear_watches (ds_conn d)\<rparr> else d)))"

section \<open>The read loop\<close>

definition flush :: "'db conn \<Rightarrow> 'db conn" where
  "flush c = c\<lparr>cn_sent := cn_sent c @ ds_out (cn_d c), cn_d := (cn_d c)\<lparr>ds_out := []\<rparr>\<rparr>"

text \<open>One command of the drain loop, from the flush before a blocking command to the threshold flush.\<close>
definition drain_command ::
    "(bytes list \<Rightarrow> bool \<times> 'db dstate \<Rightarrow> bool \<times> 'db dstate) \<Rightarrow> text_fns \<Rightarrow> bytes list \<Rightarrow> nat \<Rightarrow> 'db conn \<Rightarrow> 'db conn" where
  "drain_command proc tf args n c =
     (let c = c\<lparr>cn_buf := drop n (cn_buf c)\<rparr>;
          c = (if (case first_of args of Some a \<Rightarrow> may_block (tf_lower tf a) | None \<Rightarrow> False) \<and> ds_out (cn_d c) \<noteq> []
               then flush c else c);
          (authed, d) = proc args (cn_authed c, cn_d c);
          c = c\<lparr>cn_authed := authed, cn_d := d\<rparr> in
      if \<not> ds_close d \<and> length (ds_out d) \<ge> OUT_FLUSH_THRESHOLD then flush c else c)"

lemma cn_buf_drain_command: "cn_buf (drain_command proc tf args n c) = drop n (cn_buf c)"
  by (simp add: drain_command_def flush_def Let_def split: prod.splits)

text \<open>The drain loop; the flag of the result is false when a protocol error ended the connection.\<close>
function drain ::
    "(bytes list \<Rightarrow> bool \<times> 'db dstate \<Rightarrow> bool \<times> 'db dstate) \<Rightarrow> text_fns \<Rightarrow> 'db conn \<Rightarrow> 'db conn" where
  "drain proc tf c =
     (case parse_command (cn_buf c) of
        Incomplete \<Rightarrow> c
      | ProtocolError msg _ \<Rightarrow>
          (flush (c\<lparr>cn_d := (cn_d c)\<lparr>ds_out := append_error (ds_out (cn_d c)) (ascii (''ERR '' @ msg))\<rparr>\<rparr>))\<lparr>cn_open := False\<rparr>
      | Complete args n \<Rightarrow>
          (let c' = drain_command proc tf args n c in
           if ds_close (cn_d c') then c' else drain proc tf c'))"
  by pat_completeness auto
termination
proof (relation "measure (\<lambda>(_, _, c). length (cn_buf c))", goal_cases)
  case (2 proc tf c args n c')
  then show ?case
    using parse_command_complete(2,3) [of "cn_buf c" args n] by (simp add: cn_buf_drain_command)
qed simp

declare drain.simps [simp del]

definition on_read ::
    "(bytes list \<Rightarrow> bool \<times> 'db dstate \<Rightarrow> bool \<times> 'db dstate) \<Rightarrow> text_fns \<Rightarrow> bytes \<Rightarrow> 'db conn \<Rightarrow> 'db conn" where
  "on_read proc tf chunk c =
     (if \<not> cn_open c then c
      else
        (let c = c\<lparr>cn_buf := cn_buf c @ chunk\<rparr> in
         if (if cn_authed c then exceeds_conn_cap (length (cn_buf c)) else exceeds_preauth_cap (length (cn_buf c))) then
           (flush (c\<lparr>cn_d := (cn_d c)\<lparr>ds_out := append_error (ds_out (cn_d c))
              (ascii ''ERR Protocol error: too big cumulative request'')\<rparr>\<rparr>))\<lparr>cn_open := False\<rparr>
         else
           (let c = drain proc tf c in
            if \<not> cn_open c then c
            else
              (let c = flush c in
               if ds_close (cn_d c) then c\<lparr>cn_open := False\<rparr> else c))))"

definition on_timeout :: "nat \<Rightarrow> 'db conn \<Rightarrow> 'db conn" where
  "on_timeout elapsed c =
     (if preauth_expired (cn_authed c) elapsed then
        (flush (c\<lparr>cn_d := (cn_d c)\<lparr>ds_out := append_error (ds_out (cn_d c))
           (ascii ''ERR unauthenticated connection timeout'')\<rparr>\<rparr>))\<lparr>cn_open := False\<rparr>
      else c\<lparr>cn_open := False\<rparr>)"

section \<open>The token check is equality\<close>

lemma fold_or_zero:
  "fold (\<lambda>(i, byte) diff. diff OR (byte XOR f i)) xs d = (0 :: u8) \<longleftrightarrow> d = 0 \<and> (\<forall>(i, byte) \<in> set xs. byte = f i)"
proof (induction xs arbitrary: d)
  case (Cons x xs)
  have "(d OR (b XOR c) = 0) = (d = 0 \<and> b = c)" for b c :: u8
    by (auto simp: or_eq_0_iff) (metis xor.right_neutral xor.assoc xor_self_eq xor.left_neutral)
  then show ?case using Cons by (auto split: prod.splits)
qed simp

lemma ct_eq_iff: "ct_eq a b \<longleftrightarrow> a = b"
proof (cases "length a = length b")
  case True
  have "(\<forall>(i, x) \<in> set (enumerate 0 a). x = (case get_at i b of Some y \<Rightarrow> y | None \<Rightarrow> 0)) \<longleftrightarrow> a = b"
  proof -
    have "set (enumerate 0 a) = (\<lambda>i. (i, a ! i)) ` {..<length a}"
      by (auto simp: in_set_enumerate_eq image_iff)
    then show ?thesis using True by (auto simp: get_at_def list_eq_iff_nth_eq)
  qed
  then show ?thesis using True fold_or_zero [of "\<lambda>i. case get_at i b of Some y \<Rightarrow> y | None \<Rightarrow> 0"]
    by (simp add: ct_eq_def)
qed (auto simp: ct_eq_def)

section \<open>The transaction state stays well formed\<close>

text \<open>What the command module states of the handlers other than the connection-state ones.\<close>
definition keeps_conn :: "(string \<Rightarrow> 'db handler) \<Rightarrow> bool" where
  "keeps_conn other \<longleftrightarrow> (\<forall>name ctx. cx_conn (snd (other name ctx)) = cx_conn ctx)"

text \<open>A dispatched command is refused with an error reply, or its handler runs.\<close>
lemma dispatch_cases:
  obtains (refused) r sh asking where
      "dispatch table tf R sv now argv d =
        (False, d\<lparr>ds_shared := sh, ds_conn := (ds_conn d)\<lparr>cs_asking := asking\<rparr>, ds_out := ds_out d @ r\<rparr>)"
    | (handled) h pfx sh asking panicked ctx r where
      "table (tf_lower tf (argv ! 0)) = Some h"
      "h \<lparr>cx_shared = sh, cx_prefix = pfx, cx_args = drop 1 argv, cx_out = ds_out d, cx_close = False,
          cx_conn = (ds_conn d)\<lparr>cs_asking := asking\<rparr>, cx_wrote = False\<rparr> = (panicked, ctx)"
      "dispatch table tf R sv now argv d =
        (cx_wrote ctx, \<lparr>ds_shared = cx_shared ctx, ds_conn = cx_conn ctx, ds_out = cx_out ctx @ r,
          ds_close = (ds_close d \<or> panicked \<noteq> None \<or> cx_close ctx)\<rparr>)"
proof -
  let ?first = "tf_lower tf (argv ! 0)"
  let ?key = "argv ! routing_key_index ?first"
  have same: "d = d\<lparr>ds_shared := ds_shared d, ds_conn := (ds_conn d)\<lparr>cs_asking := cs_asking (ds_conn d)\<rparr>\<rparr>"
    by simp
  have panic: "\<exists>r. (case panicked of Some payload \<Rightarrow> append_error out (ascii (''fatal error: '' @ payload)) | None \<Rightarrow> out)
      = out @ r" for panicked out
    by (auto simp: append_error_def split: option.splits)
  show ?thesis
  proof (cases "table ?first")
    case None
    then show ?thesis
      using refused [where sh = "ds_shared d" and asking = "cs_asking (ds_conn d)"] by (simp add: dispatch_def append_error_def)
  next
    case (Some h)
    obtain line sh where r: "redirect_line R sv now (fst (slot_with_prefix (hash_tag ?key))) ?key
        (cs_asking (ds_conn d)) (ds_shared d) = (line, sh)"
      by fastforce
    have run: thesis
      if "dispatch table tf R sv now argv d =
          (case h \<lparr>cx_shared = sh', cx_prefix = pfx, cx_args = drop 1 argv, cx_out = ds_out d, cx_close = False,
              cx_conn = (ds_conn d)\<lparr>cs_asking := asking\<rparr>, cx_wrote = False\<rparr> of
             (panicked, ctx) \<Rightarrow>
               (cx_wrote ctx, \<lparr>ds_shared = cx_shared ctx, ds_conn = cx_conn ctx,
                 ds_out = (case panicked of Some payload \<Rightarrow> append_error (cx_out ctx) (ascii (''fatal error: '' @ payload))
                   | None \<Rightarrow> cx_out ctx),
                 ds_close = (ds_close d \<or> panicked \<noteq> None \<or> cx_close ctx)\<rparr>))"
      for sh' pfx asking
    proof -
      obtain panicked ctx where h: "h \<lparr>cx_shared = sh', cx_prefix = pfx, cx_args = drop 1 argv, cx_out = ds_out d,
          cx_close = False, cx_conn = (ds_conn d)\<lparr>cs_asking := asking\<rparr>, cx_wrote = False\<rparr> = (panicked, ctx)"
        by fastforce
      obtain out where "(case panicked of Some payload \<Rightarrow> append_error (cx_out ctx) (ascii (''fatal error: '' @ payload))
          | None \<Rightarrow> cx_out ctx) = cx_out ctx @ out"
        using panic by blast
      then show thesis using handled [OF Some h] that h by simp
    qed
    consider "sv_backup sv \<and> \<not> allowed ?first"
      | "\<not> (sv_backup sv \<and> \<not> allowed ?first)" "is_whitelisted ?first"
      | "\<not> (sv_backup sv \<and> \<not> allowed ?first)" "\<not> is_whitelisted ?first" "length argv < routing_key_index ?first + 1"
      | "\<not> (sv_backup sv \<and> \<not> allowed ?first)" "\<not> is_whitelisted ?first" "\<not> length argv < routing_key_index ?first + 1"
      by blast
    then show ?thesis
    proof cases
      case 1
      then show ?thesis
        using refused [where sh = "ds_shared d" and asking = "cs_asking (ds_conn d)"] by (simp add: dispatch_def Some append_error_def)
    next
      case 2
      then show ?thesis
        by (intro run [of "ds_shared d" "[]" "cs_asking (ds_conn d)"]) (auto simp: dispatch_def Some Let_def)
    next
      case 3
      then show ?thesis
        using refused [where sh = "ds_shared d" and asking = "cs_asking (ds_conn d)"]
        by (auto simp: dispatch_def Some Let_def arity_error_def append_error_def)
    next
      case 4
      show ?thesis
      proof (cases line)
        case None
        then show ?thesis
          using 4 r by (intro run [of sh "snd (slot_with_prefix (hash_tag ?key))" False])
            (auto simp: dispatch_def Some Let_def case_prod_beta cong: option.case_cong)
      next
        case (Some l)
        then show ?thesis
          using 4 r \<open>table ?first = Some h\<close> refused [where sh = sh and asking = False and r = "[45] @ l @ [13, 10]"]
          by (auto simp: dispatch_def Let_def case_prod_beta append_error_def)
      qed
    qed
  qed
qed

lemma dispatch_conn_ok:
  assumes "\<And>name h ctx. table name = Some h \<Longrightarrow> conn_ok sv tf (cx_conn ctx) \<Longrightarrow> conn_ok sv tf (cx_conn (snd (h ctx)))"
    and "conn_ok sv tf (ds_conn d)"
  shows "conn_ok sv tf (ds_conn (snd (dispatch table tf R sv now argv d)))"
proof (cases rule: dispatch_cases [of table tf R sv now argv d])
  case (handled h pfx sh asking panicked ctx r)
  let ?ctx = "\<lparr>cx_shared = sh, cx_prefix = pfx, cx_args = drop 1 argv, cx_out = ds_out d, cx_close = False,
      cx_conn = (ds_conn d)\<lparr>cs_asking := asking\<rparr>, cx_wrote = False\<rparr>"
  have "conn_ok sv tf (cx_conn (snd (h ?ctx)))" by (rule assms(1) [OF handled(1)]) (use assms(2) in simp)
  then show ?thesis unfolding handled(2,3) by simp
qed (use assms(2) in simp)

lemma exec_run_conn_ok:
  assumes "\<And>argv d. conn_ok sv tf (ds_conn d) \<Longrightarrow> conn_ok sv tf (ds_conn (snd (disp argv d)))"
    and "conn_ok sv tf (ds_conn d)"
  shows "conn_ok sv tf (ds_conn (exec_run finish R disp d))"
proof -
  have "conn_ok sv tf (ds_conn d) \<Longrightarrow> conn_ok sv tf (ds_conn (replay disp queued d))" for queued d
    unfolding replay_def by (induction queued arbitrary: d) (auto simp: assms(1))
  then show ?thesis using assms(2) by (auto simp: exec_run_def Let_def split: option.splits)
qed

lemma table_conn_ok:
  assumes "keeps_conn other" "table_with exec finish R sv other name = Some h"
    and "\<And>ctx. conn_ok sv tf (cx_conn ctx) \<Longrightarrow> conn_ok sv tf (cx_conn (snd (exec ctx)))"
    and "conn_ok sv tf (cx_conn ctx)"
  shows "conn_ok sv tf (cx_conn (snd (h ctx)))"
  using assms by (auto simp: table_with_def keeps_conn_def multi_cmd_def discard_cmd_def watch_cmd_def
      unwatch_cmd_def asking_cmd_def split: if_splits)

lemma run_command_conn_ok:
  assumes "keeps_conn other" "conn_ok sv tf (ds_conn d)"
  shows "conn_ok sv tf (ds_conn (snd (run_command finish tf R sv other now argv d)))"
proof -
  have other_exec: "conn_ok sv tf (cx_conn ctx) \<Longrightarrow> conn_ok sv tf (cx_conn (snd (other ''exec'' ctx)))" for ctx
    using assms(1) by (simp add: keeps_conn_def)
  have replay: "conn_ok sv tf (ds_conn d) \<Longrightarrow>
      conn_ok sv tf (ds_conn (snd (replay_dispatch finish tf R sv other now argv d)))" for argv d
    unfolding replay_dispatch_def by (rule dispatch_conn_ok) (rule table_conn_ok [OF assms(1) _ other_exec])
  have exec: "conn_ok sv tf (cx_conn ctx) \<Longrightarrow>
      conn_ok sv tf (cx_conn (snd (exec_cmd finish R (replay_dispatch finish tf R sv other now) ctx)))" for ctx
    by (auto simp: exec_cmd_def Let_def intro!: exec_run_conn_ok replay)
  show ?thesis
    unfolding run_command_def using assms(2)
    by (rule dispatch_conn_ok [rotated]) (rule table_conn_ok [OF assms(1) _ exec])
qed

lemma queue_command_conn_ok:
  assumes "conn_ok sv tf (ds_conn d)" "argv \<noteq> []" "\<not> is_tx_control (tf_lower tf (argv ! 0))"
  shows "conn_ok sv tf (ds_conn (queue_command tf R sv now argv d))"
proof -
  let ?name = "tf_lower tf (argv ! 0)" and ?slot = "\<lambda>k. fst (slot_with_prefix (hash_tag k))"
  have q: "conn_ok sv tf c'"
    if "queue_cmd ?slot argv (keys_of ?name (drop 1 argv)) (ds_conn d) = (r, c')" "?name \<in> set COMMANDS"
      "\<not> may_block ?name" "sv_backup sv \<longrightarrow> allowed ?name" for r c'
    using queue_cmd_ok [OF assms(1,2) refl that(2) assms(3) that(3,4)] that(1) by simp
  show ?thesis
    using assms(1) q unfolding queue_command_def Let_def
    by (auto split: prod.splits option.splits queue_result.splits)
qed

lemma process_command_conn_ok:
  assumes "keeps_conn other" "conn_ok sv tf (ds_conn d)"
  shows "conn_ok sv tf (ds_conn (snd (process_command finish tf R sv other now argv (authed, d))))"
  using assms run_command_conn_ok [OF assms, of finish R now argv] queue_command_conn_ok [OF assms(2), of argv R now]
  by (auto simp: process_command_def Let_def split: prod.splits)

text \<open>The states a connection reaches, command by command.\<close>
inductive reachable ::
    "(hash_input list \<Rightarrow> u64) \<Rightarrow> text_fns \<Rightarrow> 'db rocksdb \<Rightarrow> server \<Rightarrow> (string \<Rightarrow> 'db handler) \<Rightarrow> bool \<times> 'db dstate \<Rightarrow> bool"
  for finish tf R sv other where
  connect: "reachable finish tf R sv other
    (False, \<lparr>ds_shared = sh, ds_conn = conn_default, ds_out = [], ds_close = False\<rparr>)"
| command: "reachable finish tf R sv other s \<Longrightarrow>
    reachable finish tf R sv other (process_command finish tf R sv other now argv s)"
| flushed: "reachable finish tf R sv other (authed, d) \<Longrightarrow> reachable finish tf R sv other (authed, d\<lparr>ds_out := []\<rparr>)"
| elsewhere: "reachable finish tf R sv other (authed, d) \<Longrightarrow>
    reachable finish tf R sv other (authed, d\<lparr>ds_shared := sh\<rparr>)"

lemma reachable_conn_ok:
  "reachable finish tf R sv other s \<Longrightarrow> keeps_conn other \<Longrightarrow> conn_ok sv tf (ds_conn (snd s))"
proof (induction rule: reachable.induct)
  case (command s now argv)
  then show ?case using process_command_conn_ok [of other sv tf "snd s" finish R now argv "fst s"] by simp
qed simp_all


section \<open>EXEC is the queued commands in a row\<close>

definition appends_only :: "(string \<Rightarrow> 'db handler) \<Rightarrow> bool" where
  "appends_only other \<longleftrightarrow> (\<forall>name ctx. \<exists>r. cx_out (snd (other name ctx)) = cx_out ctx @ r)"

lemma dispatch_cong:
  "table (tf_lower tf (argv ! 0)) = table' (tf_lower tf (argv ! 0)) \<Longrightarrow>
   dispatch table tf R sv now argv d = dispatch table' tf R sv now argv d"
  by (simp add: dispatch_def)

text \<open>A queued command keeps the transaction closed and only appends to the reply.\<close>
lemma queued_dispatch:
  assumes "keeps_conn other" "appends_only other" "\<not> is_tx_control (tf_lower tf (argv ! 0))"
  shows "\<exists>r. ds_out (snd (run_command finish tf R sv other now argv d)) = ds_out d @ r"
    and "cs_multi (ds_conn (snd (run_command finish tf R sv other now argv d))) = cs_multi (ds_conn d)"
    and "replay_dispatch finish tf R sv other now argv d = run_command finish tf R sv other now argv d"
proof -
  let ?name = "tf_lower tf (argv ! 0)"
  let ?exec = "exec_cmd finish R (replay_dispatch finish tf R sv other now)"
  have table: "table_with exec finish R sv other ?name =
      (if ?name = ''asking'' then Some asking_cmd else if ?name \<in> set COMMANDS then Some (other ?name) else None)" for exec
    using assms(3) by (auto simp: table_with_def is_tx_control_def)
  show "replay_dispatch finish tf R sv other now argv d = run_command finish tf R sv other now argv d"
    unfolding replay_dispatch_def run_command_def by (rule dispatch_cong) (simp add: table)
  let ?d' = "snd (run_command finish tf R sv other now argv d)"
  have "(\<exists>r. ds_out ?d' = ds_out d @ r) \<and> cs_multi (ds_conn ?d') = cs_multi (ds_conn d)"
  proof (cases rule: dispatch_cases [of "table_with ?exec finish R sv other" tf R sv now argv d])
    case (refused r sh asking)
    then show ?thesis by (simp add: run_command_def)
  next
    case (handled h pfx sh asking panicked ctx r)
    let ?ctx = "\<lparr>cx_shared = sh, cx_prefix = pfx, cx_args = drop 1 argv, cx_out = ds_out d, cx_close = False,
        cx_conn = (ds_conn d)\<lparr>cs_asking := asking\<rparr>, cx_wrote = False\<rparr>"
    have "(\<exists>r. cx_out (snd (h ?ctx)) = ds_out d @ r) \<and> cs_multi (cx_conn (snd (h ?ctx))) = cs_multi (ds_conn d)"
    proof (cases "?name = ''asking''")
      case True
      then have "h = asking_cmd" using handled(1) unfolding table by simp
      then show ?thesis by (simp add: asking_cmd_def append_string_def)
    next
      case False
      then have h: "h = other ?name" using handled(1) unfolding table by (simp split: if_splits)
      have "\<exists>r. cx_out (snd (other ?name ?ctx)) = cx_out ?ctx @ r" using assms(2) unfolding appends_only_def by blast
      moreover have "cx_conn (snd (other ?name ?ctx)) = cx_conn ?ctx" using assms(1) unfolding keeps_conn_def by blast
      ultimately show ?thesis by (simp add: h)
    qed
    then show ?thesis unfolding run_command_def handled(2,3) by auto
  qed
  then show "\<exists>r. ds_out ?d' = ds_out d @ r" "cs_multi (ds_conn ?d') = cs_multi (ds_conn d)" by blast+
qed

lemma replay_queued:
  assumes "keeps_conn other" "appends_only other" "\<forall>argv \<in> set queued. \<not> is_tx_control (tf_lower tf (argv ! 0))"
  shows "\<exists>r. ds_out (replay (run_command finish tf R sv other now) queued d) = ds_out d @ r"
    and "cs_multi (ds_conn (replay (run_command finish tf R sv other now) queued d)) = cs_multi (ds_conn d)"
    and "replay (replay_dispatch finish tf R sv other now) queued d = replay (run_command finish tf R sv other now) queued d"
proof -
  note step = queued_dispatch [OF assms(1,2), where finish = finish and R = R and sv = sv and now = now and tf = tf]
  show "\<exists>r. ds_out (replay (run_command finish tf R sv other now) queued d) = ds_out d @ r"
    using assms(3)
  proof (induction queued arbitrary: d)
    case (Cons argv queued)
    let ?d = "snd (run_command finish tf R sv other now argv d)"
    obtain r where "ds_out ?d = ds_out d @ r" using step(1) [of argv d] Cons.prems by auto
    moreover obtain r' where "ds_out (replay (run_command finish tf R sv other now) queued ?d) = ds_out ?d @ r'"
      using Cons.IH [of ?d] Cons.prems by auto
    ultimately show ?case by (simp add: replay_def)
  qed (simp add: replay_def)
  show "cs_multi (ds_conn (replay (run_command finish tf R sv other now) queued d)) = cs_multi (ds_conn d)"
    using assms(3)
  proof (induction queued arbitrary: d)
    case (Cons argv queued)
    then show ?case using step(2) [of argv d] by (simp add: replay_def)
  qed (simp add: replay_def)
  show "replay (replay_dispatch finish tf R sv other now) queued d = replay (run_command finish tf R sv other now) queued d"
    using assms(3)
  proof (induction queued arbitrary: d)
    case (Cons argv queued)
    then show ?case using step(3) [of argv d] by (simp add: replay_def)
  qed (simp add: replay_def)
qed


lemma run_exec:
  assumes "tf_lower tf w = ''exec''" "cs_multi (ds_conn d) \<noteq> None"
  shows "run_command finish tf R sv other now [w] d =
    (let d' = exec_run finish R (replay_dispatch finish tf R sv other now) (d\<lparr>ds_close := False\<rparr>) in
     (False, d'\<lparr>ds_close := ds_close d \<or> ds_close d'\<rparr>))"
proof -
  have "allowed ''exec''" "is_whitelisted ''exec''" by (simp_all add: allowed_def ALLOWED_def is_whitelisted_def)
  moreover have eta: "\<lparr>ds_shared = ds_shared e, ds_conn = ds_conn e, ds_out = ds_out e, ds_close = b\<rparr> = e\<lparr>ds_close := b\<rparr>"
    for e :: "'a dstate" and b
    by (cases e) simp
  ultimately show ?thesis
    using assms unfolding Let_def eta [symmetric]
    by (auto simp: run_command_def dispatch_def table_with_def exec_cmd_def Let_def)
qed

lemma exec_run_commit:
  assumes "cs_multi (ds_conn d) = Some m" "\<not> ms_dirty m" "\<not> conflicted finish R (sh_store (ds_shared d)) (cs_watches (ds_conn d))"
    and "ds_out (replay disp (ms_queued m) (d\<lparr>ds_conn := (ds_conn d)\<lparr>cs_multi := None\<rparr>\<rparr>)) = ds_out d @ r"
  shows "exec_run finish R disp d =
    (let d' = replay disp (ms_queued m) (d\<lparr>ds_conn := (ds_conn d)\<lparr>cs_multi := None\<rparr>\<rparr>) in
     d'\<lparr>ds_out := append_array (ds_out d) (length (ms_queued m)) @ r, ds_conn := clear_watches (ds_conn d')\<rparr>)"
proof (cases "ms_queued m = []")
  case True
  then have "dec_digits 0 @ [13, 10] = dec_digits (length (ms_queued m)) @ [13, 10]" by simp
  then show ?thesis using assms True by (simp add: exec_run_def Let_def replay_def)
next
  case False
  then show ?thesis using assms by (simp add: exec_run_def Let_def append_array_def)
qed

section \<open>Earlier replies do not matter\<close>

text \<open>The same state with \<open>pre\<close> already in the reply buffer.\<close>
definition with_out :: "bytes \<Rightarrow> 'db dstate \<Rightarrow> 'db dstate" where
  "with_out pre d = d\<lparr>ds_out := pre @ ds_out d\<rparr>"

definition ctx_with_out :: "bytes \<Rightarrow> 'db ctx \<Rightarrow> 'db ctx" where
  "ctx_with_out pre ctx = ctx\<lparr>cx_out := pre @ cx_out ctx\<rparr>"

definition oblivious :: "'db handler \<Rightarrow> bool" where
  "oblivious h \<longleftrightarrow> (\<forall>pre ctx. h (ctx_with_out pre ctx) = (fst (h ctx), ctx_with_out pre (snd (h ctx))))"

lemma with_out_sel [simp]:
  "ds_shared (with_out pre d) = ds_shared d" "ds_conn (with_out pre d) = ds_conn d"
  "ds_close (with_out pre d) = ds_close d" "ds_out (with_out pre d) = pre @ ds_out d"
  by (simp_all add: with_out_def)

lemma append_out [simp]:
  "append_error (pre @ out) m = pre @ append_error out m" "append_string (pre @ out) m = pre @ append_string out m"
  "append_array (pre @ out) n = pre @ append_array out n" "arity_error (pre @ out) cmd = pre @ arity_error out cmd"
  by (simp_all add: append_error_def append_string_def append_array_def arity_error_def)

lemma dispatch_with_out:
  assumes "\<And>h. table (tf_lower tf (argv ! 0)) = Some h \<Longrightarrow> oblivious h"
  shows "dispatch table tf R sv now argv (with_out pre d) =
    (fst (dispatch table tf R sv now argv d), with_out pre (snd (dispatch table tf R sv now argv d)))"
proof (cases "table (tf_lower tf (argv ! 0))")
  case None
  then show ?thesis by (simp add: dispatch_def with_out_def)
next
  case (Some h)
  let ?ctx = "\<lambda>out pfx sh conn. \<lparr>cx_shared = sh, cx_prefix = pfx, cx_args = drop 1 argv, cx_out = out,
      cx_close = False, cx_conn = conn, cx_wrote = False\<rparr>"
  have h: "h (?ctx (pre @ out) pfx sh conn) =
      (fst (h (?ctx out pfx sh conn)), ctx_with_out pre (snd (h (?ctx out pfx sh conn))))" for out pfx sh conn
    using assms [OF Some] unfolding oblivious_def by (metis (no_types, lifting) ctx_with_out_def ctx.simps(4) ctx.update_convs(4))
  let ?first = "tf_lower tf (argv ! 0)"
  let ?key = "argv ! routing_key_index ?first"
  obtain line sh where r: "redirect_line R sv now (fst (slot_with_prefix (hash_tag ?key))) ?key
      (cs_asking (ds_conn d)) (ds_shared d) = (line, sh)"
    by fastforce
  have panic: "(case p of None \<Rightarrow> pre @ out | Some payload \<Rightarrow> pre @ g payload) =
      pre @ (case p of None \<Rightarrow> out | Some payload \<Rightarrow> g payload)" for p :: "string option" and out g
    by (cases p) auto
  show ?thesis
    by (cases line)
       (simp_all add: dispatch_def Some Let_def case_prod_beta r h [simplified] with_out_def ctx_with_out_def panic
         cong: option.case_cong)
qed

lemma replay_with_out:
  assumes "\<And>argv d. snd (disp argv (with_out pre d)) = with_out pre (snd (disp argv d))"
  shows "replay disp queued (with_out pre d) = with_out pre (replay disp queued d)"
  unfolding replay_def by (induction queued arbitrary: d) (simp_all add: assms)

lemma exec_run_with_out:
  assumes "\<And>argv d. snd (disp argv (with_out pre d)) = with_out pre (snd (disp argv d))"
  shows "exec_run finish R disp (with_out pre d) = with_out pre (exec_run finish R disp d)"
proof (cases "cs_multi (ds_conn d)")
  case None
  then show ?thesis by (simp add: exec_run_def with_out_def)
next
  case (Some m)
  let ?d = "d\<lparr>ds_conn := (ds_conn d)\<lparr>cs_multi := None\<rparr>\<rparr>"
  have eq: "(with_out pre d)\<lparr>ds_conn := (ds_conn d)\<lparr>cs_multi := None\<rparr>\<rparr> = with_out pre ?d" by (simp add: with_out_def)
  have "replay disp (ms_queued m) ((with_out pre d)\<lparr>ds_conn := (ds_conn d)\<lparr>cs_multi := None\<rparr>\<rparr>) =
      with_out pre (replay disp (ms_queued m) ?d)"
    unfolding eq by (rule replay_with_out [where disp = disp, OF assms])
  then show ?thesis by (simp add: exec_run_def Some Let_def with_out_def)
qed

lemma exec_cmd_oblivious:
  assumes "\<And>pre argv d. snd (disp argv (with_out pre d)) = with_out pre (snd (disp argv d))"
  shows "oblivious (exec_cmd finish R disp)"
  unfolding oblivious_def
proof (intro allI)
  fix pre and ctx :: "'a ctx"
  let ?d = "\<lparr>ds_shared = cx_shared ctx, ds_conn = cx_conn ctx, ds_out = cx_out ctx, ds_close = cx_close ctx\<rparr>"
  have eq: "\<lparr>ds_shared = cx_shared ctx, ds_conn = cx_conn ctx, ds_out = pre @ cx_out ctx, ds_close = cx_close ctx\<rparr> =
      with_out pre ?d"
    by (simp add: with_out_def)
  have "exec_run finish R disp (with_out pre ?d) = with_out pre (exec_run finish R disp ?d)"
    using assms by (rule exec_run_with_out)
  then show "exec_cmd finish R disp (ctx_with_out pre ctx) =
      (fst (exec_cmd finish R disp ctx), ctx_with_out pre (snd (exec_cmd finish R disp ctx)))"
    by (simp add: exec_cmd_def Let_def ctx_with_out_def eq)
qed

lemma table_oblivious:
  assumes "\<And>name. oblivious (other name)" "oblivious exec" "table_with exec finish R sv other name = Some h"
  shows "oblivious h"
  using assms by (auto simp: table_with_def oblivious_def multi_cmd_def discard_cmd_def watch_cmd_def
      unwatch_cmd_def asking_cmd_def ctx_with_out_def split: if_splits)

lemma run_command_with_out:
  assumes "\<And>name. oblivious (other name)"
  shows "run_command finish tf R sv other now argv (with_out pre d) =
    (fst (run_command finish tf R sv other now argv d), with_out pre (snd (run_command finish tf R sv other now argv d)))"
proof -
  have "snd (replay_dispatch finish tf R sv other now argv (with_out pre d)) =
      with_out pre (snd (replay_dispatch finish tf R sv other now argv d))" for pre argv d
    unfolding replay_dispatch_def
    using dispatch_with_out [OF table_oblivious [OF assms assms [of "''exec''"]]] by simp
  from exec_cmd_oblivious [where disp = "replay_dispatch finish tf R sv other now", OF this] show ?thesis
    unfolding run_command_def by (intro dispatch_with_out) (rule table_oblivious [OF assms])
qed

lemma queue_command_with_out:
  "queue_command tf R sv now argv (with_out pre d) = with_out pre (queue_command tf R sv now argv d)"
  unfolding queue_command_def Let_def
  by (simp add: with_out_def split: prod.splits option.splits queue_result.splits)

lemma process_command_with_out:
  assumes "\<And>name. oblivious (other name)"
  shows "process_command finish tf R sv other now argv (authed, with_out pre d) =
    (fst (process_command finish tf R sv other now argv (authed, d)),
     with_out pre (snd (process_command finish tf R sv other now argv (authed, d))))"
proof -
  have run: "run_command finish tf R sv other now argv (with_out pre d) =
      (fst (run_command finish tf R sv other now argv d), with_out pre (snd (run_command finish tf R sv other now argv d)))"
    using assms by (rule run_command_with_out)
  consider "argv = []" | "argv \<noteq> []" "\<not> authed"
    | "argv \<noteq> []" authed "in_multi (ds_conn d) \<and> \<not> is_tx_control (tf_lower tf (argv ! 0))"
    | "argv \<noteq> []" authed "\<not> (in_multi (ds_conn d) \<and> \<not> is_tx_control (tf_lower tf (argv ! 0)))"
    by blast
  then show ?thesis
  proof cases
    case 3
    then show ?thesis by (simp add: process_command_def queue_command_with_out)
  next
    case 4
    have "process_command finish tf R sv other now argv (authed, e) =
        (authed, let (wrote, e) = run_command finish tf R sv other now argv e in
          if wrote \<and> \<not> in_multi (ds_conn e) then e\<lparr>ds_conn := clear_watches (ds_conn e)\<rparr> else e)"
      if "ds_conn e = ds_conn d" for e
      using 4 that by (auto simp: process_command_def case_prod_beta)
    then show ?thesis by (simp add: run case_prod_beta)
  qed (simp_all add: process_command_def with_out_def)
qed

section \<open>Reads may be cut anywhere\<close>

lemma parse_command_error:
  assumes "parse_command buf = ProtocolError msg n" "length (buf @ tail) \<le> MAX_INLINE_LEN"
  shows "parse_command (buf @ tail) = ProtocolError msg n"
proof -
  have ne: "buf \<noteq> []" using assms(1) by (auto simp: parse_command_def)
  then have hd: "(buf @ tail) ! 0 = buf ! 0" by (simp add: nth_append)
  show ?thesis
  proof (cases "buf ! 0 = 42 \<or> buf ! 0 = 36")
    case True
    then show ?thesis
      using assms(1) ne hd parse_multibulk_cases(1) [of buf "ProtocolError msg n" tail]
      by (auto simp: parse_command_def split: if_splits)
  next
    case False
    then have t: "parse_telnet buf = ProtocolError msg n" using assms(1) ne by (simp add: parse_command_def)
    then obtain nl where nl: "position (\<lambda>b. b = 10) buf = Some nl"
      using assms(2) by (cases "position (\<lambda>b. b = 10) buf") (auto simp: parse_telnet_def protocol_error_def)
    then have b: "nl < length buf" by (simp add: position_Some_iff)
    have "position (\<lambda>b. b = 10) (buf @ tail) = Some nl" by (simp add: position_append nl)
    moreover have "(buf @ tail) ! (nl - 1) = buf ! (nl - 1)" "take (nl - 1) (buf @ tail) = take (nl - 1) buf"
      "take nl (buf @ tail) = take nl buf"
      using b less_imp_diff_less [OF b, of 1] by (simp_all add: nth_append)
    ultimately have "parse_telnet (buf @ tail) = ProtocolError msg n"
      using t unfolding parse_telnet_def nl by (simp only: option.case)
    then show ?thesis using False hd ne by (simp add: parse_command_def)
  qed
qed

text \<open>What can be seen of a connection: everything but how far the replies were flushed.\<close>
definition observe :: "'db conn \<Rightarrow> 'db dstate \<times> bool \<times> bool" where
  "observe c = (with_out (cn_sent c) (cn_d c), cn_authed c, cn_open c)"

definition blind :: "(bytes list \<Rightarrow> bool \<times> 'db dstate \<Rightarrow> bool \<times> 'db dstate) \<Rightarrow> bool" where
  "blind proc \<longleftrightarrow> (\<forall>args authed pre d. proc args (authed, with_out pre d) =
     (fst (proc args (authed, d)), with_out pre (snd (proc args (authed, d)))))"

lemma observe_flush [simp]: "observe (flush c) = observe c"
  by (simp add: observe_def flush_def with_out_def)

lemma observe_buf [simp]: "observe (c\<lparr>cn_buf := b\<rparr>) = observe c"
  by (simp add: observe_def)

lemma observe_drain_command:
  assumes "blind proc"
  shows "observe (drain_command proc tf args n c) =
    (case observe c of (d, authed, open) \<Rightarrow> (snd (proc args (authed, d)), fst (proc args (authed, d)), open))"
proof -
  let ?c = "if (case first_of args of Some a \<Rightarrow> may_block (tf_lower tf a) | None \<Rightarrow> False) \<and> ds_out (cn_d c) \<noteq> []
      then flush (c\<lparr>cn_buf := drop n (cn_buf c)\<rparr>) else c\<lparr>cn_buf := drop n (cn_buf c)\<rparr>"
  let ?r = "proc args (cn_authed ?c, cn_d ?c)"
  have "observe (drain_command proc tf args n c) = observe (?c\<lparr>cn_authed := fst ?r, cn_d := snd ?r\<rparr>)"
    by (simp add: drain_command_def Let_def case_prod_beta)
  also have "\<dots> = (with_out (cn_sent ?c) (snd ?r), fst ?r, cn_open ?c)" by (simp add: observe_def)
  also have "\<dots> = (case observe ?c of (d, authed, open) \<Rightarrow> (snd (proc args (authed, d)), fst (proc args (authed, d)), open))"
    using assms by (simp add: observe_def blind_def)
  also have "observe ?c = observe c" by simp
  finally show ?thesis .
qed

lemma drain_same:
  "blind proc \<Longrightarrow> observe c = observe c' \<Longrightarrow> cn_buf c = cn_buf c' \<Longrightarrow> observe (drain proc tf c) = observe (drain proc tf c')"
proof (induction proc tf c arbitrary: c' rule: drain.induct)
  case (1 proc tf c)
  show ?case
  proof (cases "parse_command (cn_buf c)")
    case Incomplete
    then show ?thesis using 1 by (simp add: drain.simps)
  next
    case (ProtocolError msg n)
    have "observe (c\<lparr>cn_d := (cn_d c)\<lparr>ds_out := append_error (ds_out (cn_d c)) m\<rparr>\<rparr>\<lparr>cn_open := False\<rparr>) =
        (case observe c of (d, authed, _) \<Rightarrow> (d\<lparr>ds_out := append_error (ds_out d) m\<rparr>, authed, False))" for m and c :: "'a conn"
      by (simp add: observe_def with_out_def)
    moreover have "(flush c)\<lparr>cn_open := False\<rparr> = flush (c\<lparr>cn_open := False\<rparr>)" for c :: "'a conn"
      by (simp add: flush_def)
    ultimately show ?thesis using 1 ProtocolError by (simp add: drain.simps)
  next
    case (Complete args n)
    let ?c = "drain_command proc tf args n c" and ?c' = "drain_command proc tf args n c'"
    have eq: "observe ?c = observe ?c'" using observe_drain_command [OF "1.prems"(1)] "1.prems"(2) by simp
    then have close: "ds_close (cn_d ?c) = ds_close (cn_d ?c')" by (auto simp: observe_def with_out_def dest: arg_cong [where f = ds_close])
    have buf: "cn_buf ?c = cn_buf ?c'" by (simp add: cn_buf_drain_command "1.prems"(3))
    show ?thesis
      using Complete "1.prems"(3) eq close "1.IH" [OF Complete refl _ "1.prems"(1) eq buf]
      by (simp add: drain.simps [of proc tf c] drain.simps [of proc tf c'] Let_def)
  qed
qed

lemma drain_more:
  assumes "length (cn_buf c @ tail) \<le> MAX_INLINE_LEN"
  shows "cn_open (drain proc tf c) \<and> \<not> ds_close (cn_d (drain proc tf c)) \<Longrightarrow>
      drain proc tf (c\<lparr>cn_buf := cn_buf c @ tail\<rparr>) =
      drain proc tf ((drain proc tf c)\<lparr>cn_buf := cn_buf (drain proc tf c) @ tail\<rparr>)"
    and "\<not> ds_close (cn_d c) \<Longrightarrow> cn_open c \<Longrightarrow> \<not> (cn_open (drain proc tf c) \<and> \<not> ds_close (cn_d (drain proc tf c))) \<Longrightarrow>
      observe (drain proc tf (c\<lparr>cn_buf := cn_buf c @ tail\<rparr>)) = observe (drain proc tf c)"
  using assms
proof (induction proc tf c rule: drain.induct)
  case (1 proc tf c)
  let ?ext = "\<lambda>c. c\<lparr>cn_buf := cn_buf c @ tail\<rparr>"
  have step: "drain_command proc tf args n (?ext c) = ?ext (drain_command proc tf args n c)"
    if "parse_command (cn_buf c) = Complete args n" for args n
    using parse_command_complete(3) [OF that]
    by (simp add: drain_command_def flush_def Let_def case_prod_beta)
  have open_step: "cn_open (drain_command proc tf args n c) = cn_open c" for args n
    by (simp add: drain_command_def flush_def Let_def case_prod_beta)
  {
    case 1
    have opn: "cn_open (drain proc tf c) \<and> \<not> ds_close (cn_d (drain proc tf c))" using 1 by blast
    have room: "length (cn_buf c @ tail) \<le> MAX_INLINE_LEN" using 1 by blast
    show ?case
    proof (cases "parse_command (cn_buf c)")
      case Incomplete
      then show ?thesis by (simp add: drain.simps [of proc tf c])
    next
      case (ProtocolError msg n)
      then show ?thesis using opn by (simp add: drain.simps [of proc tf c])
    next
      case (Complete args n)
      let ?c = "drain_command proc tf args n c"
      have whole: "parse_command (cn_buf c @ tail) = Complete args n" using parse_command_complete(1) [OF Complete] .
      have stop: "\<not> ds_close (cn_d ?c)" using opn Complete by (auto simp: drain.simps [of proc tf c] Let_def split: if_splits)
      have len: "length (cn_buf ?c @ tail) \<le> MAX_INLINE_LEN" using room by (simp add: cn_buf_drain_command)
      have d: "drain proc tf c = drain proc tf ?c" using Complete stop by (simp add: drain.simps [of proc tf c])
      have dm: "drain proc tf (?ext c) = drain proc tf (?ext ?c)"
        using whole stop step [OF Complete] by (simp add: drain.simps [of proc tf "?ext c"])
      show ?thesis unfolding d dm using "1.IH"(1) [OF Complete refl stop] opn len by (simp add: d)
    qed
  next
    case 2
    have live: "\<not> ds_close (cn_d c)" "cn_open c"
      and ended: "\<not> (cn_open (drain proc tf c) \<and> \<not> ds_close (cn_d (drain proc tf c)))"
      and room: "length (cn_buf c @ tail) \<le> MAX_INLINE_LEN"
      using 2 by blast+
    show ?case
    proof (cases "parse_command (cn_buf c)")
      case Incomplete
      then show ?thesis using live ended by (simp add: drain.simps [of proc tf c])
    next
      case (ProtocolError msg n)
      have "parse_command (cn_buf c @ tail) = ProtocolError msg n" using parse_command_error [OF ProtocolError room] .
      then show ?thesis
        using ProtocolError by (simp add: drain.simps [of proc tf c] drain.simps [of proc tf "?ext c"] observe_def flush_def)
    next
      case (Complete args n)
      let ?c = "drain_command proc tf args n c"
      have whole: "parse_command (cn_buf c @ tail) = Complete args n" using parse_command_complete(1) [OF Complete] .
      have len: "length (cn_buf ?c @ tail) \<le> MAX_INLINE_LEN" using room by (simp add: cn_buf_drain_command)
      show ?thesis
      proof (cases "ds_close (cn_d ?c)")
        case True
        then show ?thesis
          using Complete whole step [OF Complete]
          by (simp add: drain.simps [of proc tf c] drain.simps [of proc tf "?ext c"])
      next
        case stop: False
        have d: "drain proc tf c = drain proc tf ?c" using Complete stop by (simp add: drain.simps [of proc tf c])
        have dm: "drain proc tf (?ext c) = drain proc tf (?ext ?c)"
          using whole stop step [OF Complete] by (simp add: drain.simps [of proc tf "?ext c"])
        show ?thesis
          unfolding d dm using "1.IH"(2) [OF Complete refl stop stop _ _ len] live ended by (simp add: d open_step)
      qed
    qed
  }
qed

lemma process_command_blind:
  assumes "\<And>name. oblivious (other name)"
  shows "blind (process_command finish tf R sv other now)"
  unfolding blind_def using process_command_with_out [where other = other, OF assms] by blast

text \<open>A read below every cap.\<close>
lemma on_read_small:
  assumes "cn_open c" "length (cn_buf c @ chunk) \<le> PREAUTH_MAX_BUF"
  shows "on_read proc tf chunk c =
    (let c = drain proc tf (c\<lparr>cn_buf := cn_buf c @ chunk\<rparr>) in
     if \<not> cn_open c then c else if ds_close (cn_d c) then (flush c)\<lparr>cn_open := False\<rparr> else flush c)"
  using assms
  by (simp add: on_read_def exceeds_conn_cap_def exceeds_preauth_cap_def MAX_CONN_BUF_def PREAUTH_MAX_BUF_def Let_def)
     (simp add: flush_def)

lemma observe_open: "observe (c\<lparr>cn_open := b\<rparr>) = (case observe c of (d, authed, _) \<Rightarrow> (d, authed, b))"
  by (simp add: observe_def)

lemma observe_closeD: "observe c = observe c' \<Longrightarrow> cn_open c = cn_open c' \<and> ds_close (cn_d c) = ds_close (cn_d c')"
  by (auto simp: observe_def with_out_def dest: arg_cong [where f = ds_close])

lemma drain_buf_length: "length (cn_buf (drain proc tf c)) \<le> length (cn_buf c)"
proof (induction proc tf c rule: drain.induct)
  case (1 proc tf c)
  then show ?case
    by (subst drain.simps)
       (fastforce simp: flush_def Let_def cn_buf_drain_command split: parse_outcome.splits)
qed

text \<open>What a read does once the buffer is drained.\<close>
lemma observe_after_drain:
  assumes "observe c = observe c'"
  shows "observe (if \<not> cn_open c then c else if ds_close (cn_d c) then (flush c)\<lparr>cn_open := False\<rparr> else flush c) =
    observe (if \<not> cn_open c' then c' else if ds_close (cn_d c') then (flush c')\<lparr>cn_open := False\<rparr> else flush c')"
  using assms observe_closeD [OF assms] by (simp add: observe_open)

lemma on_read_split:
  assumes "blind proc" "cn_open c" "\<not> ds_close (cn_d c)" "length (cn_buf c @ a @ b) \<le> PREAUTH_MAX_BUF"
  shows "observe (on_read proc tf b (on_read proc tf a c)) = observe (on_read proc tf (a @ b) c)"
proof -
  let ?c = "c\<lparr>cn_buf := cn_buf c @ a\<rparr>"
  let ?d = "drain proc tf ?c"
  have len: "length (cn_buf ?c @ b) \<le> MAX_INLINE_LEN"
    using assms(4) by (simp add: PREAUTH_MAX_BUF_def MAX_INLINE_LEN_def)
  have whole: "on_read proc tf (a @ b) c = (let e = drain proc tf (?c\<lparr>cn_buf := cn_buf ?c @ b\<rparr>) in
      if \<not> cn_open e then e else if ds_close (cn_d e) then (flush e)\<lparr>cn_open := False\<rparr> else flush e)"
    using on_read_small [OF assms(2), of "a @ b" proc tf] assms(4) by simp
  have first: "on_read proc tf a c =
      (if \<not> cn_open ?d then ?d else if ds_close (cn_d ?d) then (flush ?d)\<lparr>cn_open := False\<rparr> else flush ?d)"
    using on_read_small [OF assms(2), of a proc tf] assms(4) by (simp add: Let_def)
  show ?thesis
  proof (cases "cn_open ?d \<and> \<not> ds_close (cn_d ?d)")
    case True
    then have r1: "on_read proc tf a c = flush ?d" by (simp add: first)
    have buf: "cn_buf (flush ?d) = cn_buf ?d" "cn_open (flush ?d) = cn_open ?d" by (simp_all add: flush_def)
    have small: "length (cn_buf (flush ?d) @ b) \<le> PREAUTH_MAX_BUF"
      using drain_buf_length [of proc tf ?c] assms(4) by (simp add: buf)
    let ?e = "drain proc tf ((flush ?d)\<lparr>cn_buf := cn_buf (flush ?d) @ b\<rparr>)"
    let ?e' = "drain proc tf (?d\<lparr>cn_buf := cn_buf ?d @ b\<rparr>)"
    have same: "observe ?e = observe ?e'" by (rule drain_same [OF assms(1)]) (simp_all add: buf)
    have "drain proc tf (?c\<lparr>cn_buf := cn_buf ?c @ b\<rparr>) = ?e'" by (rule drain_more(1) [OF len True])
    moreover have "on_read proc tf b (flush ?d) =
        (if \<not> cn_open ?e then ?e else if ds_close (cn_d ?e) then (flush ?e)\<lparr>cn_open := False\<rparr> else flush ?e)"
      using on_read_small [OF _ small, of proc tf] True by (simp add: buf Let_def)
    ultimately show ?thesis
      unfolding r1 whole Let_def using observe_after_drain [OF same] by (simp only:)
  next
    case False
    have closed: "on_read proc tf b (on_read proc tf a c) = on_read proc tf a c"
      unfolding first using False by (simp add: on_read_def flush_def)
    have "observe (drain proc tf (?c\<lparr>cn_buf := cn_buf ?c @ b\<rparr>)) = observe ?d"
      by (rule drain_more(2) [OF len _ _ False]) (use assms in simp_all)
    from observe_after_drain [OF this] show ?thesis
      unfolding closed unfolding whole first Let_def by (simp only:)
  qed
qed

section \<open>The authentication gate\<close>

text \<open>The token was presented somewhere in the bytes received.\<close>
definition presents_token :: "server \<Rightarrow> bytes \<Rightarrow> bool" where
  "presents_token sv stream \<longleftrightarrow>
     (\<exists>i n w. i \<le> length stream \<and> parse_command (drop i stream) = Complete [w, sv_token sv] n \<and>
        (w = ascii ''AUTH'' \<or> w = ascii ''auth''))"

lemma presents_token_append: "presents_token sv a \<Longrightarrow> presents_token sv (a @ b)"
  unfolding presents_token_def
proof (elim exE conjE)
  fix i n w
  assume *: "i \<le> length a" "parse_command (drop i a) = Complete [w, sv_token sv] n" "w = ascii ''AUTH'' \<or> w = ascii ''auth''"
  then have "parse_command (drop i (a @ b)) = Complete [w, sv_token sv] n"
    using parse_command_complete(1) [OF *(2), of b] by simp
  then show "\<exists>i n w. i \<le> length (a @ b) \<and> parse_command (drop i (a @ b)) = Complete [w, sv_token sv] n \<and>
      (w = ascii ''AUTH'' \<or> w = ascii ''auth'')"
    using * by (intro exI [of _ i] exI [of _ n] exI [of _ w]) simp
qed

lemma presents_token_drop: "presents_token sv (drop k a) \<Longrightarrow> presents_token sv a"
  unfolding presents_token_def
proof (elim exE conjE)
  fix i n w
  assume *: "i \<le> length (drop k a)" "parse_command (drop i (drop k a)) = Complete [w, sv_token sv] n" "w = ascii ''AUTH'' \<or> w = ascii ''auth''"
  show "\<exists>i n w. i \<le> length a \<and> parse_command (drop i a) = Complete [w, sv_token sv] n \<and> (w = ascii ''AUTH'' \<or> w = ascii ''auth'')"
  proof (cases "k \<le> length a")
    case True
    then show ?thesis using * by (intro exI [of _ "i + k"] exI [of _ n] exI [of _ w]) simp
  next
    case False
    then show ?thesis using * by (intro exI [of _ "length a"] exI [of _ n] exI [of _ w]) simp
  qed
qed

lemma process_command_gate:
  assumes "process_command finish tf R sv other now argv (False, d) = (authed, d')"
  shows "ds_shared d' = ds_shared d \<and> ds_conn d' = ds_conn d \<and> ds_close d' = ds_close d"
    and "authed \<longleftrightarrow> argv = [ascii ''AUTH'', sv_token sv] \<or> argv = [ascii ''auth'', sv_token sv]"
  using assms
  by (auto simp: process_command_def ct_eq_iff length_Suc_conv numeral_2_eq_2 split: if_splits)

lemma process_command_authed: "fst (process_command finish tf R sv other now argv (True, d)) = True"
  by (simp add: process_command_def Let_def split: prod.splits)

lemma drain_authed:
  "(\<And>argv d. fst (proc argv (True, d)) = True) \<Longrightarrow> cn_authed c \<Longrightarrow> cn_authed (drain proc tf c)"
proof (induction proc tf c rule: drain.induct)
  case (1 proc tf c)
  have "cn_authed (drain_command proc tf args n c)" for args n
    using "1.prems" by (simp add: drain_command_def flush_def Let_def case_prod_beta)
  then show ?case
    using 1 by (subst drain.simps) (auto simp: flush_def Let_def split: parse_outcome.splits)
qed

lemma on_read_authed:
  "(\<And>argv d. fst (proc argv (True, d)) = True) \<Longrightarrow> cn_authed c \<Longrightarrow> cn_authed (on_read proc tf chunk c)"
  using drain_authed [of proc "c\<lparr>cn_buf := cn_buf c @ chunk\<rparr>" tf]
  by (simp add: on_read_def flush_def Let_def)

text \<open>What an unauthenticated connection has not changed.\<close>
definition untouched :: "'db conn \<Rightarrow> 'db conn \<Rightarrow> bool" where
  "untouched c c' \<longleftrightarrow> ds_shared (cn_d c') = ds_shared (cn_d c) \<and> ds_conn (cn_d c') = ds_conn (cn_d c)"

lemma drain_gate:
  assumes "proc = process_command finish tf R sv other now" "\<not> cn_authed c"
  shows "(if cn_authed (drain proc tf c) then presents_token sv (cn_buf c)
     else untouched c (drain proc tf c) \<and> (\<exists>i. cn_buf (drain proc tf c) = drop i (cn_buf c)))"
  using assms
proof (induction proc tf c rule: drain.induct)
  case (1 proc tf c)
  show ?case
  proof (cases "parse_command (cn_buf c)")
    case (Complete args n)
    let ?c = "drain_command proc tf args n c"
    obtain authed d' where p: "proc args (False, cn_d c) = (authed, d')" by fastforce
    obtain authed2 d2 where p2: "proc args (False, cn_d (flush c)) = (authed2, d2)" by fastforce
    note g = process_command_gate [OF p [unfolded 1(2)]] process_command_gate [OF p2 [unfolded 1(2)]]
    have keep: "untouched c ?c" using g p p2 1(3)
      by (auto simp: drain_command_def untouched_def flush_def Let_def split: if_splits option.splits)
    show ?thesis
    proof (cases "cn_authed ?c")
      case True
      then have "args = [ascii ''AUTH'', sv_token sv] \<or> args = [ascii ''auth'', sv_token sv]"
        using g p p2 1(3) by (auto simp: drain_command_def flush_def Let_def split: if_splits option.splits)
      then have tok: "presents_token sv (cn_buf c)"
        unfolding presents_token_def using Complete by (intro exI [of _ 0] exI [of _ n]) auto
      have "cn_authed (drain proc tf ?c)"
        by (rule drain_authed [OF _ True]) (simp add: 1(2) process_command_authed)
      then show ?thesis using tok True Complete by (simp add: drain.simps [of proc tf c] Let_def)
    next
      case False
      note IH = "1.IH" [OF Complete refl _ "1.prems"(1) False]
      show ?thesis
        using IH False keep presents_token_drop [of sv n "cn_buf c"] Complete
        by (auto simp: drain.simps [of proc tf c] Let_def cn_buf_drain_command untouched_def add.commute split: if_splits)
    qed
  qed (use 1(3) in \<open>auto simp: drain.simps [of proc tf c] untouched_def flush_def intro: exI [of _ 0]\<close>)
qed

lemma on_read_gate:
  assumes "proc = process_command finish tf R sv other now" "\<not> cn_authed c" "cn_open c"
  shows "(if cn_authed (on_read proc tf chunk c) then presents_token sv (cn_buf c @ chunk)
     else untouched c (on_read proc tf chunk c) \<and>
       (\<exists>i. cn_buf (on_read proc tf chunk c) = drop i (cn_buf c @ chunk)) \<and>
       (cn_open (on_read proc tf chunk c) \<longrightarrow> length (cn_buf (on_read proc tf chunk c)) \<le> PREAUTH_MAX_BUF))"
proof -
  let ?c = "c\<lparr>cn_buf := cn_buf c @ chunk\<rparr>"
  have "untouched ?c c' = untouched c c'" for c' by (simp add: untouched_def)
  moreover have "drain proc tf ?c = drain proc tf ?c" ..
  ultimately show ?thesis
    using drain_gate [OF assms(1), of ?c] drain_buf_length [of proc tf ?c] assms(2,3)
    by (auto simp: on_read_def flush_def Let_def exceeds_preauth_cap_def untouched_def intro: exI [of _ 0])
qed

lemma reads_gate:
  assumes "proc = process_command finish tf R sv other now" "\<not> cn_authed c"
  shows "(if cn_authed (fold (on_read proc tf) chunks c) then presents_token sv (cn_buf c @ concat chunks)
     else untouched c (fold (on_read proc tf) chunks c))"
  using assms(2)
proof (induction chunks arbitrary: c)
  case (Cons chunk chunks)
  let ?c = "on_read proc tf chunk c"
  show ?case
  proof (cases "cn_open c")
    case True
    note g = on_read_gate [OF assms(1) Cons.prems True, of chunk]
    show ?thesis
    proof (cases "cn_authed ?c")
      case True
      have "cn_authed (fold (on_read proc tf) xs c)" if "cn_authed c" for xs c
        using that by (induction xs arbitrary: c) (simp_all add: assms(1) process_command_authed on_read_authed)
      then show ?thesis using True g presents_token_append [of sv "cn_buf c @ chunk"] by simp
    next
      case False
      then obtain i where i: "cn_buf ?c = drop i (cn_buf c @ chunk)" "untouched c ?c" using g by auto
      have "presents_token sv (cn_buf c @ chunk @ concat chunks)" if "presents_token sv (cn_buf ?c @ concat chunks)"
      proof -
        have "cn_buf ?c @ concat chunks = drop (min i (length (cn_buf c @ chunk))) ((cn_buf c @ chunk) @ concat chunks)"
          unfolding i(1) by (simp add: min_def)
        then show ?thesis using that presents_token_drop by (metis append.assoc)
      qed
      then show ?thesis using Cons.IH [OF False] i(2) by (auto simp: untouched_def split: if_splits)
    qed
  next
    case False
    have "fold (on_read proc tf) xs c = c" for xs
      by (induction xs) (simp_all add: on_read_def False)
    from this [of "chunk # chunks"] show ?thesis using Cons.prems by (simp add: untouched_def)
  qed
qed (simp add: untouched_def)

section \<open>Properties\<close>



definition demo_text :: text_fns where
  "demo_text = \<lparr>tf_lossy = (\<lambda>b. b), tf_lower = (\<lambda>b. name_of (to_ascii_lowercase b))\<rparr>"

definition demo_server :: server where
  "demo_server = \<lparr>sv_backup = False, sv_tx_enabled = True, sv_token = [116], sv_host = '''', sv_addrs = [],
     sv_per_node_slots = 0, sv_owner_map = (\<lambda>_. None), sv_importing = (\<lambda>_. None), sv_migrating = (\<lambda>_. None)\<rparr>"

definition demo_handler :: "string \<Rightarrow> mem_db handler" where
  "demo_handler name ctx = (None, ctx\<lparr>cx_out := cx_out ctx @ [43]\<rparr>)"

definition demo_slot :: u16 where
  "demo_slot = fst (slot_with_prefix (hash_tag [107]))"

definition demo_multi :: multi_state where
  "demo_multi = \<lparr>ms_slot = demo_slot, ms_slot_bound = True, ms_queued = [[ascii ''GET'', [107]]], ms_dirty = False\<rparr>"

definition demo_state :: "multi_state option \<Rightarrow> mem_db dstate" where
  "demo_state m = \<lparr>ds_shared = raw_shared,
     ds_conn = \<lparr>cs_multi = m, cs_watches = [], cs_asking = False\<rparr>, ds_out = [], ds_close = False\<rparr>"

lemma demo_keeps: "keeps_conn demo_handler" "appends_only demo_handler"
  by (auto simp: keeps_conn_def appends_only_def demo_handler_def)

lemma demo_lower: "tf_lower demo_text (ascii ''MULTI'') = ''multi''" "tf_lower demo_text (ascii ''GET'') = ''get''"
  "tf_lower demo_text (ascii ''EXEC'') = ''exec''"
  by (simp_all add: demo_text_def ascii_def to_ascii_lowercase_def name_of_def char_of_def bit_0)

lemma demo_commands: "''multi'' \<notin> {''exec'', ''discard''}" "''get'' \<in> set COMMANDS" "\<not> may_block ''get''"
  "\<not> is_whitelisted ''get''" "is_whitelisted ''multi''" "shape_of ''get'' = ShapeFirst"
  by (simp_all add: COMMANDS_def may_block_def is_whitelisted_def shape_of_def)

lemma demo_reachable: "reachable finish demo_text mem_rocksdb demo_server demo_handler (True, demo_state (Some demo_multi))"
proof -
  let ?r = "reachable finish demo_text mem_rocksdb demo_server demo_handler"
  let ?p = "process_command finish demo_text mem_rocksdb demo_server demo_handler 0"
  have "?r (False, demo_state None)"
    using reachable.connect [where sh = raw_shared] by (simp add: demo_state_def conn_default_def)
  moreover have "?p [ascii ''AUTH'', [116]] (False, demo_state None) = (True, (demo_state None)\<lparr>ds_out := append_string [] (ascii ''OK'')\<rparr>)"
    by (simp add: process_command_def ct_eq_iff demo_server_def demo_state_def)
  ultimately have "?r (True, (demo_state None)\<lparr>ds_out := append_string [] (ascii ''OK'')\<rparr>)"
    using reachable.command by metis
  from reachable.flushed [OF this] have "?r (True, demo_state None)" by (simp add: demo_state_def)
  moreover have "?p [ascii ''MULTI''] (True, demo_state None) =
      (True, (demo_state (Some multi_new))\<lparr>ds_out := append_string [] (ascii ''OK'')\<rparr>)"
    by (simp add: process_command_def in_multi_def demo_state_def run_command_def dispatch_def demo_lower
        table_with_def demo_commands demo_server_def multi_cmd_def)
  ultimately have "?r (True, (demo_state (Some multi_new))\<lparr>ds_out := append_string [] (ascii ''OK'')\<rparr>)"
    using reachable.command by metis
  from reachable.flushed [OF this] have "?r (True, demo_state (Some multi_new))" by (simp add: demo_state_def)
  moreover have "?p [ascii ''GET'', [107]] (True, demo_state (Some multi_new)) =
      (True, (demo_state (Some demo_multi))\<lparr>ds_out := append_string [] (ascii ''QUEUED'')\<rparr>)"
    by (simp add: process_command_def in_multi_def is_tx_control_def demo_state_def queue_command_def demo_lower
        demo_commands routing_key_index_def demo_server_def redirect_line_def route_with_owners_def route_def
        queue_cmd_def keys_of_def multi_new_def demo_multi_def demo_slot_def)
  ultimately have "?r (True, (demo_state (Some demo_multi))\<lparr>ds_out := append_string [] (ascii ''QUEUED'')\<rparr>)"
    using reachable.command by metis
  from reachable.flushed [OF this] show ?thesis by (simp add: demo_state_def)
qed




text \<open>C10: The authentication gate.  However the bytes of an unauthenticated connection are cut into
  reads, either the token was presented in them as an \<open>AUTH\<close> command, byte for byte, or the
  connection is still unauthenticated and the shared data, the transaction state, the watches and
  the ASKING flag are what they were when it connected.\<close>
theorem auth_gate:
  assumes "\<not> cn_authed c"
  shows "let c' = fold (on_read (process_command finish tf R sv other now) tf) chunks c in
    if cn_authed c' then presents_token sv (cn_buf c @ concat chunks)
    else ds_shared (cn_d c') = ds_shared (cn_d c) \<and> ds_conn (cn_d c') = ds_conn (cn_d c)"
  using reads_gate [OF refl assms, where finish = finish and tf = tf and R = R and sv = sv and other = other and now = now
      and chunks = chunks]
  unfolding untouched_def Let_def .

definition demo_conn :: "mem_db conn" where
  "demo_conn = \<lparr>cn_d = demo_state None, cn_authed = False, cn_buf = [], cn_sent = [], cn_open = True\<rparr>"

theorem auth_gate_witness:
  "\<not> cn_authed demo_conn \<and>
   (let c' = fold (on_read (process_command (\<lambda>_. 0) demo_text mem_rocksdb demo_server demo_handler 5) demo_text)
        [ascii ''*1'', [13, 10]] demo_conn in
    if cn_authed c' then presents_token demo_server (concat [ascii ''*1'', [13, 10]])
    else ds_shared (cn_d c') = raw_shared)"
proof -
  have c: "\<not> cn_authed demo_conn" by (simp add: demo_conn_def)
  moreover have "cn_buf demo_conn @ xs = xs" "ds_shared (cn_d demo_conn) = raw_shared" for xs
    by (simp_all add: demo_conn_def demo_state_def)
  ultimately show ?thesis
    using auth_gate [OF c, where finish = "\<lambda>_. 0" and tf = demo_text and R = mem_rocksdb and sv = demo_server
        and other = demo_handler and now = 5 and chunks = "[ascii ''*1'', [13, 10]]"]
    unfolding Let_def by (metis (no_types, lifting))
qed



end
