(* ===== verification/Rdb_Cmd.thy ===== *)
theory Rdb_Cmd
  imports Rdb_Sets Rdb_Tx
begin

text \<open>
  What the data commands share: argument parsing and replies (\<^verbatim>\<open>src/command/hash_cmd.rs\<close>), the
  resolution of a key on a handler's context, and what a commit does to it.
\<close>

section \<open>Replies and arguments (hash_cmd.rs)\<close>

definition WRONGTYPE :: bytes where
  "WRONGTYPE = ascii ''WRONGTYPE Operation against a key holding the wrong kind of value''"

definition arity :: "bytes \<Rightarrow> string \<Rightarrow> bytes" where
  "arity out cmd =
     append_error out (ascii (''ERR wrong number of arguments for '' @ [CHR 0x27] @ cmd @ [CHR 0x27] @ '' command''))"

text \<open>\<open>str::parse::<i64>\<close>: an optional sign, digits, and the range of \<open>i64\<close>.\<close>
definition parse_i64 :: "bytes \<Rightarrow> i64 option" where
  "parse_i64 arg =
     (let (neg, ds) = (case arg of
          c # cs \<Rightarrow> if c = 45 then (True, cs) else if c = 43 then (False, cs) else (False, arg)
        | [] \<Rightarrow> (False, arg));
          v = (if neg then - int (dec_val ds) else int (dec_val ds)) in
      if ds \<noteq> [] \<and> list_all is_ascii_digit ds \<and> - (2 ^ 63) \<le> v \<and> v < 2 ^ 63
      then Some (word_of_int v) else None)"

definition INTEGER_ERROR :: bytes where
  "INTEGER_ERROR = ascii ''ERR value is not an integer or out of range''"

text \<open>\<open>format!("ERR: {cmd} failed")\<close>.\<close>
definition failed_error :: "string \<Rightarrow> bytes" where
  "failed_error cmd = ascii (''ERR: '' @ cmd @ '' failed'')"

definition reply :: "(bytes \<Rightarrow> bytes) \<Rightarrow> 'db ctx \<Rightarrow> 'db ctx" where
  "reply f ctx = ctx\<lparr>cx_out := f (cx_out ctx)\<rparr>"

text \<open>A reply of several bulk strings.\<close>
definition append_bulks :: "bytes \<Rightarrow> bytes list \<Rightarrow> bytes" where
  "append_bulks out elems = fold (\<lambda>e out. append_bulk out e) elems (append_array out (length elems))"

section \<open>Multi-key commands (setops.rs)\<close>

definition require_same_slot :: "bytes list \<Rightarrow> 'db ctx \<Rightarrow> bool \<times> 'db ctx" where
  "require_same_slot keys ctx =
     (if same_slot keys then (True, ctx) else (False, reply (\<lambda>out. append_error out CROSSSLOT_ERROR) ctx))"

section \<open>The context of a handler\<close>

definition with_store :: "'db \<Rightarrow> 'db ctx \<Rightarrow> 'db ctx" where
  "with_store db ctx = ctx\<lparr>cx_shared := (cx_shared ctx)\<lparr>sh_store := db\<rparr>\<rparr>"

text \<open>\<open>resolve_arc\<close> on the shared state of a handler.\<close>
definition ctx_resolve_arc :: "'db rocksdb \<Rightarrow> bytes \<Rightarrow> u64 \<Rightarrow> 'db ctx \<Rightarrow> key_state \<times> 'db ctx" where
  "ctx_resolve_arc R key now ctx =
     (case resolve_arc R (cx_prefix ctx) key now (cx_shared ctx) of (st, sh) \<Rightarrow> (st, ctx\<lparr>cx_shared := sh\<rparr>))"

lemma with_store_simps [simp]:
  "cx_prefix (with_store db ctx) = cx_prefix ctx" "cx_args (with_store db ctx) = cx_args ctx"
  "sh_store (cx_shared (with_store db ctx)) = db" "(with_store db ctx)\<lparr>cx_wrote := w\<rparr> = with_store db (ctx\<lparr>cx_wrote := w\<rparr>)"
  "with_store db' (with_store db ctx) = with_store db' ctx"
  "cx_out (with_store db ctx) = cx_out ctx"
  by (simp_all add: with_store_def)

context healthy_rocksdb
begin

lemma commit_eq:
  "\<exists>db'. commit R batch ctx = (Inr (), ctx\<lparr>cx_wrote := True, cx_shared := (cx_shared ctx)\<lparr>sh_store := db'\<rparr>\<rparr>) \<and>
     content db' = apply_batch batch (content (sh_store (cx_shared ctx)))"
  by (intro exI [of _ "snd (db_write R (sh_store (cx_shared ctx)) batch)"])
     (simp add: commit_def batch_write_def case_prod_beta)

lemma commit_store:
  "\<exists>db'. commit R batch ctx = (Inr (), with_store db' (ctx\<lparr>cx_wrote := True\<rparr>)) \<and>
     content db' = apply_batch batch (content (sh_store (cx_shared ctx)))"
  using commit_eq [of batch ctx] by (simp add: with_store_def)

lemma ctx_resolve_arc_cases:
  obtains sh where "ctx_resolve_arc R key now ctx =
      (lookup (content (sh_store (cx_shared ctx))) (cx_prefix ctx) key now, ctx\<lparr>cx_shared := sh\<rparr>)"
    "sh_store sh = sh_store (cx_shared ctx)"
proof -
  obtain sh where "resolve_arc R (cx_prefix ctx) key now (cx_shared ctx) =
      (lookup (content (sh_store (cx_shared ctx))) (cx_prefix ctx) key now, sh)" "sh_store sh = sh_store (cx_shared ctx)"
    using resolve_arc_cases [of "cx_prefix ctx" key now "cx_shared ctx"] by blast
  then show ?thesis by (intro that [of sh]) (simp_all add: ctx_resolve_arc_def)
qed

end

end
