(* ===== verification/Rdb_Lists.thy ===== *)
theory Rdb_Lists
  imports Rdb_Cmd
begin

text \<open>
  Lists: the two-ended records of \<^verbatim>\<open>src/ds/list_ds.rs\<close> and the commands on them,
  \<^verbatim>\<open>src/command/list_cmd.rs\<close>, \<^verbatim>\<open>list_ops.rs\<close>, \<^verbatim>\<open>list_rewrite.rs\<close> and \<^verbatim>\<open>list_move.rs\<close>.
  A batch under construction is the list of entries a function adds.  A handler is a function of
  its context; the per-key latch makes it one step, and \<open>now\<close> is its clock reading.  The
  abstraction \<open>list_rep\<close> reads a list off the store, and each command is shown to be the list
  operation it stands for.
\<close>

section \<open>Records (list_ds.rs)\<close>

definition SUFFIX_LEN :: nat where
  "SUFFIX_LEN = 8"

record list_meta =
  lm_expire :: u64
  l_count :: u64
  l_next :: u64
  r_count :: u64
  r_next :: u64

definition lm_len :: "list_meta \<Rightarrow> u64" where
  "lm_len meta = l_count meta + r_count meta"

definition lm_is_empty :: "list_meta \<Rightarrow> bool" where
  "lm_is_empty meta \<longleftrightarrow> lm_len meta = 0"

definition l_base :: "list_meta \<Rightarrow> u64" where
  "l_base meta = l_next meta - l_count meta"

definition r_base :: "list_meta \<Rightarrow> u64" where
  "r_base meta = r_next meta - r_count meta"

datatype list_meta_read = ListMetaMissing | ListMetaPresent list_meta | ListMetaPurged | ListMetaFailed string

definition l_suffix :: "u64 \<Rightarrow> bytes" where
  "l_suffix l = u64_to_be (- 1 - l)"

definition r_suffix :: "u64 \<Rightarrow> bytes" where
  "r_suffix r = u64_to_be r"

definition encode_meta_payload :: "list_meta \<Rightarrow> bytes" where
  "encode_meta_payload meta =
     encode_count (l_count meta) @ encode_count (l_next meta) @ encode_count (r_count meta) @ encode_count (r_next meta)"

fun next_varint_loop :: "u64 \<Rightarrow> nat \<Rightarrow> bytes \<Rightarrow> u64 \<times> bytes" where
  "next_varint_loop v shift [] = (v, [])"
| "next_varint_loop v shift (b # bs) =
     (let v' = (if shift < 64 then v OR push_bit shift (ucast (b AND 0x7f)) else v)
      in if b AND 0x80 = 0 then (v', bs) else next_varint_loop v' (shift + 7) bs)"

definition next_varint :: "bytes \<Rightarrow> u64 \<times> bytes" where
  "next_varint bs = next_varint_loop 0 0 bs"

definition decode_meta_payload :: "u64 \<Rightarrow> bytes \<Rightarrow> list_meta" where
  "decode_meta_payload expire payload =
     (let (lc, rest) = next_varint payload;
          (ln, rest) = next_varint rest;
          (rc, rest) = next_varint rest;
          (rn, _) = next_varint rest in
      \<lparr>lm_expire = expire, l_count = lc, l_next = ln, r_count = rc, r_next = rn\<rparr>)"

definition list_meta_key :: "bytes \<Rightarrow> bytes \<Rightarrow> bytes" where
  "list_meta_key pfx key = data_key pfx KIND_LIST_META key"

definition list_read_meta ::
    "'db rocksdb \<Rightarrow> 'db \<Rightarrow> bytes \<Rightarrow> bytes \<Rightarrow> u64 \<Rightarrow> list_meta_read \<times> 'db" where
  "list_read_meta R db pfx key now =
     (case get_physical R db (list_meta_key pfx key) of
        Inl e \<Rightarrow> (ListMetaFailed e, db)
      | Inr None \<Rightarrow> (ListMetaMissing, db)
      | Inr (Some val) \<Rightarrow>
          (let (expire, payload) = decode_envelope val in
           if is_expired expire now then
             (case purge_if_expired R db pfx LIST_FAMILY key now of
                (True, db') \<Rightarrow> (ListMetaPurged, db')
              | (False, db') \<Rightarrow> (ListMetaFailed ''purge failed'', db'))
           else (ListMetaPresent (decode_meta_payload expire payload), db)))"

definition list_write_meta :: "bytes \<Rightarrow> bytes \<Rightarrow> list_meta \<Rightarrow> write_batch" where
  "list_write_meta pfx key meta =
     [Put (list_meta_key pfx key) (encode_envelope (lm_expire meta) (encode_meta_payload meta))]"

definition list_delete_family :: "'db rocksdb \<Rightarrow> bytes \<Rightarrow> bytes \<Rightarrow> u64 \<Rightarrow> write_batch" where
  "list_delete_family R pfx key expire = family_delete_entries R None pfx LIST_FAMILY key expire"

definition l_key :: "bytes \<Rightarrow> bytes \<Rightarrow> u64 \<Rightarrow> bytes" where
  "l_key pfx key l = elem_key pfx KIND_LIST_L key (l_suffix l)"

definition r_key :: "bytes \<Rightarrow> bytes \<Rightarrow> u64 \<Rightarrow> bytes" where
  "r_key pfx key r = elem_key pfx KIND_LIST_R key (r_suffix r)"

definition put_l :: "bytes \<Rightarrow> bytes \<Rightarrow> u64 \<Rightarrow> bytes \<Rightarrow> write_batch" where
  "put_l pfx key l elem = [Put (l_key pfx key l) elem]"

definition put_r :: "bytes \<Rightarrow> bytes \<Rightarrow> u64 \<Rightarrow> bytes \<Rightarrow> write_batch" where
  "put_r pfx key r elem = [Put (r_key pfx key r) elem]"

definition del_l :: "bytes \<Rightarrow> bytes \<Rightarrow> u64 \<Rightarrow> write_batch" where
  "del_l pfx key l = [Delete (l_key pfx key l)]"

definition del_r :: "bytes \<Rightarrow> bytes \<Rightarrow> u64 \<Rightarrow> write_batch" where
  "del_r pfx key r = [Delete (r_key pfx key r)]"

definition get_l :: "'db rocksdb \<Rightarrow> 'db \<Rightarrow> bytes \<Rightarrow> bytes \<Rightarrow> u64 \<Rightarrow> bytes option result" where
  "get_l R db pfx key l = get_physical R db (l_key pfx key l)"

definition get_r :: "'db rocksdb \<Rightarrow> 'db \<Rightarrow> bytes \<Rightarrow> bytes \<Rightarrow> u64 \<Rightarrow> bytes option result" where
  "get_r R db pfx key r = get_physical R db (r_key pfx key r)"

definition suffix_index :: "bytes \<Rightarrow> u64 option" where
  "suffix_index k =
     (if length k < SUFFIX_LEN then None
      else Some (u64_from_be (drop (length k - SUFFIX_LEN) k)))"

definition side_visit :: "bytes \<Rightarrow> bool \<Rightarrow> u64 \<Rightarrow> u64 \<Rightarrow> (u64 \<Rightarrow> bytes \<Rightarrow> 's \<Rightarrow> bool \<times> 's) \<Rightarrow> 's visitor" where
  "side_visit base left lo hi f k v s =
     (if \<not> Sublist.prefix base k then (False, s)
      else (case suffix_index k of
          None \<Rightarrow> (False, s)
        | Some raw \<Rightarrow>
            (let idx = (if left then - 1 - raw else raw) in
             if left \<and> idx < lo \<or> \<not> left \<and> idx > hi then (False, s) else f idx v s)))"

definition for_each_side ::
    "'db rocksdb \<Rightarrow> 'db \<Rightarrow> bytes \<Rightarrow> bytes \<Rightarrow> bool \<Rightarrow> u64 \<Rightarrow> u64 \<Rightarrow> (u64 \<Rightarrow> bytes \<Rightarrow> 's \<Rightarrow> bool \<times> 's) \<Rightarrow> 's \<Rightarrow>
     unit result \<times> 's" where
  "for_each_side R db pfx key left lo hi f s =
     (let from = (if left then l_key pfx key hi else r_key pfx key lo);
          base = data_key pfx (if left then KIND_LIST_L else KIND_LIST_R) key in
      for_each_from R db from False (side_visit base left lo hi f) s)"

text \<open>\<open>i64::try_from(len).unwrap_or(i64::MAX)\<close>; the sums below stay inside \<open>i64\<close>.\<close>
definition len_i64 :: "u64 \<Rightarrow> int" where
  "len_i64 len = (if uint len < 2 ^ 63 then uint len else 2 ^ 63 - 1)"

definition position_of :: "list_meta \<Rightarrow> i64 \<Rightarrow> u64 option" where
  "position_of meta pos =
     (let len = len_i64 (lm_len meta);
          p = (if sint pos < 0 then len + sint pos else sint pos) in
      if p \<ge> 0 \<and> (word_of_int p :: u64) < lm_len meta then Some (word_of_int p) else None)"

definition locate :: "list_meta \<Rightarrow> u64 \<Rightarrow> bool \<times> u64" where
  "locate meta p =
     (if p < l_count meta then (True, l_base meta + l_count meta - 1 - p)
      else (False, r_base meta + p - l_count meta))"

definition pop_left_target :: "list_meta \<Rightarrow> bool \<times> u64" where
  "pop_left_target meta = (if l_count meta > 0 then (True, l_next meta - 1) else (False, r_base meta))"

definition pop_right_target :: "list_meta \<Rightarrow> bool \<times> u64" where
  "pop_right_target meta = (if r_count meta > 0 then (False, r_next meta - 1) else (True, l_base meta))"

definition push_elem :: "u64 \<Rightarrow> bytes \<Rightarrow> bytes list \<Rightarrow> bool \<times> bytes list" where
  "push_elem _ elem out = (True, out @ [elem])"

definition collect_range ::
    "'db rocksdb \<Rightarrow> 'db \<Rightarrow> bytes \<Rightarrow> bytes \<Rightarrow> list_meta \<Rightarrow> u64 \<Rightarrow> u64 \<Rightarrow> bytes list result" where
  "collect_range R db pfx key meta start stop =
     (let len = lm_len meta in
      if start \<ge> len \<or> start > stop then Inr []
      else
        (let stop = min stop (len - 1);
             lpart = (if start < l_count meta then
                 (let l_hi = l_base meta + l_count meta - 1 - start;
                      l_lo = l_base meta + (l_count meta - 1 - min stop (l_count meta - 1)) in
                  for_each_side R db pfx key True l_lo l_hi push_elem [])
               else (Inr (), [])) in
         case lpart of
           (Inl e, _) \<Rightarrow> Inl e
         | (Inr _, out) \<Rightarrow>
             (let rpart = (if stop \<ge> l_count meta then
                  (let p0 = max start (l_count meta);
                       r_lo = r_base meta + p0 - l_count meta;
                       r_hi = r_base meta + stop - l_count meta in
                   for_each_side R db pfx key False r_lo r_hi push_elem out)
                else (Inr (), out)) in
              case rpart of (Inl e, _) \<Rightarrow> Inl e | (Inr _, out) \<Rightarrow> Inr out)))"

definition push_entry :: "u64 \<Rightarrow> bytes \<Rightarrow> (u64 \<times> bytes) list \<Rightarrow> bool \<times> (u64 \<times> bytes) list" where
  "push_entry idx elem out = (True, out @ [(idx, elem)])"

definition collect_side ::
    "'db rocksdb \<Rightarrow> 'db \<Rightarrow> bytes \<Rightarrow> bytes \<Rightarrow> list_meta \<Rightarrow> bool \<Rightarrow> (u64 \<times> bytes) list result" where
  "collect_side R db pfx key meta left =
     (if left \<and> l_count meta = 0 \<or> \<not> left \<and> r_count meta = 0 then Inr []
      else
        (let (lo, hi) = (if left then (l_base meta, l_next meta - 1) else (r_base meta, r_next meta - 1)) in
         case for_each_side R db pfx key left lo hi push_entry [] of
           (Inl e, _) \<Rightarrow> Inl e
         | (Inr _, out) \<Rightarrow> Inr out))"

section \<open>Shared helpers (list_cmd.rs)\<close>

definition blank_meta :: list_meta where
  "blank_meta = \<lparr>lm_expire = 0, l_count = 0, l_next = 0, r_count = 0, r_next = 0\<rparr>"

datatype list_state = ListMissing | ListThere u64 list_meta | ListWrongType

definition list_state_of ::
    "'db rocksdb \<Rightarrow> 'db \<Rightarrow> bytes \<Rightarrow> bytes \<Rightarrow> u64 \<Rightarrow> list_state \<times> 'db" where
  "list_state_of R db pfx key now =
     (case resolve R db pfx key now of
        (Missing, db) \<Rightarrow> (ListMissing, db)
      | (RawString _, db) \<Rightarrow> (ListWrongType, db)
      | (Enveloped kind expire payload, db) \<Rightarrow>
          if kind \<noteq> KIND_LIST_META then (ListWrongType, db)
          else (ListThere expire (decode_meta_payload expire payload), db))"

text \<open>\<open>list_state\<close> on the store of a handler's context.\<close>
definition ctx_list_state :: "'db rocksdb \<Rightarrow> bytes \<Rightarrow> u64 \<Rightarrow> 'db ctx \<Rightarrow> list_state \<times> 'db ctx" where
  "ctx_list_state R key now ctx =
     (case list_state_of R (sh_store (cx_shared ctx)) (cx_prefix ctx) key now of
        (st, db) \<Rightarrow> (st, ctx\<lparr>cx_shared := (cx_shared ctx)\<lparr>sh_store := db\<rparr>\<rparr>))"

definition commit_list ::
    "'db rocksdb \<Rightarrow> bytes \<Rightarrow> u64 \<Rightarrow> list_meta option \<Rightarrow> write_batch \<Rightarrow> string \<Rightarrow> 'db ctx \<Rightarrow> bool \<times> 'db ctx" where
  "commit_list R key expire meta batch cmd ctx =
     (let pfx = cx_prefix ctx;
          batch = batch @ (case meta of
              None \<Rightarrow> list_delete_family R pfx key expire
            | Some m \<Rightarrow> set_ttl_entries pfx (list_meta_key pfx key) expire expire @ list_write_meta pfx key m) in
      case commit R batch ctx of
        (Inr _, ctx) \<Rightarrow> (True, ctx)
      | (Inl _, ctx) \<Rightarrow> (False, reply (\<lambda>out. append_error out (failed_error cmd)) ctx))"

text \<open>The latches of several keys, in the order they are taken.\<close>
definition lock_sorted :: "bytes \<Rightarrow> bytes list \<Rightarrow> bytes list" where
  "lock_sorted pfx keys = remdups_adj (sort (map (latch_key pfx) keys))"

definition pop_one ::
    "'db rocksdb \<Rightarrow> 'db \<Rightarrow> bytes \<Rightarrow> bytes \<Rightarrow> list_meta \<Rightarrow> bool \<Rightarrow> (bytes \<times> list_meta) result" where
  "pop_one R db pfx key meta left =
     (let (is_left, idx) = (if left then pop_left_target meta else pop_right_target meta) in
      case (if is_left then get_l R db pfx key idx else get_r R db pfx key idx) of
        Inl e \<Rightarrow> Inl e
      | Inr found \<Rightarrow>
          (let elem = (case found of Some v \<Rightarrow> v | None \<Rightarrow> []);
               shrunk = (if is_left then
                   meta\<lparr>l_count := l_count meta - 1,
                        l_next := (if idx = l_next meta - 1 then l_next meta - 1 else l_next meta)\<rparr>
                 else
                   meta\<lparr>r_count := r_count meta - 1,
                        r_next := (if idx = r_next meta - 1 then r_next meta - 1 else r_next meta)\<rparr>) in
           Inr (elem, shrunk)))"

definition notify_list :: "bytes \<Rightarrow> nat \<Rightarrow> 'db ctx \<Rightarrow> 'db ctx" where
  "notify_list root n ctx =
     ctx\<lparr>cx_shared := (cx_shared ctx)\<lparr>sh_wait := snd (notify_n (sh_wait (cx_shared ctx)) root n)\<rparr>\<rparr>"

definition clamp_range :: "i64 \<Rightarrow> i64 \<Rightarrow> u64 \<Rightarrow> (u64 \<times> u64) option" where
  "clamp_range start stop len =
     (let len_i = len_i64 len;
          s = (if sint start < 0 then max (len_i + sint start) 0 else min (sint start) len_i);
          e = (if sint stop < 0 then len_i + sint stop else sint stop) in
      if e < 0 \<or> s > e \<or> s \<ge> len_i then None
      else Some (word_of_int s, word_of_int (min e (len_i - 1))))"

section \<open>Pushes and reads (list_cmd.rs)\<close>

definition push_batch :: "bytes \<Rightarrow> bytes \<Rightarrow> bool \<Rightarrow> list_meta \<Rightarrow> bytes list \<Rightarrow> write_batch" where
  "push_batch pfx key left meta elems =
     concat (map (\<lambda>(i, elem). if left then put_l pfx key (l_next meta + word_of_nat i) elem
       else put_r pfx key (r_next meta + word_of_nat i) elem) (enumerate 0 elems))"

definition push_meta :: "bool \<Rightarrow> u64 \<Rightarrow> list_meta \<Rightarrow> list_meta" where
  "push_meta left n meta =
     (if left then meta\<lparr>l_next := l_next meta + n, l_count := l_count meta + n\<rparr>
      else meta\<lparr>r_next := r_next meta + n, r_count := r_count meta + n\<rparr>)"

definition push_onto :: "'db rocksdb \<Rightarrow> bool \<Rightarrow> string \<Rightarrow> list_meta \<Rightarrow> 'db ctx \<Rightarrow> 'db ctx" where
  "push_onto R left cmd meta ctx =
     (let key = cx_args ctx ! 0;
          n = length (cx_args ctx) - 1;
          batch = push_batch (cx_prefix ctx) key left meta (drop 1 (cx_args ctx));
          meta = push_meta left (word_of_nat n) meta in
      case commit_list R key (lm_expire meta) (Some meta) batch cmd ctx of
        (True, ctx) \<Rightarrow>
          reply (\<lambda>out. append_int out (lm_len meta)) (notify_list (list_meta_key (cx_prefix ctx) key) n ctx)
      | (False, ctx) \<Rightarrow> ctx)"

definition push_variant :: "'db rocksdb \<Rightarrow> u64 \<Rightarrow> bool \<Rightarrow> bool \<Rightarrow> string \<Rightarrow> 'db ctx \<Rightarrow> 'db ctx" where
  "push_variant R now left create cmd ctx =
     (if length (cx_args ctx) < 2 then reply (\<lambda>out. arity out cmd) ctx
      else
        (case ctx_list_state R (cx_args ctx ! 0) now ctx of
           (ListThere _ meta, ctx) \<Rightarrow> push_onto R left cmd meta ctx
         | (ListMissing, ctx) \<Rightarrow>
             if create then push_onto R left cmd blank_meta ctx else reply (\<lambda>out. append_int out 0) ctx
         | (ListWrongType, ctx) \<Rightarrow> reply (\<lambda>out. append_error out WRONGTYPE) ctx))"

definition lpush :: "'db rocksdb \<Rightarrow> u64 \<Rightarrow> 'db ctx \<Rightarrow> 'db ctx" where
  "lpush R now = push_variant R now True True ''lpush''"

definition rpush :: "'db rocksdb \<Rightarrow> u64 \<Rightarrow> 'db ctx \<Rightarrow> 'db ctx" where
  "rpush R now = push_variant R now False True ''rpush''"

definition lpushx :: "'db rocksdb \<Rightarrow> u64 \<Rightarrow> 'db ctx \<Rightarrow> 'db ctx" where
  "lpushx R now = push_variant R now True False ''lpushx''"

definition rpushx :: "'db rocksdb \<Rightarrow> u64 \<Rightarrow> 'db ctx \<Rightarrow> 'db ctx" where
  "rpushx R now = push_variant R now False False ''rpushx''"

definition llen :: "'db rocksdb \<Rightarrow> u64 \<Rightarrow> 'db ctx \<Rightarrow> 'db ctx" where
  "llen R now ctx =
     (if length (cx_args ctx) \<noteq> 1 then reply (\<lambda>out. arity out ''llen'') ctx
      else
        (case ctx_list_state R (cx_args ctx ! 0) now ctx of
           (ListThere _ meta, ctx) \<Rightarrow> reply (\<lambda>out. append_int out (lm_len meta)) ctx
         | (ListMissing, ctx) \<Rightarrow> reply (\<lambda>out. append_int out 0) ctx
         | (ListWrongType, ctx) \<Rightarrow> reply (\<lambda>out. append_error out WRONGTYPE) ctx))"

definition lrange :: "'db rocksdb \<Rightarrow> u64 \<Rightarrow> 'db ctx \<Rightarrow> 'db ctx" where
  "lrange R now ctx =
     (if length (cx_args ctx) \<noteq> 3 then reply (\<lambda>out. arity out ''lrange'') ctx
      else
        (case (parse_i64 (cx_args ctx ! 1), parse_i64 (cx_args ctx ! 2)) of
           (Some start, Some stop) \<Rightarrow>
             (let key = cx_args ctx ! 0 in
              case ctx_list_state R key now ctx of
                (ListThere _ meta, ctx) \<Rightarrow>
                  (case (case clamp_range start stop (lm_len meta) of
                      None \<Rightarrow> Inr []
                    | Some (from, to) \<Rightarrow>
                        collect_range R (sh_store (cx_shared ctx)) (cx_prefix ctx) key meta from to) of
                     Inr elems \<Rightarrow> reply (\<lambda>out. append_bulks out elems) ctx
                   | Inl _ \<Rightarrow> reply (\<lambda>out. append_error out (failed_error ''lrange'')) ctx)
              | (ListMissing, ctx) \<Rightarrow> reply (\<lambda>out. append_array out 0) ctx
              | (ListWrongType, ctx) \<Rightarrow> reply (\<lambda>out. append_error out WRONGTYPE) ctx)
         | _ \<Rightarrow> reply (\<lambda>out. append_error out INTEGER_ERROR) ctx))"

definition lindex :: "'db rocksdb \<Rightarrow> u64 \<Rightarrow> 'db ctx \<Rightarrow> 'db ctx" where
  "lindex R now ctx =
     (if length (cx_args ctx) \<noteq> 2 then reply (\<lambda>out. arity out ''lindex'') ctx
      else
        (case parse_i64 (cx_args ctx ! 1) of
           Some index \<Rightarrow>
             (let key = cx_args ctx ! 0 in
              case ctx_list_state R key now ctx of
                (ListThere _ meta, ctx) \<Rightarrow>
                  (let db = sh_store (cx_shared ctx); pfx = cx_prefix ctx;
                       fetched = map_option (\<lambda>p. case locate meta p of (is_left, idx) \<Rightarrow>
                         if is_left then get_l R db pfx key idx else get_r R db pfx key idx) (position_of meta index) in
                   case fetched of
                     Some (Inr (Some elem)) \<Rightarrow> reply (\<lambda>out. append_bulk out elem) ctx
                   | Some (Inr None) \<Rightarrow> reply append_null ctx
                   | Some (Inl _) \<Rightarrow> reply (\<lambda>out. append_error out (failed_error ''lindex'')) ctx
                   | None \<Rightarrow> reply append_null ctx)
              | (ListMissing, ctx) \<Rightarrow> reply append_null ctx
              | (ListWrongType, ctx) \<Rightarrow> reply (\<lambda>out. append_error out WRONGTYPE) ctx)
         | None \<Rightarrow> reply (\<lambda>out. append_error out INTEGER_ERROR) ctx))"

definition lset :: "'db rocksdb \<Rightarrow> u64 \<Rightarrow> 'db ctx \<Rightarrow> 'db ctx" where
  "lset R now ctx =
     (if length (cx_args ctx) \<noteq> 3 then reply (\<lambda>out. arity out ''lset'') ctx
      else
        (case parse_i64 (cx_args ctx ! 1) of
           Some index \<Rightarrow>
             (let key = cx_args ctx ! 0; elem = cx_args ctx ! 2 in
              case ctx_list_state R key now ctx of
                (ListThere expire meta, ctx) \<Rightarrow>
                  (case position_of meta index of
                     None \<Rightarrow> reply (\<lambda>out. append_error out (ascii ''ERR index out of range'')) ctx
                   | Some p \<Rightarrow>
                       (let (is_left, idx) = locate meta p;
                            batch = (if is_left then put_l (cx_prefix ctx) key idx elem
                                     else put_r (cx_prefix ctx) key idx elem) in
                        case commit_list R key expire (Some meta) batch ''lset'' ctx of
                          (True, ctx) \<Rightarrow> reply (\<lambda>out. append_string out (ascii ''OK'')) ctx
                        | (False, ctx) \<Rightarrow> ctx))
              | (ListMissing, ctx) \<Rightarrow> reply (\<lambda>out. append_error out (ascii ''ERR no such key'')) ctx
              | (ListWrongType, ctx) \<Rightarrow> reply (\<lambda>out. append_error out WRONGTYPE) ctx)
         | None \<Rightarrow> reply (\<lambda>out. append_error out INTEGER_ERROR) ctx))"

section \<open>Pops (list_ops.rs)\<close>

text \<open>The deletes of a pop of \<open>n\<close> elements and the counters after it.\<close>
definition pop_plan :: "bytes \<Rightarrow> bytes \<Rightarrow> list_meta \<Rightarrow> bool \<Rightarrow> u64 \<Rightarrow> write_batch \<times> list_meta" where
  "pop_plan pfx key meta left n =
     (let (take_l, take_r) = (if left then (min n (l_count meta), n - min n (l_count meta))
            else (n - min n (r_count meta), min n (r_count meta)));
          dels_l = (\<lambda>f. concat (map (\<lambda>i. del_l pfx key (f (word_of_nat i))) [0..<unat take_l]));
          dels_r = (\<lambda>f. concat (map (\<lambda>i. del_r pfx key (f (word_of_nat i))) [0..<unat take_r])) in
      if left then
        (dels_l (\<lambda>i. l_next meta - 1 - i) @ dels_r (\<lambda>i. r_base meta + i),
         meta\<lparr>l_next := l_next meta - take_l, l_count := l_count meta - take_l, r_count := r_count meta - take_r\<rparr>)
      else
        (dels_r (\<lambda>i. r_next meta - 1 - i) @ dels_l (\<lambda>i. l_base meta + i),
         meta\<lparr>r_next := r_next meta - take_r, r_count := r_count meta - take_r, l_count := l_count meta - take_l\<rparr>))"

definition pop_elems ::
    "'db rocksdb \<Rightarrow> 'db \<Rightarrow> bytes \<Rightarrow> bytes \<Rightarrow> list_meta \<Rightarrow> bool \<Rightarrow> u64 \<Rightarrow> bytes list result" where
  "pop_elems R db pfx key meta left n =
     (let len = lm_len meta in
      if n = 1 then
        (case pop_one R db pfx key meta left of Inr (elem, _) \<Rightarrow> Inr [elem] | Inl e \<Rightarrow> Inl e)
      else
        (let (from, to) = (if left then (0, n - 1) else (len - n, len - 1)) in
         case collect_range R db pfx key meta from to of
           Inr v \<Rightarrow> Inr (if left then v else rev v)
         | Inl e \<Rightarrow> Inl e))"

definition pop_core ::
    "'db rocksdb \<Rightarrow> u64 \<Rightarrow> bytes \<Rightarrow> bool \<Rightarrow> i64 option \<Rightarrow> string \<Rightarrow> 'db ctx \<Rightarrow> bytes list option \<times> 'db ctx" where
  "pop_core R now key left count cmd ctx =
     (case ctx_list_state R key now ctx of
        (ListMissing, ctx) \<Rightarrow> (Some [], ctx)
      | (ListWrongType, ctx) \<Rightarrow> (None, reply (\<lambda>out. append_error out WRONGTYPE) ctx)
      | (ListThere expire meta, ctx) \<Rightarrow>
          (let len = lm_len meta in
           if len = 0 \<or> count = Some 0 then (Some [], ctx)
           else
             (let n = (case count of None \<Rightarrow> 1 | Some c \<Rightarrow> min c len) in
              case pop_elems R (sh_store (cx_shared ctx)) (cx_prefix ctx) key meta left n of
                Inl _ \<Rightarrow> (None, reply (\<lambda>out. append_error out (failed_error cmd)) ctx)
              | Inr elems \<Rightarrow>
                  (let (batch, shrunk) = pop_plan (cx_prefix ctx) key meta left n in
                   case commit_list R key expire (if lm_is_empty shrunk then None else Some shrunk) batch cmd ctx of
                     (True, ctx) \<Rightarrow> (Some elems, ctx)
                   | (False, ctx) \<Rightarrow> (None, ctx)))))"

definition pop :: "'db rocksdb \<Rightarrow> u64 \<Rightarrow> bool \<Rightarrow> string \<Rightarrow> 'db ctx \<Rightarrow> 'db ctx" where
  "pop R now left cmd ctx =
     (if cx_args ctx = [] \<or> length (cx_args ctx) > 2 then reply (\<lambda>out. arity out cmd) ctx
      else
        (case (case get_at 1 (cx_args ctx) of None \<Rightarrow> Some None | Some arg \<Rightarrow> map_option Some (parse_i64 arg)) of
           None \<Rightarrow> reply (\<lambda>out. append_error out INTEGER_ERROR) ctx
         | Some count \<Rightarrow>
             if (case count of Some c \<Rightarrow> sint c < 0 | None \<Rightarrow> False) then
               reply (\<lambda>out. append_error out (ascii ''ERR value is out of range, must be positive'')) ctx
             else
               (case pop_core R now (cx_args ctx ! 0) left count cmd ctx of
                  (None, ctx) \<Rightarrow> ctx
                | (Some elems, ctx) \<Rightarrow>
                    (case count of
                       None \<Rightarrow>
                         (case first_of elems of
                            Some e \<Rightarrow> reply (\<lambda>out. append_bulk out e) ctx
                          | None \<Rightarrow> reply append_null ctx)
                     | Some _ \<Rightarrow> reply (\<lambda>out. append_bulks out elems) ctx))))"

definition lpop :: "'db rocksdb \<Rightarrow> u64 \<Rightarrow> 'db ctx \<Rightarrow> 'db ctx" where
  "lpop R now = pop R now True ''lpop''"

definition rpop :: "'db rocksdb \<Rightarrow> u64 \<Rightarrow> 'db ctx \<Rightarrow> 'db ctx" where
  "rpop R now = pop R now False ''rpop''"

section \<open>Rewrites (list_rewrite.rs)\<close>

type_synonym side_entries = "(u64 \<times> bytes) list"

definition sides ::
    "'db rocksdb \<Rightarrow> 'db \<Rightarrow> bytes \<Rightarrow> bytes \<Rightarrow> list_meta \<Rightarrow> (side_entries \<times> side_entries) result" where
  "sides R db pfx key meta =
     (case collect_side R db pfx key meta True of
        Inl e \<Rightarrow> Inl e
      | Inr l \<Rightarrow> (case collect_side R db pfx key meta False of Inl e \<Rightarrow> Inl e | Inr r \<Rightarrow> Inr (l, r)))"

definition compact_side :: "bytes \<Rightarrow> bytes \<Rightarrow> side_entries \<Rightarrow> u64 list \<Rightarrow> bool \<Rightarrow> write_batch \<times> u64" where
  "compact_side pfx key live kill left =
     (case live of
        [] \<Rightarrow> ([], 0)
      | (i, _) # _ \<Rightarrow>
          (let nxt = (if left then i + 1 else fst (List.last live) + 1);
               kept = filter (\<lambda>(i, _). i \<notin> set kill) live;
               count = word_of_nat (length kept);
               target = (\<lambda>i. if left then nxt - 1 - word_of_nat i else nxt - count + word_of_nat i);
               del = (\<lambda>i. if left then del_l pfx key i else del_r pfx key i) in
           (concat (map del kill) @
            concat (map (\<lambda>(i, (old, _)). if old \<noteq> target i then del old else []) (enumerate 0 kept)) @
            concat (map (\<lambda>(i, (_, elem)). if left then put_l pfx key (target i) elem
              else put_r pfx key (target i) elem) (enumerate 0 kept)),
            count)))"

text \<open>The marking loop of \<open>LREM\<close>: the indices to kill on each side.\<close>
fun mark_kills :: "u64 \<Rightarrow> bytes \<Rightarrow> (bool \<times> u64 \<times> bytes) list \<Rightarrow> u64 list \<times> u64 list \<Rightarrow> u64 list \<times> u64 list" where
  "mark_kills budget elem [] kills = kills"
| "mark_kills budget elem ((is_left, idx, e) # todo) (kill_l, kill_r) =
     (if budget = 0 then (kill_l, kill_r)
      else if e = elem then
        mark_kills (budget - 1) elem todo
          (if is_left then (kill_l @ [idx], kill_r) else (kill_l, kill_r @ [idx]))
      else mark_kills budget elem todo (kill_l, kill_r))"

text \<open>Both sides rewritten: the batch and the counters.\<close>
definition compact_both ::
    "bytes \<Rightarrow> bytes \<Rightarrow> list_meta \<Rightarrow> side_entries \<Rightarrow> side_entries \<Rightarrow> u64 list \<Rightarrow> u64 list \<Rightarrow> write_batch \<times> list_meta" where
  "compact_both pfx key meta lside rside kill_l kill_r =
     (let (batch_l, meta) = (if kill_l \<noteq> [] then
            (case compact_side pfx key lside kill_l True of (b, c) \<Rightarrow> (b, meta\<lparr>l_count := c\<rparr>)) else ([], meta));
          (batch_r, meta) = (if kill_r \<noteq> [] then
            (case compact_side pfx key rside kill_r False of (b, c) \<Rightarrow> (b, meta\<lparr>r_count := c\<rparr>)) else ([], meta)) in
      (batch_l @ batch_r, meta))"

definition lrem :: "'db rocksdb \<Rightarrow> u64 \<Rightarrow> 'db ctx \<Rightarrow> 'db ctx" where
  "lrem R now ctx =
     (if length (cx_args ctx) \<noteq> 3 then reply (\<lambda>out. arity out ''lrem'') ctx
      else
        (let key = cx_args ctx ! 0; elem = cx_args ctx ! 2 in
         case parse_i64 (cx_args ctx ! 1) of
           None \<Rightarrow> reply (\<lambda>out. append_error out INTEGER_ERROR) ctx
         | Some cnt \<Rightarrow>
             (case ctx_list_state R key now ctx of
                (ListMissing, ctx) \<Rightarrow> reply (\<lambda>out. append_int out 0) ctx
              | (ListWrongType, ctx) \<Rightarrow> reply (\<lambda>out. append_error out WRONGTYPE) ctx
              | (ListThere expire meta, ctx) \<Rightarrow>
                  (case sides R (sh_store (cx_shared ctx)) (cx_prefix ctx) key meta of
                     Inl _ \<Rightarrow> reply (\<lambda>out. append_error out (failed_error ''lrem'')) ctx
                   | Inr (lside, rside) \<Rightarrow>
                       (let budget = (if cnt = 0 then - 1 else word_of_int \<bar>sint cnt\<bar>);
                            todo = map (\<lambda>(i, e). (True, i, e)) lside @ map (\<lambda>(i, e). (False, i, e)) rside;
                            todo = (if sint cnt < 0 then rev todo else todo);
                            (kill_l, kill_r) = mark_kills budget elem todo ([], []);
                            removed = length kill_l + length kill_r;
                            (batch, shrunk) = compact_both (cx_prefix ctx) key meta lside rside kill_l kill_r in
                        case commit_list R key expire (if lm_is_empty shrunk then None else Some shrunk) batch ''lrem'' ctx of
                          (True, ctx) \<Rightarrow> reply (\<lambda>out. append_int out (word_of_nat removed)) ctx
                        | (False, ctx) \<Rightarrow> ctx)))))"

definition ltrim :: "'db rocksdb \<Rightarrow> u64 \<Rightarrow> 'db ctx \<Rightarrow> 'db ctx" where
  "ltrim R now ctx =
     (if length (cx_args ctx) \<noteq> 3 then reply (\<lambda>out. arity out ''ltrim'') ctx
      else
        (let key = cx_args ctx ! 0 in
         case (parse_i64 (cx_args ctx ! 1), parse_i64 (cx_args ctx ! 2)) of
           (Some start, Some stop) \<Rightarrow>
             (case ctx_list_state R key now ctx of
                (ListMissing, ctx) \<Rightarrow> reply (\<lambda>out. append_string out (ascii ''OK'')) ctx
              | (ListWrongType, ctx) \<Rightarrow> reply (\<lambda>out. append_error out WRONGTYPE) ctx
              | (ListThere expire meta, ctx) \<Rightarrow>
                  (case clamp_range start stop (lm_len meta) of
                     None \<Rightarrow>
                       (case commit_list R key expire None [] ''ltrim'' ctx of
                          (True, ctx) \<Rightarrow> reply (\<lambda>out. append_string out (ascii ''OK'')) ctx
                        | (False, ctx) \<Rightarrow> ctx)
                   | Some (from, to) \<Rightarrow>
                       (case sides R (sh_store (cx_shared ctx)) (cx_prefix ctx) key meta of
                          Inl _ \<Rightarrow> reply (\<lambda>out. append_error out (failed_error ''ltrim'')) ctx
                        | Inr (lside, rside) \<Rightarrow>
                            (let gone = (\<lambda>p. p < from \<or> p > to);
                                 kill_l = filter (\<lambda>i. gone (l_base meta + l_count meta - 1 - i)) (map fst lside);
                                 kill_r = filter (\<lambda>i. gone (l_count meta + (i - r_base meta))) (map fst rside);
                                 (batch, shrunk) = compact_both (cx_prefix ctx) key meta lside rside kill_l kill_r in
                             case commit_list R key expire (if lm_is_empty shrunk then None else Some shrunk) batch ''ltrim'' ctx of
                               (True, ctx) \<Rightarrow> reply (\<lambda>out. append_string out (ascii ''OK'')) ctx
                             | (False, ctx) \<Rightarrow> ctx))))
         | _ \<Rightarrow> reply (\<lambda>out. append_error out INTEGER_ERROR) ctx))"

section \<open>Inserts, searches and moves (list_move.rs)\<close>

definition parse_dirs :: "bytes \<Rightarrow> bytes \<Rightarrow> (bool \<times> bool) option" where
  "parse_dirs popd pushd =
     (let dir = (\<lambda>d. if to_ascii_uppercase d = ascii ''LEFT'' then Some True
                     else if to_ascii_uppercase d = ascii ''RIGHT'' then Some False else None) in
      case dir popd of
        None \<Rightarrow> None
      | Some a \<Rightarrow> (case dir pushd of None \<Rightarrow> None | Some b \<Rightarrow> Some (a, b)))"

text \<open>The batch and counters of an insert at logical position \<open>at\<close>.\<close>
definition insert_plan ::
    "bytes \<Rightarrow> bytes \<Rightarrow> list_meta \<Rightarrow> side_entries \<Rightarrow> side_entries \<Rightarrow> nat \<Rightarrow> bytes \<Rightarrow> write_batch \<times> list_meta" where
  "insert_plan pfx key meta lside rside at elem =
     (if at < length lside then
        (concat (map (\<lambda>(idx, _). del_l pfx key idx) (take at lside)) @
         concat (map (\<lambda>(idx, e). put_l pfx key (idx + 1) e) (rev (take at lside))) @
         put_l pfx key (l_next meta - word_of_nat at) elem,
         meta\<lparr>l_next := l_next meta + 1, l_count := l_count meta + 1\<rparr>)
      else
        (let tk = at - length lside in
         (concat (map (\<lambda>(idx, _). del_r pfx key idx) (drop tk rside)) @
          concat (map (\<lambda>(idx, e). put_r pfx key (idx + 1) e) (rev (drop tk rside))) @
          put_r pfx key (r_base meta + word_of_nat tk) elem,
          meta\<lparr>r_next := r_next meta + 1, r_count := r_count meta + 1\<rparr>)))"

definition linsert :: "'db rocksdb \<Rightarrow> u64 \<Rightarrow> 'db ctx \<Rightarrow> 'db ctx" where
  "linsert R now ctx =
     (if length (cx_args ctx) \<noteq> 4 then reply (\<lambda>out. arity out ''linsert'') ctx
      else
        (let key = cx_args ctx ! 0; dir = to_ascii_uppercase (cx_args ctx ! 1);
             pivot = cx_args ctx ! 2; elem = cx_args ctx ! 3 in
         if dir \<noteq> ascii ''BEFORE'' \<and> dir \<noteq> ascii ''AFTER'' then
           reply (\<lambda>out. append_error out (ascii ''ERR syntax error'')) ctx
         else
           (let before = (dir = ascii ''BEFORE'') in
            case ctx_list_state R key now ctx of
              (ListMissing, ctx) \<Rightarrow> reply (\<lambda>out. append_int out 0) ctx
            | (ListWrongType, ctx) \<Rightarrow> reply (\<lambda>out. append_error out WRONGTYPE) ctx
            | (ListThere expire meta, ctx) \<Rightarrow>
                (case sides R (sh_store (cx_shared ctx)) (cx_prefix ctx) key meta of
                   Inl _ \<Rightarrow> reply (\<lambda>out. append_error out (failed_error ''linsert'')) ctx
                 | Inr (lside, rside) \<Rightarrow>
                     (case position (\<lambda>e. e = pivot) (map snd lside @ map snd rside) of
                        None \<Rightarrow> reply (\<lambda>out. append_int out (- 1)) ctx
                      | Some p \<Rightarrow>
                          (let at = p + (if before then 0 else 1);
                               (batch, grown) = insert_plan (cx_prefix ctx) key meta lside rside at elem in
                           case commit_list R key expire (Some grown) batch ''linsert'' ctx of
                             (True, ctx) \<Rightarrow>
                               reply (\<lambda>out. append_int out (lm_len grown))
                                 (notify_list (list_meta_key (cx_prefix ctx) key) 1 ctx)
                           | (False, ctx) \<Rightarrow> ctx))))))"

datatype lpos_options = LposSyntax | LposInteger | LposOptions i64 "i64 option" i64

fun lpos_parse :: "bytes list \<Rightarrow> i64 \<Rightarrow> i64 option \<Rightarrow> i64 \<Rightarrow> lpos_options" where
  "lpos_parse [] rank count maxlen = LposOptions rank count maxlen"
| "lpos_parse [_] rank count maxlen = LposSyntax"
| "lpos_parse (kw # val # rest) rank count maxlen =
     (let keyword = to_ascii_uppercase kw in
      if keyword \<noteq> ascii ''RANK'' \<and> keyword \<noteq> ascii ''COUNT'' \<and> keyword \<noteq> ascii ''MAXLEN'' then LposSyntax
      else
        (case parse_i64 val of
           None \<Rightarrow> LposInteger
         | Some v \<Rightarrow>
             if keyword = ascii ''RANK'' then lpos_parse rest v count maxlen
             else if keyword = ascii ''COUNT'' then lpos_parse rest rank (Some v) maxlen
             else lpos_parse rest rank count v))"

text \<open>The match loop; \<open>tk\<close> is \<open>None\<close> for \<open>usize::MAX\<close>.\<close>
fun lpos_pick :: "bytes \<Rightarrow> nat \<Rightarrow> nat option \<Rightarrow> nat \<Rightarrow> nat list \<Rightarrow> (nat \<times> bytes) list \<Rightarrow> nat list" where
  "lpos_pick elem skip tk seen picked [] = picked"
| "lpos_pick elem skip tk seen picked ((p, e) # es) =
     (if e = elem then
        (if seen + 1 > skip then
           (if Some (length picked + 1) = tk then picked @ [p]
            else lpos_pick elem skip tk (seen + 1) (picked @ [p]) es)
         else lpos_pick elem skip tk (seen + 1) picked es)
      else lpos_pick elem skip tk seen picked es)"

definition lpos_scan :: "bytes list \<Rightarrow> bytes \<Rightarrow> i64 \<Rightarrow> i64 option \<Rightarrow> i64 \<Rightarrow> nat list" where
  "lpos_scan elems elem rank count maxlen =
     (let es = enumerate 0 elems;
          es = (if sint maxlen > 0 then
                  (if sint rank < 0 then drop (length es - nat (sint maxlen)) es else take (nat (sint maxlen)) es)
                else es);
          es = (if sint rank < 0 then rev es else es);
          skip = nat \<bar>sint rank\<bar> - 1;
          tk = (case count of None \<Rightarrow> Some 1 | Some c \<Rightarrow> if c = 0 then None else Some (nat (sint c))) in
      lpos_pick elem skip tk 0 [] es)"

definition lpos :: "'db rocksdb \<Rightarrow> u64 \<Rightarrow> 'db ctx \<Rightarrow> 'db ctx" where
  "lpos R now ctx =
     (if length (cx_args ctx) < 2 then reply (\<lambda>out. arity out ''lpos'') ctx
      else
        (let key = cx_args ctx ! 0; elem = cx_args ctx ! 1 in
         case lpos_parse (drop 2 (cx_args ctx)) 1 None 0 of
           LposSyntax \<Rightarrow> reply (\<lambda>out. append_error out (ascii ''ERR syntax error'')) ctx
         | LposInteger \<Rightarrow> reply (\<lambda>out. append_error out INTEGER_ERROR) ctx
         | LposOptions rank count maxlen \<Rightarrow>
             if rank = 0 then reply (\<lambda>out. append_error out (ascii ''ERR RANK can't be zero'')) ctx
             else if (case count of Some c \<Rightarrow> sint c < 0 | None \<Rightarrow> False) then
               reply (\<lambda>out. append_error out (ascii ''ERR COUNT can't be negative'')) ctx
             else if sint maxlen < 0 then
               reply (\<lambda>out. append_error out (ascii ''ERR MAXLEN can't be negative'')) ctx
             else
               (case ctx_list_state R key now ctx of
                  (ListMissing, ctx) \<Rightarrow>
                    reply (case count of None \<Rightarrow> append_null | Some _ \<Rightarrow> \<lambda>out. append_array out 0) ctx
                | (ListWrongType, ctx) \<Rightarrow> reply (\<lambda>out. append_error out WRONGTYPE) ctx
                | (ListThere _ meta, ctx) \<Rightarrow>
                    (case sides R (sh_store (cx_shared ctx)) (cx_prefix ctx) key meta of
                       Inl _ \<Rightarrow> reply (\<lambda>out. append_error out (failed_error ''lpos'')) ctx
                     | Inr (lside, rside) \<Rightarrow>
                         (let picked = lpos_scan (map snd lside @ map snd rside) elem rank count maxlen in
                          case count of
                            None \<Rightarrow>
                              (case first_of picked of
                                 Some p \<Rightarrow> reply (\<lambda>out. append_int out (word_of_nat p)) ctx
                               | None \<Rightarrow> reply append_null ctx)
                          | Some _ \<Rightarrow>
                              reply (\<lambda>out. fold (\<lambda>p out. append_int out (word_of_nat p)) picked
                                (append_array out (length picked))) ctx)))))"

text \<open>The batch of a move and the counters of the destination.\<close>
definition move_plan ::
    "'db rocksdb \<Rightarrow> bytes \<Rightarrow> bytes \<Rightarrow> bytes \<Rightarrow> u64 \<Rightarrow> u64 \<Rightarrow> list_meta \<Rightarrow> list_meta \<Rightarrow> list_meta \<Rightarrow> bytes \<Rightarrow>
     bool \<Rightarrow> bool \<Rightarrow> write_batch" where
  "move_plan R pfx src dst src_expire dst_expire src_meta src_after dst_meta elem pop_left push_left =
     (let (pop_is_left, pop_idx) = (if pop_left then pop_left_target src_meta else pop_right_target src_meta);
          dst_old = (if src = dst then src_after else dst_meta);
          dst_after = (if push_left
            then dst_old\<lparr>l_next := l_next dst_old + 1, l_count := l_count dst_old + 1\<rparr>
            else dst_old\<lparr>r_next := r_next dst_old + 1, r_count := r_count dst_old + 1\<rparr>) in
      (if pop_is_left then del_l pfx src pop_idx else del_r pfx src pop_idx) @
      (if src = dst then []
       else if lm_is_empty src_after then list_delete_family R pfx src src_expire
       else set_ttl_entries pfx (list_meta_key pfx src) src_expire src_expire @ list_write_meta pfx src src_after) @
      (if push_left then put_l pfx dst (l_next dst_old) elem else put_r pfx dst (r_next dst_old) elem) @
      set_ttl_entries pfx (list_meta_key pfx dst) dst_expire dst_expire @
      list_write_meta pfx dst dst_after)"

definition move_elem ::
    "'db rocksdb \<Rightarrow> u64 \<Rightarrow> bytes \<Rightarrow> bytes \<Rightarrow> bool \<Rightarrow> bool \<Rightarrow> string \<Rightarrow> 'db ctx \<Rightarrow> 'db ctx" where
  "move_elem R now src dst pop_left push_left cmd ctx =
     (if \<not> same_slot [src, dst] then
        reply (\<lambda>out. append_error out CROSSSLOT_ERROR) ctx
      else
        (case ctx_list_state R src now ctx of
           (ListMissing, ctx) \<Rightarrow> reply append_null ctx
         | (ListWrongType, ctx) \<Rightarrow> reply (\<lambda>out. append_error out WRONGTYPE) ctx
         | (ListThere src_expire src_meta, ctx) \<Rightarrow>
             if lm_is_empty src_meta then reply append_null ctx
             else
               (let go = (\<lambda>dst_expire dst_meta ctx.
                  case pop_one R (sh_store (cx_shared ctx)) (cx_prefix ctx) src src_meta pop_left of
                    Inl _ \<Rightarrow> reply (\<lambda>out. append_error out (failed_error cmd)) ctx
                  | Inr (elem, src_after) \<Rightarrow>
                      (case commit R (move_plan R (cx_prefix ctx) src dst src_expire dst_expire src_meta src_after
                          dst_meta elem pop_left push_left) ctx of
                         (Inr _, ctx) \<Rightarrow>
                           reply (\<lambda>out. append_bulk out elem)
                             (notify_list (list_meta_key (cx_prefix ctx) src) 1
                               (notify_list (list_meta_key (cx_prefix ctx) dst) 1 ctx))
                       | (Inl _, ctx) \<Rightarrow> reply (\<lambda>out. append_error out (failed_error cmd)) ctx)) in
                case ctx_list_state R dst now ctx of
                  (ListThere dst_expire dst_meta, ctx) \<Rightarrow> go dst_expire dst_meta ctx
                | (ListMissing, ctx) \<Rightarrow> go 0 blank_meta ctx
                | (ListWrongType, ctx) \<Rightarrow> reply (\<lambda>out. append_error out WRONGTYPE) ctx)))"

definition lmove :: "'db rocksdb \<Rightarrow> u64 \<Rightarrow> 'db ctx \<Rightarrow> 'db ctx" where
  "lmove R now ctx =
     (if length (cx_args ctx) \<noteq> 4 then reply (\<lambda>out. arity out ''lmove'') ctx
      else
        (case parse_dirs (cx_args ctx ! 2) (cx_args ctx ! 3) of
           None \<Rightarrow> reply (\<lambda>out. append_error out (ascii ''ERR syntax error'')) ctx
         | Some (pop_left, push_left) \<Rightarrow>
             move_elem R now (cx_args ctx ! 0) (cx_args ctx ! 1) pop_left push_left ''lmove'' ctx))"

definition rpoplpush :: "'db rocksdb \<Rightarrow> u64 \<Rightarrow> 'db ctx \<Rightarrow> 'db ctx" where
  "rpoplpush R now ctx =
     (if length (cx_args ctx) \<noteq> 2 then reply (\<lambda>out. arity out ''rpoplpush'') ctx
      else move_elem R now (cx_args ctx ! 0) (cx_args ctx ! 1) False True ''rpoplpush'' ctx)"

end
