(* ===== verification/Rdb_Deque.thy ===== *)
theory Rdb_Deque
  imports Rdb_Lists
begin

text \<open>
  Lists are sequences.  \<open>list_rep\<close> reads the two index ranges of a list as one sequence; the
  lemmas show what a scan returns and what each batch of the list commands does to that sequence,
  and the properties state the commands on it.
\<close>

section \<open>The two sides\<close>

definition side_kind :: "bool \<Rightarrow> u8" where
  "side_kind left = (if left then KIND_LIST_L else KIND_LIST_R)"

definition side_suffix :: "bool \<Rightarrow> u64 \<Rightarrow> bytes" where
  "side_suffix left i = (if left then l_suffix i else r_suffix i)"

definition side_key :: "bytes \<Rightarrow> bytes \<Rightarrow> bool \<Rightarrow> u64 \<Rightarrow> bytes" where
  "side_key pfx key left i = elem_key pfx (side_kind left) key (side_suffix left i)"

definition side_count :: "bool \<Rightarrow> list_meta \<Rightarrow> u64" where
  "side_count left meta = (if left then l_count meta else r_count meta)"

definition side_next :: "bool \<Rightarrow> list_meta \<Rightarrow> u64" where
  "side_next left meta = (if left then l_next meta else r_next meta)"

text \<open>The index of the \<open>p\<close>-th element of a side in logical order.\<close>
definition slot_at :: "bool \<Rightarrow> list_meta \<Rightarrow> nat \<Rightarrow> u64" where
  "slot_at left meta p = (if left then l_next meta - 1 - word_of_nat p else r_base meta + word_of_nat p)"

definition side_ok :: "content \<Rightarrow> bytes \<Rightarrow> bytes \<Rightarrow> bool \<Rightarrow> list_meta \<Rightarrow> bytes list \<Rightarrow> bool" where
  "side_ok m pfx key left meta vs \<longleftrightarrow>
     length vs = unat (side_count left meta) \<and> side_count left meta \<le> side_next left meta \<and>
     (\<forall>s. m (elem_key pfx (side_kind left) key s) \<noteq> None \<longrightarrow> length s = 8) \<and>
     (\<forall>i v. m (side_key pfx key left i) = Some v \<longleftrightarrow> (\<exists>p < length vs. i = slot_at left meta p \<and> v = vs ! p))"

definition list_rep :: "content \<Rightarrow> bytes \<Rightarrow> bytes \<Rightarrow> list_meta \<Rightarrow> bytes list \<Rightarrow> bool" where
  "list_rep m pfx key meta xs \<longleftrightarrow>
     (\<exists>ls rs. xs = ls @ rs \<and> side_ok m pfx key True meta ls \<and> side_ok m pfx key False meta rs \<and>
        length ls + length rs < 2 ^ 64)"

lemma side_key_simps: "l_key pfx key i = side_key pfx key True i" "r_key pfx key i = side_key pfx key False i"
  by (simp_all add: l_key_def r_key_def side_key_def side_kind_def side_suffix_def)

lemma u64_neg_inj: "- 1 - a = - 1 - b \<longleftrightarrow> a = (b :: u64)"
  by (simp add: diff_eq_eq)

lemma side_suffix_inject [simp]: "side_suffix left i = side_suffix left j \<longleftrightarrow> i = j"
  by (simp add: side_suffix_def l_suffix_def r_suffix_def)

lemma side_kind_inject [simp]: "side_kind a = side_kind b \<longleftrightarrow> a = b"
  by (simp add: side_kind_def kind_simps)

lemma elem_key_same_key: "elem_key pfx kind key s = elem_key pfx kind' key s' \<longleftrightarrow> kind = kind' \<and> s = s'"
  by (auto simp: elem_key_def data_key_def)

lemma side_key_inject [simp]: "side_key pfx key a i = side_key pfx key b j \<longleftrightarrow> a = b \<and> i = j"
  by (auto simp: side_key_def elem_key_same_key)

lemma length_side_suffix [simp]: "length (side_suffix left i) = 8"
  by (simp add: side_suffix_def l_suffix_def r_suffix_def)

lemma side_suffix_surj:
  assumes "length s = 8"
  obtains i where "s = side_suffix left i"
proof -
  have "s = u64_to_be (u64_from_be s)" by (simp add: u64_to_be_from_be assms)
  moreover have "u64_from_be s = - 1 - (- 1 - u64_from_be s)" by simp
  ultimately have "s = side_suffix left (if left then - 1 - u64_from_be s else u64_from_be s)"
    by (simp add: side_suffix_def l_suffix_def r_suffix_def)
  then show ?thesis by (rule that)
qed

subsection \<open>Slots as numbers\<close>

lemma word_of_nat_inj64: "a < 2 ^ 64 \<Longrightarrow> b < 2 ^ 64 \<Longrightarrow> (word_of_nat a :: u64) = word_of_nat b \<longleftrightarrow> a = b"
  by (simp add: word_of_nat_eq_iff take_bit_nat_eq_self)

lemma unat_word_of_nat: "n < 2 ^ LENGTH(64) \<Longrightarrow> unat (word_of_nat n :: u64) = n"
  by (simp add: unat_of_nat)

lemma slot_at_inject:
  assumes "p < 2 ^ 64" "q < 2 ^ 64"
  shows "slot_at left meta p = slot_at left meta q \<longleftrightarrow> p = q"
  using word_of_nat_inj64 [OF assms] by (simp add: slot_at_def)

lemma slot_at_count_inject:
  assumes "p < unat (c :: u64)" "q < unat c"
  shows "slot_at left meta p = slot_at left meta q \<longleftrightarrow> p = q"
  using assms unsigned_less [of c, where 'a = nat] by (intro slot_at_inject) simp_all

text \<open>The number the key of the \<open>p\<close>-th element carries: consecutive on both sides.\<close>
definition raw_at :: "bool \<Rightarrow> list_meta \<Rightarrow> nat \<Rightarrow> u64" where
  "raw_at left meta p = (if left then - 1 - slot_at left meta p else slot_at left meta p)"

definition raw_base :: "bool \<Rightarrow> list_meta \<Rightarrow> nat" where
  "raw_base left meta = (if left then 2 ^ 64 - unat (l_next meta) else unat (r_next meta) - unat (r_count meta))"

lemma side_suffix_slot: "side_suffix left (slot_at left meta p) = u64_to_be (raw_at left meta p)"
  by (simp add: side_suffix_def raw_at_def l_suffix_def r_suffix_def)

lemma unat_raw_at:
  assumes "p < unat (side_count left meta)" "side_count left meta \<le> side_next left meta"
  shows "unat (raw_at left meta p) = raw_base left meta + p"
proof (cases left)
  case True
  have n: "p < unat (l_next meta)" "unat (l_next meta) < 2 ^ 64"
    using assms True unsigned_less [of "l_next meta", where 'a = nat]
    by (simp_all add: side_count_def side_next_def word_le_nat_alt)
  have "raw_at left meta p = word_of_nat p - l_next meta" by (simp add: raw_at_def slot_at_def True)
  also have "\<dots> = word_of_nat (2 ^ 64 - unat (l_next meta) + p)"
  proof -
    have "(word_of_nat (2 ^ 64 - unat (l_next meta)) :: u64) = - l_next meta"
      using n by (simp add: of_nat_diff)
    then show ?thesis by simp
  qed
  finally have "raw_at left meta p = word_of_nat (2 ^ 64 - unat (l_next meta) + p)" .
  moreover have "2 ^ 64 - unat (l_next meta) + p < 2 ^ LENGTH(64)" using n by simp
  ultimately have "unat (raw_at left meta p) = 2 ^ 64 - unat (l_next meta) + p"
    by (simp only: unat_word_of_nat)
  then show ?thesis by (simp only: raw_base_def True if_True)
next
  case False
  have n: "p < unat (r_count meta)" "unat (r_count meta) \<le> unat (r_next meta)" "unat (r_next meta) < 2 ^ 64"
    using assms False unsigned_less [of "r_next meta", where 'a = nat]
    by (simp_all add: side_count_def side_next_def word_le_nat_alt)
  have "raw_at left meta p = word_of_nat (unat (r_next meta) - unat (r_count meta) + p)"
    using n by (simp add: raw_at_def slot_at_def r_base_def False of_nat_diff)
  moreover have "unat (r_next meta) - unat (r_count meta) + p < 2 ^ LENGTH(64)" using n by simp
  ultimately have "unat (raw_at left meta p) = unat (r_next meta) - unat (r_count meta) + p"
    by (simp only: unat_word_of_nat)
  then show ?thesis by (simp only: raw_base_def False if_False)
qed

lemma raw_base_room:
  assumes "side_count left meta \<le> side_next left meta"
  shows "raw_base left meta + unat (side_count left meta) \<le> 2 ^ 64"
  using assms unsigned_less [of "r_next meta", where 'a = nat] unsigned_less [of "l_next meta", where 'a = nat]
  by (auto simp: raw_base_def side_count_def side_next_def word_le_nat_alt)

lemma raw_at_less:
  assumes "p < q" "q < unat (side_count left meta)" "side_count left meta \<le> side_next left meta"
  shows "raw_at left meta p < raw_at left meta q"
  using unat_raw_at [OF _ assms(3), of p] unat_raw_at [OF assms(2,3)] assms(1,2) by (simp add: word_less_nat_alt)

section \<open>Scans\<close>

lemma entries_eqI:
  assumes "finite (dom m)" "sorted_wrt (<) (map fst kvs)"
    and "\<And>k v. (k, v) \<in> set kvs \<longleftrightarrow> m k = Some v \<and> P k"
  shows "entries m P = kvs"
proof -
  have "sorted (map fst kvs)" "distinct (map fst kvs)" using assms(2) strict_sorted_iff by blast+
  moreover have "set (map fst kvs) = {k \<in> dom m. P k}"
    using assms(3) by (force simp: image_iff)
  ultimately have keys: "sorted_list_of_set {k \<in> dom m. P k} = map fst kvs"
    using sorted_list_of_set.idem_if_sorted_distinct [of "map fst kvs"] by simp
  have "the (m (fst kv)) = snd kv" if "kv \<in> set kvs" for kv
    using assms(3) [of "fst kv" "snd kv"] that by simp
  then show ?thesis
    unfolding entries_def keys by (simp add: map_idI)
qed

lemma unat_complement: "unat (- 1 - x :: u64) = 2 ^ 64 - 1 - unat x"
proof -
  have "x \<le> - 1" by (rule word_order.extremum)
  moreover have "unat (- 1 :: u64) = 2 ^ 64 - 1" by (simp add: unsigned_minus_1_eq_mask mask_eq_exp_minus_1)
  ultimately show ?thesis by (simp add: unat_sub)
qed

lemma complement_less: "- 1 - x < (y :: u64) \<longleftrightarrow> - 1 - y < x"
  using unsigned_less [of x, where 'a = nat] unsigned_less [of y, where 'a = nat]
  by (auto simp: word_less_nat_alt unat_complement)

lemma suffix_index_key: "suffix_index (base @ u64_to_be raw) = Some raw"
  by (simp add: suffix_index_def SUFFIX_LEN_def)

text \<open>A key between two keys with the prefix has it too.\<close>
lemma prefix_between:
  fixes p :: bytes
  assumes "Sublist.prefix p a" "a \<le> k" "k \<le> b" "Sublist.prefix p b"
  shows "Sublist.prefix p k"
  using assms
proof (induction p arbitrary: a k b)
  case (Cons x p)
  obtain a' b' where ab: "a = x # a'" "b = x # b'" "Sublist.prefix p a'" "Sublist.prefix p b'"
    using Cons.prems(1,4) by (auto simp: prefix_def)
  then obtain y k' where k: "k = y # k'" using Cons.prems(2) by (cases k) auto
  have "y = x" "a' \<le> k'" "k' \<le> b'" using Cons.prems(2,3) by (auto simp: ab k)
  then show ?case using Cons.IH [OF ab(3) _ _ ab(4)] by (simp add: k)
qed simp

lemma side_ok_slot:
  assumes "side_ok m pfx key left meta vs" "p < length vs"
  shows "m (side_key pfx key left (slot_at left meta p)) = Some (vs ! p)"
  using assms unfolding side_ok_def by blast

lemma side_key_slot:
  "side_key pfx key left (slot_at left meta p) = data_key pfx (side_kind left) key @ u64_to_be (raw_at left meta p)"
  by (simp add: side_key_def elem_key_def side_suffix_slot)

text \<open>What is stored under the kind of a side, by the number in the key.\<close>
lemma side_ok_raw:
  assumes "side_ok m pfx key left meta vs" "Sublist.prefix (data_key pfx (side_kind left) key) k" "m k = Some v"
  obtains p where "p < length vs" "k = side_key pfx key left (slot_at left meta p)" "v = vs ! p"
proof -
  obtain s where k: "k = elem_key pfx (side_kind left) key s" using assms(2) prefix_elem_key by blast
  then have "length s = 8" using assms(1,3) unfolding side_ok_def by auto
  then obtain i where "s = side_suffix left i" by (rule side_suffix_surj)
  then have "k = side_key pfx key left i" by (simp add: k side_key_def)
  moreover have "m (side_key pfx key left i) = Some v \<longrightarrow> (\<exists>p < length vs. i = slot_at left meta p \<and> v = vs ! p)"
    using assms(1) unfolding side_ok_def by blast
  ultimately show ?thesis using that assms(3) by auto
qed

lemma fold_push_entry:
  "fold (\<lambda>p acc. acc @ [(f p, g p)]) ps acc = acc @ map (\<lambda>p. (f p, g p)) ps"
  by (induction ps arbitrary: acc) auto

lemma fold_push_elem: "fold (\<lambda>p acc. acc @ [g p]) ps acc = acc @ map g ps"
  by (induction ps arbitrary: acc) auto

lemma word_of_nat_pred: "c \<noteq> 0 \<Longrightarrow> word_of_nat (unat c - 1) = (c :: u64) - 1"
  by (simp add: unat_gt_0 of_nat_diff Suc_leI)

lemma slot_ends:
  assumes "side_count left meta \<noteq> 0"
  shows "slot_at left meta (unat (side_count left meta) - 1) = (if left then l_base meta else r_next meta - 1)"
    and "slot_at left meta 0 = (if left then l_next meta - 1 else r_base meta)"
  using word_of_nat_pred [OF assms] by (auto simp: slot_at_def side_count_def l_base_def r_base_def)

lemma map_nth_window: "b < length xs \<Longrightarrow> map ((!) xs) [a..<Suc b] = take (Suc b - a) (drop a xs)"
  by (rule nth_equalityI) (auto simp del: upt_Suc)

lemma unat_lm_len:
  assumes "side_ok m pfx key True meta ls" "side_ok m pfx key False meta rs" "length ls + length rs < 2 ^ 64"
  shows "unat (lm_len meta) = length ls + length rs"
  using assms by (simp add: side_ok_def side_count_def lm_len_def unat_word_ariths)

lemma take_drop_append:
  "take (Suc t - s) (drop s (ls @ rs)) =
     take (Suc (min t (length ls - 1)) - s) (drop s ls) @ (if length ls \<le> t
       then take (Suc (t - length ls) - (max s (length ls) - length ls)) (drop (max s (length ls) - length ls) rs) else [])"
proof (cases "s < length ls")
  case True
  then show ?thesis by (cases "t < length ls") (auto simp: max_def min_def Suc_diff_le)
next
  case False
  then show ?thesis by (auto simp: max_def min_def Suc_diff_le)
qed

context healthy_rocksdb
begin

lemma for_each_side_eq:
  assumes side: "side_ok (content db) pfx key left meta vs" and ab: "a \<le> b" "b < length vs"
  shows "for_each_side R db pfx key left (slot_at left meta (if left then b else a)) (slot_at left meta (if left then a else b))
      (\<lambda>i v s. (True, g i v s)) s =
    (Inr (), fold (\<lambda>p. g (slot_at left meta p) (vs ! p)) [a..<Suc b] s)"
proof -
  let ?base = "data_key pfx (side_kind left) key" and ?key = "\<lambda>p. side_key pfx key left (slot_at left meta p)"
  let ?from = "?key a" and ?idx = "\<lambda>raw :: u64. if left then - 1 - raw else raw"
  define W where "W k \<longleftrightarrow> Sublist.prefix ?base k \<and> (case suffix_index k of None \<Rightarrow> False | Some raw \<Rightarrow> raw \<le> raw_at left meta b)" for k
  have cnt: "length vs = unat (side_count left meta)" "side_count left meta \<le> side_next left meta"
    using side unfolding side_ok_def by blast+
  have less: "p < q \<Longrightarrow> q < length vs \<Longrightarrow> raw_at left meta p < raw_at left meta q" for p q
    using raw_at_less [OF _ _ cnt(2)] cnt(1) by simp
  then have le: "p < length vs \<Longrightarrow> q < length vs \<Longrightarrow> raw_at left meta p \<le> raw_at left meta q \<longleftrightarrow> p \<le> q" for p q
    by (metis leD le_less linorder_neqE_nat not_le_imp_less)
  have visit: "side_visit ?base left (slot_at left meta (if left then b else a)) (slot_at left meta (if left then a else b))
      (\<lambda>i v s. (True, g i v s)) k v s =
      (if W k then (True, g (?idx (the (suffix_index k))) v s) else (False, s))" for k v s
  proof -
    have "(left \<and> ?idx raw < slot_at left meta (if left then b else a) \<or>
        \<not> left \<and> ?idx raw > slot_at left meta (if left then a else b)) = (\<not> raw \<le> raw_at left meta b)" for raw
      using complement_less [of raw "slot_at left meta b"] by (cases left) (simp_all only: raw_at_def not_le if_True if_False simp_thms)
    then show ?thesis
      by (cases "suffix_index k") (simp_all add: side_visit_def W_def Let_def)
  qed
  define ok where "ok k \<longleftrightarrow> (Sublist.prefix ?base k \<longrightarrow> (\<exists>raw. k = ?base @ u64_to_be raw))" for k
  define r where "r k k' \<longleftrightarrow> k \<le> k' \<and> ?from \<le> k \<and> ok k \<and> ok k'" for k k'
  let ?kvs = "entries (content db) (\<lambda>k. ?from \<le> k)"
  have ok: "ok k \<and> ?from \<le> k" if k: "k \<in> set (map fst ?kvs)" for k
  proof -
    obtain v where "content db k = Some v" "?from \<le> k" using k set_entries [OF finite_dom, of db] by auto
    moreover have "\<exists>raw. k = ?base @ u64_to_be raw" if base: "Sublist.prefix ?base k"
      by (rule side_ok_raw [OF side base \<open>content db k = Some v\<close>]) (auto simp: side_key_slot)
    ultimately show ?thesis unfolding ok_def by blast
  qed
  have sorted: "sorted_wrt r (map fst ?kvs)"
    unfolding r_def by (rule sorted_wrt_mono_rel [OF _ sorted_entries]) (blast dest: ok)
  have down: "W k" if w: "r k k'" "W k'" for k k'
  proof -
    have "Sublist.prefix ?base k"
      using w prefix_between [of ?base ?from k k'] by (auto simp: r_def W_def side_key_slot)
    then obtain raw raw' where "k = ?base @ u64_to_be raw" "k' = ?base @ u64_to_be raw'" "raw' \<le> raw_at left meta b"
      using w by (auto simp: r_def ok_def W_def suffix_index_key)
    then show ?thesis using w(1) by (auto simp: W_def r_def suffix_index_key)
  qed
  have W_iff: "W (?key p) \<longleftrightarrow> p \<le> b" if "p < length vs" for p
    using le [OF that ab(2)] by (simp add: W_def side_key_slot suffix_index_key)
  have from_iff: "?from \<le> ?key p \<longleftrightarrow> a \<le> p" if "p < length vs" for p
    using le [OF _ that, of a] ab by (simp add: side_key_slot)
  have window: "filter (\<lambda>(k, _). W k) ?kvs = map (\<lambda>p. (?key p, vs ! p)) [a..<Suc b]"
    unfolding filter_entries [OF finite_dom]
  proof (rule entries_eqI [OF finite_dom])
    show "sorted_wrt (<) (map fst (map (\<lambda>p. (?key p, vs ! p)) [a..<Suc b]))"
      unfolding sorted_wrt_map
      by (rule sorted_wrt_mono_rel [OF _ sorted_wrt_upt]) (use less ab in \<open>auto simp: side_key_slot\<close>)
    show "(k, v) \<in> set (map (\<lambda>p. (?key p, vs ! p)) [a..<Suc b]) \<longleftrightarrow> content db k = Some v \<and> ?from \<le> k \<and> W k" for k v
    proof
      assume "(k, v) \<in> set (map (\<lambda>p. (?key p, vs ! p)) [a..<Suc b])"
      then obtain p where "a \<le> p" "p \<le> b" "k = ?key p" "v = vs ! p" by auto
      then show "content db k = Some v \<and> ?from \<le> k \<and> W k"
        using side_ok_slot [OF side, of p] W_iff [of p] from_iff [of p] ab by simp
    next
      assume k: "content db k = Some v \<and> ?from \<le> k \<and> W k"
      then obtain p where "p < length vs" "k = ?key p" "v = vs ! p"
        using side_ok_raw [OF side, of k v] unfolding W_def by blast
      then have "p \<in> set [a..<Suc b]" using k W_iff [of p] from_iff [of p] by auto
      then show "(k, v) \<in> set (map (\<lambda>p. (?key p, vs ! p)) [a..<Suc b])"
        using \<open>k = ?key p\<close> \<open>v = vs ! p\<close> by (simp only: set_map image_eqI)
    qed
  qed
  have idx: "?idx (the (suffix_index (?key p))) = slot_at left meta p" for p
    by (simp add: side_key_slot suffix_index_key raw_at_def)
  have start: "(if left then l_key pfx key (slot_at left meta a) else r_key pfx key (slot_at left meta a)) = ?from"
    by (simp add: side_key_simps)
  have "visit ?kvs (side_visit ?base left (slot_at left meta (if left then b else a)) (slot_at left meta (if left then a else b))
      (\<lambda>i v s. (True, g i v s))) s =
    fold (\<lambda>(k, v). g (?idx (the (suffix_index k))) v) (filter (\<lambda>(k, _). W k) ?kvs) s"
    by (rule visit_window [OF sorted]) (erule (1) down, rule visit)
  also have "\<dots> = fold (\<lambda>p. g (slot_at left meta p) (vs ! p)) [a..<Suc b] s"
    unfolding window fold_map by (simp only: comp_def prod.case idx)
  finally have "visit ?kvs (side_visit ?base left (slot_at left meta (if left then b else a)) (slot_at left meta (if left then a else b))
      (\<lambda>i v s. (True, g i v s))) s = fold (\<lambda>p. g (slot_at left meta p) (vs ! p)) [a..<Suc b] s" .
  then show ?thesis
    unfolding for_each_side_def Let_def for_each_from_visit
    using start by (cases left) (simp_all add: side_kind_def)
qed

lemma collect_side_eq:
  assumes "side_ok (content db) pfx key left meta vs"
  shows "collect_side R db pfx key meta left = Inr (map (\<lambda>p. (slot_at left meta p, vs ! p)) [0..<length vs])"
proof (cases "side_count left meta = 0")
  case True
  then show ?thesis using assms by (auto simp: collect_side_def side_count_def side_ok_def)
next
  case False
  have len: "length vs = unat (side_count left meta)" using assms unfolding side_ok_def by blast
  then have last: "length vs - 1 < length vs" "Suc (length vs - 1) = length vs"
    using False by (simp_all add: unat_gt_0)
  have entry: "push_entry = (\<lambda>i v s. (True, s @ [(i, v)]))" by (simp add: push_entry_def fun_eq_iff)
  have "for_each_side R db pfx key left (if left then l_base meta else r_base meta)
      (if left then l_next meta - 1 else r_next meta - 1) push_entry [] =
      (Inr (), map (\<lambda>p. (slot_at left meta p, vs ! p)) [0..<length vs])"
    using for_each_side_eq [OF assms _ last(1), of 0 "\<lambda>i v s. s @ [(i, v)]" "[]"] slot_ends [OF False]
    unfolding entry last(2) fold_push_entry by (cases left) (simp_all add: len)
  then show ?thesis
    using False by (cases left) (simp_all add: collect_side_def side_count_def)
qed

lemma side_window:
  assumes "side_ok (content db) pfx key left meta vs" "a \<le> b" "b < length vs"
  shows "for_each_side R db pfx key left (slot_at left meta (if left then b else a)) (slot_at left meta (if left then a else b))
      push_elem out = (Inr (), out @ take (Suc b - a) (drop a vs))"
proof -
  have "push_elem = (\<lambda>i v s. (True, s @ [v]))" by (simp add: push_elem_def fun_eq_iff)
  then show ?thesis
    using for_each_side_eq [OF assms, of "\<lambda>i v s. s @ [v]" out]
    by (simp only: fold_push_elem map_nth_window [OF assms(3)])
qed

lemma collect_range_eq:
  assumes L: "side_ok (content db) pfx key True meta ls" and Rt: "side_ok (content db) pfx key False meta rs"
    and room: "length ls + length rs < 2 ^ 64"
  shows "collect_range R db pfx key meta start stop = Inr (take (Suc (unat stop) - unat start) (drop (unat start) (ls @ rs)))"
proof (cases "start \<ge> lm_len meta \<or> start > stop")
  case True
  then show ?thesis
    using unat_lm_len [OF L Rt room] by (auto simp: collect_range_def word_le_nat_alt word_less_nat_alt)
next
  case False
  let ?len = "length ls + length rs" and ?s = "unat start"
  define t where "t = min stop (lm_len meta - 1)"
  have len: "unat (lm_len meta) = ?len" by (rule unat_lm_len [OF L Rt room])
  have s: "?s < ?len" "?s \<le> unat stop" using False len by (auto simp: word_le_nat_alt word_less_nat_alt)
  have lc: "unat (l_count meta) = length ls" using L by (simp add: side_ok_def side_count_def)
  have "lm_len meta \<noteq> 0" using len s by auto
  then have "unat (lm_len meta - 1) = ?len - 1" using len by (simp add: unat_minus_one)
  then have t: "unat t = min (unat stop) (?len - 1)"
    by (simp add: t_def min_def word_le_nat_alt)
  have st: "?s \<le> unat t" "unat t < ?len" using s t by auto
  have same: "take (Suc (unat stop) - ?s) (drop ?s (ls @ rs)) = take (Suc (unat t) - ?s) (drop ?s (ls @ rs))"
    using s t by (auto simp: min_def)
  have base: "l_base meta + l_count meta - 1 - x = l_next meta - 1 - x" "l_base meta + (l_count meta - 1 - x) = l_next meta - 1 - x" for x
    by (simp_all add: l_base_def)
  have lpart: "(if start < l_count meta then
      for_each_side R db pfx key True (l_base meta + (l_count meta - 1 - min t (l_count meta - 1)))
        (l_base meta + l_count meta - 1 - start) push_elem []
      else (Inr (), [])) = (Inr (), take (Suc (min (unat t) (length ls - 1)) - ?s) (drop ?s ls))"
  proof (cases "?s < length ls")
    case True
    let ?b = "min (unat t) (length ls - 1)"
    have "l_count meta \<noteq> 0" using True lc by auto
    then have b: "unat (min t (l_count meta - 1)) = ?b" by (simp add: min_def word_le_nat_alt unat_minus_one lc)
    then have "slot_at True meta ?b = l_next meta - 1 - min t (l_count meta - 1)"
      unfolding slot_at_def b [symmetric] by simp
    moreover have "slot_at True meta ?s = l_next meta - 1 - start" by (simp add: slot_at_def)
    moreover have "start < l_count meta" using True lc by (simp add: word_less_nat_alt)
    ultimately show ?thesis
      using side_window [OF L, of ?s ?b "[]"] True st by (simp add: base)
  next
    case False
    then show ?thesis using lc by (simp add: word_less_nat_alt)
  qed
  have rpart: "(if t \<ge> l_count meta then
      for_each_side R db pfx key False (r_base meta + max start (l_count meta) - l_count meta)
        (r_base meta + t - l_count meta) push_elem out
      else (Inr (), out)) = (Inr (), out @ (if length ls \<le> unat t then
        take (Suc (unat t - length ls) - (max ?s (length ls) - length ls)) (drop (max ?s (length ls) - length ls) rs) else []))" for out
  proof (cases "length ls \<le> unat t")
    case True
    then have ge: "l_count meta \<le> t" by (simp add: word_le_nat_alt lc)
    let ?a = "max ?s (length ls) - length ls" and ?b = "unat t - length ls"
    have "unat (max start (l_count meta)) = max ?s (length ls)" by (simp add: max_def word_le_nat_alt lc)
    then have "?a = unat (max start (l_count meta)) - unat (l_count meta)" by (simp add: lc)
    then have "slot_at False meta ?a = r_base meta + max start (l_count meta) - l_count meta"
      by (simp add: slot_at_def of_nat_diff word_le_nat_alt [symmetric])
    moreover have "slot_at False meta ?b = r_base meta + t - l_count meta"
      using ge by (simp add: slot_at_def lc [symmetric] of_nat_diff word_le_nat_alt)
    ultimately show ?thesis
      using side_window [OF Rt, of ?a ?b out] st True ge by simp
  next
    case False
    then show ?thesis by (simp add: word_le_nat_alt lc)
  qed
  show ?thesis
    unfolding same take_drop_append [of "unat t" ?s ls rs]
    using False by (simp only: collect_range_def Let_def t_def [symmetric] if_False lpart rpart prod.case sum.case append.assoc)
qed

end

section \<open>Batches on one side\<close>

text \<open>Deletes followed by puts of elements of one side.\<close>
definition side_batch :: "bytes \<Rightarrow> bytes \<Rightarrow> bool \<Rightarrow> u64 list \<Rightarrow> (u64 \<times> bytes) list \<Rightarrow> write_batch" where
  "side_batch pfx key left dels puts =
     map (\<lambda>i. Delete (side_key pfx key left i)) dels @ map (\<lambda>(i, v). Put (side_key pfx key left i) v) puts"

lemma apply_deletes:
  "apply_batch (map (\<lambda>i. Delete (f i)) is) m k = (if k \<in> f ` set is then None else m k)"
  by (induction "is" arbitrary: m) auto

lemma apply_puts:
  "inj f \<Longrightarrow> apply_batch (map (\<lambda>(i, v). Put (f i) v) ps) m (f i) =
     (case map_of (rev ps) i of Some v \<Rightarrow> Some v | None \<Rightarrow> m (f i))"
  by (induction ps rule: rev_induct) (auto simp: inj_eq)

lemma apply_side_puts_other:
  "k \<notin> range f \<Longrightarrow> apply_batch (map (\<lambda>(i, v). Put (f i) v) ps) m k = m k"
  by (induction ps rule: rev_induct) auto

lemma side_batch_at:
  "apply_batch (side_batch pfx key left dels puts) m (side_key pfx key left i) =
     (case map_of (rev puts) i of Some v \<Rightarrow> Some v
      | None \<Rightarrow> if i \<in> set dels then None else m (side_key pfx key left i))"
proof -
  have "inj (side_key pfx key left)" by (rule injI) simp
  then show ?thesis
    by (auto simp: side_batch_def apply_puts apply_deletes split: option.splits)
qed

lemma side_batch_other:
  assumes "\<And>i. k \<noteq> side_key pfx key left i"
  shows "apply_batch (side_batch pfx key left dels puts) m k = m k"
  using assms by (auto simp: side_batch_def apply_side_puts_other apply_deletes image_iff)

subsection \<open>Coordinates\<close>

text \<open>
  The index at position \<open>z\<close> of a side, for positions before its front and after its end as well.
\<close>
definition at :: "bool \<Rightarrow> list_meta \<Rightarrow> int \<Rightarrow> u64" where
  "at left meta z = (if left then l_next meta - 1 - word_of_int z else r_base meta + word_of_int z)"

lemma slot_at_coord: "slot_at left meta p = at left meta (int p)"
  by (simp add: slot_at_def at_def)

definition window :: "int \<Rightarrow> int \<Rightarrow> bool" where
  "window lo z \<longleftrightarrow> lo \<le> z \<and> z < lo + 2 ^ 64"

lemma word_of_int_inj64:
  assumes "window lo a" "window lo b"
  shows "(word_of_int a :: u64) = word_of_int b \<longleftrightarrow> a = b"
proof
  assume "(word_of_int a :: u64) = word_of_int b"
  then have "take_bit 64 a = take_bit 64 b" by (simp add: word_of_int_eq_iff)
  then have "a mod 2 ^ 64 = b mod 2 ^ 64" by (simp add: take_bit_eq_mod)
  then have "(2 :: int) ^ 64 dvd a - b" by (simp only: mod_eq_dvd_iff)
  then obtain c where "a - b = 2 ^ 64 * c" by (rule dvdE)
  moreover have "\<bar>a - b\<bar> < 2 ^ 64" using assms by (auto simp: window_def)
  ultimately show "a = b" by (cases "c = 0") (auto simp: abs_mult)
qed simp

lemma at_inject: "window lo a \<Longrightarrow> window lo b \<Longrightarrow> at left meta a = at left meta b \<longleftrightarrow> a = b"
  using word_of_int_inj64 by (auto simp: at_def)

lemma at_surj:
  obtains z where "window lo z" "i = at left meta z"
proof -
  define w where "w = (if left then l_next meta - 1 - i else i - r_base meta)"
  define z where "z = lo + (uint w - lo) mod 2 ^ 64"
  have "window lo z" by (simp add: z_def window_def)
  moreover have "word_of_int z = w"
  proof -
    have "(2 :: int) ^ 64 dvd z - uint w"
      unfolding z_def by (simp add: mod_eq_dvd_iff [symmetric] mod_simps)
    then have "z mod 2 ^ 64 = uint w mod 2 ^ 64" by (simp only: mod_eq_dvd_iff)
    then have "take_bit LENGTH(64) z = take_bit LENGTH(64) (uint w)" by (simp add: take_bit_eq_mod)
    then have "(word_of_int z :: u64) = word_of_int (uint w)" by (simp only: word_of_int_eq_iff)
    then show ?thesis by simp
  qed
  then have "i = at left meta z" by (auto simp: at_def w_def)
  ultimately show ?thesis by (rule that)
qed

text \<open>A side in coordinates.\<close>
definition cells :: "bytes list \<Rightarrow> int \<Rightarrow> bytes option" where
  "cells vs z = (if 0 \<le> z \<and> z < int (length vs) then Some (vs ! nat z) else None)"

lemma side_ok_at:
  assumes "side_ok m pfx key left meta vs" "window lo z" "lo \<le> 0" "int (length vs) \<le> lo + 2 ^ 64"
  shows "m (side_key pfx key left (at left meta z)) = cells vs z"
proof -
  have "m (side_key pfx key left (at left meta z)) = Some v \<longleftrightarrow> cells vs z = Some v" for v
  proof -
    have "m (side_key pfx key left (at left meta z)) = Some v \<longleftrightarrow>
        (\<exists>p < length vs. at left meta z = at left meta (int p) \<and> v = vs ! p)"
      using assms(1) unfolding side_ok_def slot_at_coord by blast
    also have "\<dots> \<longleftrightarrow> (\<exists>p < length vs. z = int p \<and> v = vs ! p)"
      using at_inject [OF assms(2), of "int p" for p] assms(3,4) by (auto simp: window_def)
    also have "\<dots> \<longleftrightarrow> cells vs z = Some v"
      by (auto simp: cells_def intro!: exI [of _ "nat z"])
    finally show ?thesis .
  qed
  then show ?thesis by (metis option.exhaust)
qed

text \<open>What a batch makes of the cells.\<close>
definition after_batch :: "int list \<Rightarrow> (int \<times> bytes) list \<Rightarrow> (int \<Rightarrow> bytes option) \<Rightarrow> int \<Rightarrow> bytes option" where
  "after_batch dels puts f z =
     (case map_of (rev puts) z of Some v \<Rightarrow> Some v | None \<Rightarrow> if z \<in> set dels then None else f z)"

lemma map_of_map_inj:
  assumes "inj_on f (insert x (fst ` set ps))"
  shows "map_of (map (\<lambda>(z, v). (f z, v)) ps) (f x) = map_of ps x"
  using assms by (induction ps) (auto simp: inj_on_def)

lemma side_ok_batch:
  assumes ok: "side_ok m pfx key left meta vs"
    and shift: "\<And>z. at left meta' z = at left meta (z - sh)"
    and count: "length vs' = unat (side_count left meta')" "side_count left meta' \<le> side_next left meta'"
    and win: "\<And>z. z \<in> set dels \<union> fst ` set puts \<Longrightarrow> window lo z" "lo \<le> 0" "int (length vs) \<le> lo + 2 ^ 64"
    and win': "lo \<le> - sh" "int (length vs') - sh \<le> lo + 2 ^ 64"
    and new: "\<And>z. window lo z \<Longrightarrow> after_batch dels puts (cells vs) z = cells vs' (z + sh)"
  shows "side_ok (apply_batch (side_batch pfx key left (map (at left meta) dels)
      (map (\<lambda>(z, v). (at left meta z, v)) puts)) m) pfx key left meta' vs'"
proof -
  let ?m = "apply_batch (side_batch pfx key left (map (at left meta) dels) (map (\<lambda>(z, v). (at left meta z, v)) puts)) m"
  have inj: "inj_on (at left meta) {z. window lo z}" using at_inject by (blast intro: inj_onI)
  have at: "?m (side_key pfx key left (at left meta z)) = cells vs' (z + sh)" if z: "window lo z" for z
  proof -
    have "map_of (rev (map (\<lambda>(z, v). (at left meta z, v)) puts)) (at left meta z) = map_of (rev puts) z"
      unfolding rev_map by (rule map_of_map_inj, rule inj_on_subset [OF inj]) (use win(1) z in auto)
    moreover have "at left meta z \<in> set (map (at left meta) dels) \<longleftrightarrow> z \<in> set dels"
      using inj_on_image_mem_iff [OF inj, of z "set dels"] win(1) z by auto
    ultimately show ?thesis
      using new [OF z] unfolding side_batch_at side_ok_at [OF ok z win(2,3)] after_batch_def
      by (auto split: option.splits)
  qed
  have "length s = 8" if s: "?m (elem_key pfx (side_kind left) key s) \<noteq> None" for s
  proof (rule ccontr)
    assume l: "length s \<noteq> 8"
    then have "elem_key pfx (side_kind left) key s \<noteq> side_key pfx key left i" for i
      by (auto simp: side_key_def elem_key_same_key)
    then have "m (elem_key pfx (side_kind left) key s) \<noteq> None" using s side_batch_other by metis
    then show False using ok l unfolding side_ok_def by blast
  qed
  moreover have "?m (side_key pfx key left i) = Some v \<longleftrightarrow> (\<exists>p < length vs'. i = slot_at left meta' p \<and> v = vs' ! p)" for i v
  proof -
    obtain z where z: "window lo z" "i = at left meta z" by (rule at_surj)
    have eq: "i = slot_at left meta' p \<longleftrightarrow> z + sh = int p" if p: "p < length vs'" for p
    proof -
      have "window lo (int p - sh)" using win' p by (auto simp: window_def)
      then show ?thesis using at_inject [OF z(1)] by (auto simp: slot_at_coord shift z(2))
    qed
    have "?m (side_key pfx key left i) = cells vs' (z + sh)" by (simp only: z(2) at [OF z(1)])
    moreover have "cells vs' (z + sh) = Some v \<longleftrightarrow> (\<exists>p < length vs'. z + sh = int p \<and> v = vs' ! p)"
      by (auto simp: cells_def intro!: exI [of _ "nat (z + sh)"])
    ultimately show ?thesis using eq by auto
  qed
  ultimately show ?thesis using count unfolding side_ok_def by blast
qed

subsection \<open>The effect of the batches\<close>

lemma cells_snoc: "cells (vs @ [v]) z = (if z = int (length vs) then Some v else cells vs z)"
  by (auto simp: cells_def nth_append)

lemma map_of_ascending:
  "map_of (rev (map (\<lambda>(j, e). (c + int j, e)) (enumerate 0 es))) z = cells es (z - c)"
proof (induction es rule: rev_induct)
  case (snoc e es)
  then show ?case by (auto simp: enumerate_append_eq cells_snoc)
qed (simp add: cells_def)

lemma map_of_descending:
  "map_of (rev (map (\<lambda>(j, e). (c - int j, e)) (enumerate 0 es))) z = cells es (c - z)"
proof (induction es rule: rev_induct)
  case (snoc e es)
  then show ?case by (auto simp: enumerate_append_eq cells_snoc)
qed (simp add: cells_def)

lemma side_ok_length: "side_ok m pfx key left meta vs \<Longrightarrow> length vs < 2 ^ 64"
  using unsigned_less [of "side_count left meta", where 'a = nat] by (simp add: side_ok_def)

lemma map_window: "(\<lambda>(z, v). (at left meta z, v)) = map_prod (at left meta) id"
  by (simp add: fun_eq_iff)

lemma concat_pairs: "concat (map (\<lambda>(i, e). [h i e]) xs) = map (\<lambda>(i, e). h i e) xs"
  by (induction xs) auto

text \<open>Front part off, back part off.\<close>
lemma side_drop:
  assumes "side_ok m pfx key left meta vs" "t \<le> length vs"
    and "\<And>z. at left meta' z = at left meta (z + int t)"
    and "unat (side_count left meta') = length vs - t" "side_count left meta' \<le> side_next left meta'"
  shows "side_ok (apply_batch (side_batch pfx key left (map (at left meta) (map int [0..<t])) []) m) pfx key left meta' (drop t vs)"
proof -
  have new: "after_batch (map int [0..<t]) [] (cells vs) z = cells (drop t vs) (z + - int t)" for z
  proof (cases "0 \<le> z")
    case True
    then obtain n where "z = int n" by (rule nonneg_int_cases)
    then show ?thesis using assms(2) by (auto simp: after_batch_def cells_def nat_diff_distrib' image_iff)
  qed (auto simp: after_batch_def cells_def)
  have "side_ok (apply_batch (side_batch pfx key left (map (at left meta) (map int [0..<t]))
      (map (\<lambda>(z, v). (at left meta z, v)) [])) m) pfx key left meta' (drop t vs)"
    by (rule side_ok_batch [OF assms(1), where lo = 0 and sh = "- int t", OF _ _ assms(5)])
       (use assms side_ok_length [OF assms(1)] new in \<open>auto simp: window_def\<close>)
  then show ?thesis by (simp only: list.map)
qed

lemma side_take:
  assumes "side_ok m pfx key left meta vs" "t \<le> length vs"
    and "\<And>z. at left meta' z = at left meta z"
    and "unat (side_count left meta') = length vs - t" "side_count left meta' \<le> side_next left meta'"
  shows "side_ok (apply_batch (side_batch pfx key left
      (map (at left meta) (map (\<lambda>i. int (length vs) - 1 - int i) [0..<t])) []) m) pfx key left meta' (take (length vs - t) vs)"
proof -
  have new: "after_batch (map (\<lambda>i. int (length vs) - 1 - int i) [0..<t]) [] (cells vs) z =
      cells (take (length vs - t) vs) (z + 0)" for z
  proof (cases "int (length vs) - int t \<le> z \<and> z < int (length vs)")
    case True
    then obtain i where "i < t" "z = int (length vs) - 1 - int i"
      by (intro that [of "nat (int (length vs) - 1 - z)"]) auto
    then have "z \<in> set (map (\<lambda>i. int (length vs) - 1 - int i) [0..<t])" by auto
    then show ?thesis using True assms(2) by (auto simp: after_batch_def cells_def)
  next
    case False
    then have "z \<notin> set (map (\<lambda>i. int (length vs) - 1 - int i) [0..<t])" using assms(2) by auto
    then show ?thesis using False assms(2) by (auto simp: after_batch_def cells_def)
  qed
  have "side_ok (apply_batch (side_batch pfx key left
      (map (at left meta) (map (\<lambda>i. int (length vs) - 1 - int i) [0..<t])) (map (\<lambda>(z, v). (at left meta z, v)) [])) m)
      pfx key left meta' (take (length vs - t) vs)"
    by (rule side_ok_batch [OF assms(1), where lo = 0 and sh = 0, OF _ _ assms(5)])
       (use assms side_ok_length [OF assms(1)] new in \<open>auto simp: window_def\<close>)
  then show ?thesis by (simp only: list.map)
qed

text \<open>New elements at the front (the left side) or at the end (the right side).\<close>
lemma side_push:
  assumes "side_ok m pfx key left meta vs" "unat (side_next left meta) + length es < 2 ^ 64"
  defines "meta' \<equiv> push_meta left (word_of_nat (length es)) meta"
  shows "side_ok (apply_batch (push_batch pfx key left meta es) m) pfx key left meta'
      (if left then rev es @ vs else vs @ es)"
proof -
  let ?n = "int (length es)" and ?len = "int (length vs)"
  define puts where "puts = map (\<lambda>(j, e). (if left then - 1 - int j else ?len + int j, e)) (enumerate 0 es)"
  have len: "length vs = unat (side_count left meta)" "side_count left meta \<le> side_next left meta"
    using assms(1) unfolding side_ok_def by blast+
  then have room: "length vs + length es < 2 ^ 64" "length vs \<le> unat (side_next left meta)"
    using assms(2) by (simp_all add: word_le_nat_alt)
  have n: "unat (word_of_nat (length es) :: u64) = length es" using room by (simp add: unat_of_nat)
  have cw: "side_count left meta = word_of_nat (length vs)" by (simp add: len(1))
  have batch: "push_batch pfx key left meta es =
      side_batch pfx key left (map (at left meta) []) (map (\<lambda>(z, v). (at left meta z, v)) puts)"
  proof -
    have "at left meta (if left then - 1 - int j else ?len + int j) = side_next left meta + word_of_nat j" for j
      using cw by (auto simp: at_def side_next_def side_count_def r_base_def)
    then have "(if left then put_l pfx key (l_next meta + word_of_nat j) e else put_r pfx key (r_next meta + word_of_nat j) e) =
        [Put (side_key pfx key left (at left meta (if left then - 1 - int j else ?len + int j))) e]" for j e
      by (simp add: put_l_def put_r_def side_key_simps side_next_def)
    then show ?thesis
      by (simp add: push_batch_def side_batch_def puts_def concat_pairs comp_def case_prod_beta)
  qed
  have at_puts: "map_of (rev puts) z = (if left then cells es (- 1 - z) else cells es (z - ?len))" for z
    using map_of_descending [of "- 1" es z] map_of_ascending [of ?len es z] by (cases left) (simp_all add: puts_def)
  have new: "after_batch [] puts (cells vs) z =
      cells (if left then rev es @ vs else vs @ es) (z + (if left then ?n else 0))" for z
    by (cases left) (auto simp: after_batch_def at_puts cells_def nth_append rev_nth nat_diff_distrib' nat_add_distrib
        intro!: arg_cong [where f = "(!) _"])
  have meta': "unat (side_count left meta') = length vs + length es" "side_count left meta' \<le> side_next left meta'"
    using room n len(1) assms(2)
    by (cases left; simp add: meta'_def push_meta_def side_count_def side_next_def unat_word_ariths word_le_nat_alt)+
  have shift: "at left meta' z = at left meta (z - (if left then ?n else 0))" for z
    by (cases left) (simp_all add: meta'_def push_meta_def at_def r_base_def)
  show ?thesis
    unfolding batch
    by (rule side_ok_batch [OF assms(1) shift, where lo = "if left then - ?n else 0"])
       (use room meta' new in \<open>auto simp: window_def puts_def in_set_enumerate_eq\<close>)
qed

lemma concat_if: "concat (map (\<lambda>x. if P x then [f x] else []) xs) = map f (filter P xs)"
  by (induction xs) auto

definition set_count :: "bool \<Rightarrow> u64 \<Rightarrow> list_meta \<Rightarrow> list_meta" where
  "set_count left c meta = (if left then meta\<lparr>l_count := c\<rparr> else meta\<lparr>r_count := c\<rparr>)"

definition live_entries :: "bool \<Rightarrow> list_meta \<Rightarrow> bytes list \<Rightarrow> (u64 \<times> bytes) list" where
  "live_entries left meta vs = map (\<lambda>p. (slot_at left meta p, vs ! p)) [0..<length vs]"

text \<open>What a rewrite that drops the positions \<open>ks\<close> keeps.\<close>
definition kept_at :: "nat list \<Rightarrow> nat \<Rightarrow> nat list" where
  "kept_at ks n = filter (\<lambda>p. p \<notin> set ks) [0..<n]"

lemma kept_entries:
  assumes "side_ok m pfx key left meta vs" "set ks \<subseteq> {..<length vs}"
  shows "filter (\<lambda>(i, _). i \<notin> set (map (slot_at left meta) ks)) (live_entries left meta vs) =
    map (\<lambda>p. (slot_at left meta p, vs ! p)) (kept_at ks (length vs))"
proof -
  have "slot_at left meta p \<in> slot_at left meta ` set ks \<longleftrightarrow> p \<in> set ks" if p: "p < length vs" for p
  proof -
    have "slot_at left meta p = slot_at left meta q \<longleftrightarrow> p = q" if q: "q \<in> set ks" for q
      using slot_at_inject [of p q left meta] p q assms(2) side_ok_length [OF assms(1)] by auto
    then show ?thesis by auto
  qed
  then show ?thesis
    unfolding live_entries_def kept_at_def filter_map comp_def
    by (intro arg_cong [where f = "map _"] filter_cong) simp_all
qed

lemma enumerate_map: "enumerate n (map f xs) = map (\<lambda>(i, x). (i, f x)) (enumerate n xs)"
  by (simp add: enumerate_eq_zip zip_map2)

lemma side_ops:
  "(if left then del_l pfx key i else del_r pfx key i) = [Delete (side_key pfx key left i)]"
  "(if left then put_l pfx key i v else put_r pfx key i v) = [Put (side_key pfx key left i) v]"
  by (simp_all add: del_l_def del_r_def put_l_def put_r_def side_key_simps)

lemma compact_side_ne:
  fixes left :: bool and kill :: "u64 list"
  assumes "live \<noteq> []"
  defines "kept \<equiv> filter (\<lambda>(i, _). i \<notin> set kill) live"
    and "nxt \<equiv> (if left then fst (hd live) + 1 else fst (List.last live) + 1)"
  shows "compact_side pfx key live kill left =
    (concat (map (\<lambda>i. [Delete (side_key pfx key left i)]) kill) @
     concat (map (\<lambda>(i, (old, _)). if old \<noteq> (if left then nxt - 1 - word_of_nat i
         else nxt - word_of_nat (length kept) + word_of_nat i)
       then [Delete (side_key pfx key left old)] else []) (enumerate 0 kept)) @
     concat (map (\<lambda>(i, (_, elem)). [Put (side_key pfx key left (if left then nxt - 1 - word_of_nat i
         else nxt - word_of_nat (length kept) + word_of_nat i)) elem]) (enumerate 0 kept)),
     word_of_nat (length kept))"
  using assms(1) unfolding kept_def nxt_def
  by (cases live) (simp_all add: compact_side_def Let_def side_ops split: prod.splits)

lemma side_compact:
  assumes ok: "side_ok m pfx key left meta vs" and ne: "vs \<noteq> []" and ks: "set ks \<subseteq> {..<length vs}"
    and batch: "compact_side pfx key (live_entries left meta vs) (map (slot_at left meta) ks) left = (b, c)"
  shows "side_ok (apply_batch b m) pfx key left (set_count left c meta) (map ((!) vs) (kept_at ks (length vs)))"
    and "c = word_of_nat (length (kept_at ks (length vs)))"
    and "\<exists>dels puts. b = side_batch pfx key left dels puts"
proof -
  let ?len = "length vs"
  define kp where "kp = kept_at ks ?len"
  define c0 where "c0 = (if left then 0 else int ?len - int (length kp))"
  define nxt where "nxt = (if left then slot_at left meta 0 + 1 else slot_at left meta (?len - 1) + 1)"
  define target where "target i = (if left then nxt - 1 - word_of_nat i else nxt - word_of_nat (length kp) + word_of_nat i)" for i :: nat
  have len: "?len = unat (side_count left meta)" "side_count left meta \<le> side_next left meta"
    using ok unfolding side_ok_def by blast+
  have kp: "length kp \<le> ?len" "set kp = {..<?len} - set ks" "distinct kp"
    unfolding kp_def kept_at_def using length_filter_le [of _ "[0..<?len]"] by auto
  have cnt: "side_count left meta \<noteq> 0" "word_of_nat ?len = side_count left meta" using ne len by auto
  have nxt: "nxt = side_next left meta"
    using slot_ends [OF cnt(1)] len(1) by (cases left) (simp_all add: nxt_def side_next_def)
  have target: "target i = at left meta (c0 + int i)" for i
    using cnt(2) by (cases left) (simp_all add: target_def nxt at_def c0_def side_next_def side_count_def r_base_def)
  have live_ne: "live_entries left meta vs \<noteq> []" using ne by (simp add: live_entries_def)
  have ends: "fst (hd (live_entries left meta vs)) = slot_at left meta 0"
      "fst (List.last (live_entries left meta vs)) = slot_at left meta (?len - 1)"
    using ne by (simp_all add: live_entries_def last_map hd_map)
  define dels where "dels = map int ks @ map (int \<circ> snd) (filter (\<lambda>(i, p). int p \<noteq> c0 + int i) (enumerate 0 kp))"
  define puts where "puts = map (\<lambda>(i, v). (c0 + int i, v)) (enumerate 0 (map ((!) vs) kp))"
  have win: "window 0 (c0 + int i)" if "i < length kp" for i
    using that kp(1) side_ok_length [OF ok] by (auto simp: window_def c0_def)
  have moved: "filter (\<lambda>(i, p). slot_at left meta p \<noteq> target i) (enumerate 0 kp) =
      filter (\<lambda>(i, p). int p \<noteq> c0 + int i) (enumerate 0 kp)"
  proof (rule filter_cong [OF refl])
    fix x
    assume "x \<in> set (enumerate 0 kp)"
    then have "x = (fst x, kp ! fst x)" "fst x < length kp"
      by (auto simp: in_set_enumerate_eq intro: prod_eqI)
    then obtain i where x: "x = (i, kp ! i)" "i < length kp" by blast
    then have "kp ! i \<in> set kp" by simp
    then have "window 0 (int (kp ! i))" using kp(2) side_ok_length [OF ok] by (auto simp: window_def)
    then show "(case x of (i, p) \<Rightarrow> slot_at left meta p \<noteq> target i) = (case x of (i, p) \<Rightarrow> int p \<noteq> c0 + int i)"
      using at_inject [OF _ win [OF x(2)]] by (simp add: x slot_at_coord target)
  qed
  have parts: "(b, c) =
      (concat (map (\<lambda>i. [Delete (side_key pfx key left i)]) (map (slot_at left meta) ks)) @
       concat (map (\<lambda>(i, (old, _)). if old \<noteq> target i then [Delete (side_key pfx key left old)] else [])
         (enumerate 0 (map (\<lambda>p. (slot_at left meta p, vs ! p)) kp))) @
       concat (map (\<lambda>(i, (_, elem)). [Put (side_key pfx key left (target i)) elem])
         (enumerate 0 (map (\<lambda>p. (slot_at left meta p, vs ! p)) kp))),
       word_of_nat (length kp))"
    using batch [symmetric] unfolding compact_side_ne [OF live_ne] kept_entries [OF ok ks] ends kp_def [symmetric]
    by (simp only: length_map target_def nxt_def)
  then show c: "c = word_of_nat (length (kept_at ks ?len))" by (simp add: kp_def)
  have b: "b = side_batch pfx key left (map (at left meta) dels) (map (\<lambda>(z, v). (at left meta z, v)) puts)"
  proof -
    have "concat (map (\<lambda>(i, (old, _)). if old \<noteq> target i then [Delete (side_key pfx key left old)] else [])
         (enumerate 0 (map (\<lambda>p. (slot_at left meta p, vs ! p)) kp))) =
       map (\<lambda>i. Delete (side_key pfx key left i)) (map (\<lambda>(i, p). slot_at left meta p)
         (filter (\<lambda>(i, p). slot_at left meta p \<noteq> target i) (enumerate 0 kp)))"
      by (simp add: enumerate_map comp_def case_prod_unfold concat_if)
    moreover have "concat (map (\<lambda>(i, (_, elem)). [Put (side_key pfx key left (target i)) elem])
         (enumerate 0 (map (\<lambda>p. (slot_at left meta p, vs ! p)) kp))) =
       map (\<lambda>(i, v). Put (side_key pfx key left i) v) (map (\<lambda>(z, v). (at left meta z, v)) puts)"
      by (simp add: enumerate_map comp_def case_prod_unfold puts_def target)
    ultimately show ?thesis
      using parts unfolding moved by (simp add: side_batch_def dels_def comp_def case_prod_unfold slot_at_coord)
  qed
  then show "\<exists>dels puts. b = side_batch pfx key left dels puts" by blast
  have new: "after_batch dels puts (cells vs) z = cells (map ((!) vs) kp) (z + - c0)" for z
  proof (cases "map_of (rev puts) z")
    case None
    have gone: "z \<in> set dels" if z: "0 \<le> z" "z < int ?len"
    proof (cases "nat z \<in> set ks")
      case True
      then have "int (nat z) \<in> set (map int ks)" by (simp only: set_map imageI)
      then show ?thesis using z(1) by (simp add: dels_def)
    next
      case False
      then have "nat z \<in> set kp" using kp(2) z by auto
      then obtain i where i: "i < length kp" "kp ! i = nat z" by (auto simp: in_set_conv_nth)
      have "z \<noteq> c0 + int i"
        using None i(1) unfolding puts_def map_of_ascending by (auto simp: cells_def)
      then have "(i, nat z) \<in> set (filter (\<lambda>(i, p). int p \<noteq> c0 + int i) (enumerate 0 kp))"
        using i z(1) by (auto simp: in_set_enumerate_eq)
      then have "(int \<circ> snd) (i, nat z) \<in> set dels" unfolding dels_def set_append set_map by blast
      then show ?thesis using z(1) by simp
    qed
    show ?thesis
      using None gone unfolding after_batch_def puts_def map_of_ascending by (auto simp: cells_def)
  qed (use map_of_ascending [of c0 "map ((!) vs) kp" z] in \<open>simp add: after_batch_def puts_def\<close>)
  have shift: "at left (set_count left c meta) z = at left meta (z - - c0)" for z
    using cnt(2) c by (cases left) (simp_all add: set_count_def at_def r_base_def c0_def kp_def side_count_def)
  have small: "length kp < 2 ^ 64" using kp(1) side_ok_length [OF ok] by simp
  have count: "length (map ((!) vs) kp) = unat (side_count left (set_count left c meta))"
      "side_count left (set_count left c meta) \<le> side_next left (set_count left c meta)"
  proof -
    have "unat c = length kp" using c small by (simp add: kp_def unat_of_nat)
    moreover have "unat c \<le> unat (side_next left meta)" using calculation kp(1) len by (simp add: word_le_nat_alt)
    ultimately show "length (map ((!) vs) kp) = unat (side_count left (set_count left c meta))"
        "side_count left (set_count left c meta) \<le> side_next left (set_count left c meta)"
      by (auto simp: set_count_def side_count_def side_next_def word_le_nat_alt)
  qed
  have dels: "window 0 z" if "z \<in> set dels \<union> fst ` set puts" for z
  proof -
    have "int p < 2 ^ 64" if "p \<in> set ks \<or> p \<in> set kp" for p
      using that ks kp(2) side_ok_length [OF ok] by auto
    then show ?thesis
      using that win by (auto simp: dels_def puts_def window_def in_set_enumerate_eq)
  qed
  show "side_ok (apply_batch b m) pfx key left (set_count left c meta) (map ((!) vs) (kept_at ks ?len))"
    unfolding b kp_def [symmetric]
    by (rule side_ok_batch [OF ok shift count dels])
       (use new small side_ok_length [OF ok] kp(1) in \<open>auto simp: c0_def\<close>)
qed

section \<open>Lists as stored keys\<close>

lemma next_varint_loop_leb:
  "v = drop_bit s x \<Longrightarrow> next_varint_loop (take_bit s x) s (leb128 v @ rest) = (x, rest)"
proof (induction v arbitrary: s rule: leb128.induct)
  case (1 v)
  show ?case
  proof (cases "0x80 \<le> v")
    case True
    have "s < 64"
    proof (rule ccontr)
      assume "\<not> s < 64"
      then have "v = 0" using 1(2) by (auto intro: bit_word_eqI simp: bit_simps dest: bit_imp_le_length)
      then show False using True by simp
    qed
    moreover have "drop_bit 7 v = drop_bit (s + 7) x" using 1(2) by (simp add: add.commute)
    ultimately show ?thesis
      using 1(1) [OF True] True 1(2) leb_cont [of v] leb_step [of s x]
      by (subst leb128.simps) (simp add: Let_def)
  next
    case False
    then have "v < 0x80" by simp
    then show ?thesis
      using False 1(2) leb_last [of v] leb_done [of s x]
      by (subst leb128.simps) (auto simp: Let_def)
  qed
qed

lemma next_varint_encode [codec_simps]: "next_varint (encode_count n @ rest) = (n, rest)"
  using next_varint_loop_leb [of n 0 n rest] by (simp add: next_varint_def encode_count_def)

lemma decode_encode_meta [simp, codec_simps]:
  "decode_meta_payload (lm_expire meta) (encode_meta_payload meta) = meta"
  using next_varint_encode [of "r_next meta" "[]"]
  by (simp add: decode_meta_payload_def encode_meta_payload_def next_varint_encode)

text \<open>A live key that holds the list \<open>xs\<close> with the counters \<open>meta\<close>.\<close>
definition list_at :: "content \<Rightarrow> bytes \<Rightarrow> bytes \<Rightarrow> u64 \<Rightarrow> list_meta \<Rightarrow> bytes list \<Rightarrow> bool" where
  "list_at m pfx key now meta xs \<longleftrightarrow>
     lookup m pfx key now = Enveloped KIND_LIST_META (lm_expire meta) (encode_meta_payload meta) \<and>
     lm_expire meta < 2 ^ 63 \<and> list_rep m pfx key meta xs"

lemma list_rep_len:
  assumes "list_rep m pfx key meta xs"
  shows "unat (lm_len meta) = length xs" "lm_len meta = word_of_nat (length xs)"
proof -
  obtain ls rs where "xs = ls @ rs" "side_ok m pfx key True meta ls" "side_ok m pfx key False meta rs"
      "length ls + length rs < 2 ^ 64"
    using assms unfolding list_rep_def by blast
  then show "unat (lm_len meta) = length xs" by (simp add: unat_lm_len)
  then show "lm_len meta = word_of_nat (length xs)" by (simp flip: \<open>unat (lm_len meta) = length xs\<close>)
qed

context healthy_rocksdb
begin

lemma ctx_list_state_at:
  assumes "list_at (content (sh_store (cx_shared ctx))) (cx_prefix ctx) key now meta xs"
  shows "ctx_list_state R key now ctx = (ListThere (lm_expire meta) meta, ctx)"
proof -
  let ?db = "sh_store (cx_shared ctx)"
  have "resolve R ?db (cx_prefix ctx) key now =
      (Enveloped KIND_LIST_META (lm_expire meta) (encode_meta_payload meta), ?db)"
    using resolve_with_present [of ?db "cx_prefix ctx" key now] assms
    by (simp add: resolve_def is_present_def list_at_def)
  then show ?thesis by (simp add: ctx_list_state_def list_state_of_def)
qed

end

text \<open>A batch that touches only elements of the list.\<close>
definition elems_only :: "bytes \<Rightarrow> bytes \<Rightarrow> write_batch \<Rightarrow> bool" where
  "elems_only pfx key b \<longleftrightarrow>
     (\<forall>m k. (\<forall>left s. k \<noteq> elem_key pfx (side_kind left) key s) \<longrightarrow> apply_batch b m k = m k)"

lemma elems_only_side [intro]: "elems_only pfx key (side_batch pfx key left dels puts)"
  unfolding elems_only_def
proof (intro allI impI)
  fix m k
  assume "\<forall>left s. k \<noteq> elem_key pfx (side_kind left) key s"
  then have "k \<noteq> side_key pfx key left i" for i unfolding side_key_def by blast
  then show "apply_batch (side_batch pfx key left dels puts) m k = m k" by (rule side_batch_other)
qed

lemma elems_only_append [intro]: "elems_only pfx key a \<Longrightarrow> elems_only pfx key b \<Longrightarrow> elems_only pfx key (a @ b)"
  unfolding elems_only_def by simp

lemma elems_only_Nil [intro, simp]: "elems_only pfx key []"
  by (simp add: elems_only_def)

lemma side_kind_family: "family_of (side_kind left) = Some LIST_FAMILY"
  by (simp add: side_kind_def family_of_def kind_simps)

lemma side_kind_not_user: "\<not> is_user_key_kind (side_kind left)"
  by (simp add: side_kind_def is_user_key_kind_def META_KINDS_def kind_simps)

lemma list_meta_kind: "family_of KIND_LIST_META = Some LIST_FAMILY" "is_user_key_kind KIND_LIST_META"
    "fst LIST_FAMILY = KIND_LIST_META"
  by (simp_all add: family_of_def LIST_FAMILY_def is_user_key_kind_def META_KINDS_def kind_simps)

lemma side_ok_frame:
  assumes "\<And>s. m' (elem_key pfx (side_kind left) key s) = m (elem_key pfx (side_kind left) key s)"
    and "side_count left meta' = side_count left meta" "side_next left meta' = side_next left meta"
  shows "side_ok m' pfx key left meta' vs \<longleftrightarrow> side_ok m pfx key left meta vs"
proof -
  have "slot_at left meta' p = slot_at left meta p" for p
    using assms(2,3) by (cases left) (simp_all add: slot_at_def r_base_def side_count_def side_next_def)
  then show ?thesis using assms by (simp add: side_ok_def side_key_def)
qed

lemma side_batch_other_side:
  "left \<noteq> left' \<Longrightarrow> apply_batch (side_batch pfx key left' dels puts) m (elem_key pfx (side_kind left) key s) =
     m (elem_key pfx (side_kind left) key s)"
  by (rule side_batch_other) (simp add: side_key_def elem_key_same_key)

text \<open>The entries a list commit adds after those of the elements.\<close>
definition meta_entries :: "bytes \<Rightarrow> bytes \<Rightarrow> list_meta \<Rightarrow> write_batch" where
  "meta_entries pfx key meta =
     set_ttl_entries pfx (list_meta_key pfx key) (lm_expire meta) (lm_expire meta) @ list_write_meta pfx key meta"

lemma apply_meta_entries:
  "apply_batch (meta_entries pfx key meta) m k =
     (if k = data_key pfx KIND_LIST_META key then Some (encode_envelope (lm_expire meta) (encode_meta_payload meta))
      else if 0 < lm_expire meta \<and> k = expire_index_key pfx (lm_expire meta) (data_key pfx KIND_LIST_META key) then Some []
      else m k)"
  by (auto simp: meta_entries_def set_ttl_entries_def list_write_meta_def list_meta_key_def)

lemma elem_neq_meta: "elem_key pfx (side_kind left) key s \<noteq> data_key pfx KIND_LIST_META key"
  by (auto simp: data_key_as_elem elem_key_same_key side_kind_def kind_simps)

lemma commit_other_kind:
  assumes "is_user_key_kind kind" "kind \<noteq> KIND_LIST_META" "elems_only pfx key b"
  shows "apply_batch (b @ meta_entries pfx key meta) m (data_key pfx kind key) = m (data_key pfx kind key)"
proof -
  have "data_key pfx kind key \<noteq> elem_key pfx (side_kind left) key s" for left s
    using side_kind_not_user [of left] assms(1) by (auto simp: data_key_as_elem elem_key_same_key)
  moreover have "data_key pfx kind key \<noteq> expire_index_key pfx e dk" for e dk
    unfolding data_key_as_elem using user_kind_family [OF assms(1)] by (intro elem_key_neq_index) auto
  ultimately show ?thesis
    using assms(2,3) by (simp add: apply_meta_entries elems_only_def data_key_kind_eq)
qed

lemma commit_at:
  assumes raw: "m (string_key pfx key) = None" and first: "first_kind m pfx key \<in> {None, Some KIND_LIST_META}"
    and live: "\<not> is_expired (lm_expire meta) now" "lm_expire meta < 2 ^ 63"
    and b: "elems_only pfx key b" and rep: "list_rep (apply_batch b m) pfx key meta xs" and cls: "classify key = Raw"
  shows "list_at (apply_batch (b @ meta_entries pfx key meta) m) pfx key now meta xs"
proof -
  let ?root = "data_key pfx KIND_LIST_META key"
  let ?m = "apply_batch (b @ meta_entries pfx key meta) m"
  have at: "?m k = (if k = ?root then Some (encode_envelope (lm_expire meta) (encode_meta_payload meta))
      else if 0 < lm_expire meta \<and> k = expire_index_key pfx (lm_expire meta) ?root then Some []
      else apply_batch b m k)" for k
    by (simp only: apply_batch_simps apply_meta_entries)
  have "string_key pfx key \<noteq> elem_key pfx (side_kind left) key s" for left s
    using string_key_neq_elem [OF cls] side_kind_family by simp
  then have raw': "?m (string_key pfx key) = None"
    using b raw unfolding at elems_only_def by simp
  have user: "?m (data_key pfx kind key) \<noteq> None \<longleftrightarrow> m (data_key pfx kind key) \<noteq> None \<or> kind = KIND_LIST_META"
    if kind: "is_user_key_kind kind" for kind
    using commit_other_kind [OF kind _ b, of meta m] at [of ?root] by (cases "kind = KIND_LIST_META") (auto simp del: apply_batch_simps)
  have first': "first_kind ?m pfx key = Some KIND_LIST_META"
  proof -
    have "?m ?root \<noteq> None" unfolding at by simp
    then have "first_kind ?m pfx key \<noteq> None" using list_meta_kind(2) by (auto simp: first_kind_None_iff)
    moreover have "kind = KIND_LIST_META" if k: "first_kind ?m pfx key = Some kind" for kind
    proof (cases "first_kind m pfx key")
      case None
      then show ?thesis using first_kind_SomeD [OF k] user by (auto simp: first_kind_None_iff)
    next
      case (Some kd)
      have "find (\<lambda>kind. ?m (data_key pfx kind key) \<noteq> None) META_KINDS = find (\<lambda>kind. m (data_key pfx kind key) \<noteq> None) META_KINDS"
        using user Some first first_kind_SomeD [OF Some]
        by (intro find_cong) (auto simp: is_user_key_kind_def)
      then show ?thesis using Some first k by (simp add: first_kind_def)
    qed
    ultimately show ?thesis by blast
  qed
  have "list_rep ?m pfx key meta xs"
  proof -
    have "?m (elem_key pfx (side_kind left) key s) = apply_batch b m (elem_key pfx (side_kind left) key s)" for left s
      using elem_neq_meta elem_key_neq_index [of "side_kind left"] side_kind_family unfolding at by simp
    then have "side_ok ?m pfx key left meta vs \<longleftrightarrow> side_ok (apply_batch b m) pfx key left meta vs" for left vs
      by (rule side_ok_frame) rule+
    then show ?thesis using rep unfolding list_rep_def by (simp only:)
  qed
  then show ?thesis
    using live raw' first' at [of ?root] by (simp add: list_at_def lookup_def del: apply_batch_simps)
qed

lemma commit_foreign:
  assumes "elems_only pfx key b" "foreign pfx key k" "length key < 2 ^ 32"
  shows "apply_batch (b @ meta_entries pfx key meta) m k = m k"
proof -
  have "k \<noteq> elem_key pfx (side_kind left) key s" for left s
    using foreign_not_family [OF assms(2,3) list_meta_kind(1)]
    by (auto simp: family_record_def LIST_FAMILY_def side_kind_def kind_simps)
  then show ?thesis
    using assms(1) foreign_neq_root [OF assms(2,3) list_meta_kind(2)] foreign_neq_index [OF assms(2)]
    by (simp add: apply_meta_entries elems_only_def)
qed

lemma apply_list_delete_family:
  assumes "bounded_prefix pfx"
  shows "apply_batch (list_delete_family R pfx key e) m = (\<lambda>k. if purge_set pfx LIST_FAMILY key e k then None else m k)"
proof -
  have ne: "LIST_FAMILY \<noteq> STREAM_FAMILY" by (simp add: LIST_FAMILY_def STREAM_FAMILY_def kind_simps)
  then have "list_delete_family R pfx key e = family_delete_entries mem_rocksdb (Some []) pfx LIST_FAMILY key e"
    by (simp add: list_delete_family_def family_delete_entries_def)
  then show ?thesis by (simp add: mem.apply_family_delete_entries_other [OF assms ne])
qed

text \<open>A list that has become empty goes with all its records.\<close>
lemma commit_gone:
  assumes at: "list_at m pfx key now meta xs" and shape: "single_shape m pfx key" and pfx: "bounded_prefix pfx"
    and b: "elems_only pfx key b" and cls: "classify key = Raw"
    and m'_def: "m' = apply_batch (b @ list_delete_family R pfx key (lm_expire meta)) m"
  shows "m' (string_key pfx key) = None" "is_user_key_kind kind \<Longrightarrow> m' (data_key pfx kind key) = None"
    "lookup m' pfx key now' = Missing" "family_record pfx LIST_FAMILY key k \<Longrightarrow> m' k = None"
    "foreign pfx key k \<Longrightarrow> length key < 2 ^ 32 \<Longrightarrow> m' k = m k"
proof -
  have m': "m' = (\<lambda>k. if purge_set pfx LIST_FAMILY key (lm_expire meta) k then None else apply_batch b m k)"
    unfolding m'_def apply_batch_simps apply_list_delete_family [OF pfx] by simp
  show fam: "family_record pfx LIST_FAMILY key k \<Longrightarrow> m' k = None" for k
    by (simp add: m' purge_set_def)
  have lk: "m (string_key pfx key) = None" "first_kind m pfx key = Some KIND_LIST_META"
    using at lookup_EnvelopedD unfolding list_at_def by blast+
  have "string_key pfx key \<noteq> elem_key pfx (side_kind left) key s" for left s
    using string_key_neq_elem [OF cls] side_kind_family by simp
  then show raw: "m' (string_key pfx key) = None"
    using b lk(1) by (simp add: m' elems_only_def)
  show user: "m' (data_key pfx kind key) = None" if kind: "is_user_key_kind kind" for kind
  proof (cases "kind = KIND_LIST_META")
    case True
    then show ?thesis by (intro fam) (auto simp: family_record_def data_key_as_elem LIST_FAMILY_def kind_simps)
  next
    case False
    have "m (data_key pfx KIND_LIST_META key) \<noteq> None" using first_kind_SomeD [OF lk(2)] by simp
    then have "m (data_key pfx kind key) = None"
      using shape False kind list_meta_kind(2) unfolding single_shape_def by blast
    moreover have "data_key pfx kind key \<noteq> elem_key pfx (side_kind left) key s" for left s
      using side_kind_not_user [of left] kind by (auto simp: data_key_as_elem elem_key_same_key)
    ultimately show ?thesis using b by (simp add: m' elems_only_def)
  qed
  show "lookup m' pfx key now' = Missing"
    using raw user by (simp add: lookup_def first_kind_None_iff [THEN iffD2])
  assume k: "foreign pfx key k" "length key < 2 ^ 32"
  have "k \<noteq> elem_key pfx (side_kind left) key s" for left s
    using foreign_not_family [OF k list_meta_kind(1)]
    by (auto simp: family_record_def LIST_FAMILY_def side_kind_def kind_simps)
  then show "m' k = m k"
    using foreign_not_purged [OF k list_meta_kind(1)] b by (simp add: m' elems_only_def)
qed

end
