(* ===== verification/Rdb_List_Cmd.thy ===== *)
theory Rdb_List_Cmd
  imports Rdb_Deque
begin

text \<open>
  The list commands on sequences.  \<open>holds_list\<close> says which sequence a key stands for, the empty one
  when the key is absent or expired; each property states one handler as an operation on that
  sequence, with its reply, the waiters it wakes and the records of other keys untouched.
\<close>

section \<open>What a key holds\<close>

definition holds_list :: "content \<Rightarrow> bytes \<Rightarrow> bytes \<Rightarrow> u64 \<Rightarrow> u64 \<Rightarrow> bytes list \<Rightarrow> bool" where
  "holds_list m pfx key now e xs \<longleftrightarrow>
     single_shape m pfx key \<and> rooted m pfx LIST_FAMILY key \<and>
     (if xs = [] then lookup m pfx key now = Missing
      else \<exists>meta. lm_expire meta = e \<and> list_at m pfx key now meta xs)"

text \<open>The counters the next command reads.\<close>
definition stored_meta :: "content \<Rightarrow> bytes \<Rightarrow> bytes \<Rightarrow> u64 \<Rightarrow> list_meta" where
  "stored_meta m pfx key now =
     (case lookup m pfx key now of Enveloped _ e p \<Rightarrow> decode_meta_payload e p | _ \<Rightarrow> blank_meta)"

text \<open>A command took the list of the key from \<open>m\<close> to the sequence \<open>xs\<close> and left other keys alone.\<close>
definition list_step :: "content \<Rightarrow> content \<Rightarrow> bytes \<Rightarrow> bytes \<Rightarrow> u64 \<Rightarrow> u64 \<Rightarrow> bytes list \<Rightarrow> bool" where
  "list_step m m' pfx key now e xs \<longleftrightarrow>
     holds_list m' pfx key now e xs \<and> (\<forall>k. foreign pfx key k \<longrightarrow> m' k = m k)"

lemma stored_meta_at: "list_at m pfx key now meta xs \<Longrightarrow> stored_meta m pfx key now = meta"
  by (simp add: stored_meta_def list_at_def)

lemma holds_list_ne:
  assumes "holds_list m pfx key now e xs" "xs \<noteq> []"
  shows "list_at m pfx key now (stored_meta m pfx key now) xs" "lm_expire (stored_meta m pfx key now) = e"
  using assms stored_meta_at by (auto simp: holds_list_def)

lemma apply_batch_cong: "m k = m' k \<Longrightarrow> apply_batch b m k = apply_batch b m' k"
proof (induction b arbitrary: m m')
  case (Cons op b)
  then have "apply_op op m k = apply_op op m' k" by (cases op) auto
  then show ?case by (simp only: apply_batch_simps) (rule Cons.IH)
qed simp

text \<open>Two batches, one per side.\<close>
lemma list_rep_sides:
  assumes "side_ok (apply_batch bl m) pfx key True meta' ls'" "side_ok (apply_batch br m) pfx key False meta' rs'"
    and "bl = side_batch pfx key True dl pl" "br = side_batch pfx key False dr pr" "length ls' + length rs' < 2 ^ 64"
  shows "list_rep (apply_batch (bl @ br) m) pfx key meta' (ls' @ rs')"
    "list_rep (apply_batch (br @ bl) m) pfx key meta' (ls' @ rs')"
proof -
  have l: "apply_batch br m' (elem_key pfx (side_kind True) key s) = m' (elem_key pfx (side_kind True) key s)" for s m'
    using side_batch_other_side [of True False] assms(4) by simp
  have r: "apply_batch bl m' (elem_key pfx (side_kind False) key s) = m' (elem_key pfx (side_kind False) key s)" for s m'
    using side_batch_other_side [of False True] assms(3) by simp
  have same: "side_ok m2 pfx key left meta' vs" if "side_ok m1 pfx key left meta' vs"
      "\<And>s. m2 (elem_key pfx (side_kind left) key s) = m1 (elem_key pfx (side_kind left) key s)" for m1 m2 left vs
    using that side_ok_frame [of m2 pfx left key m1 meta' meta' vs] by blast
  have "side_ok (apply_batch (bl @ br) m) pfx key True meta' ls'" "side_ok (apply_batch (br @ bl) m) pfx key False meta' rs'"
    using l r by (auto intro: same [OF assms(1)] same [OF assms(2)])
  moreover have "side_ok (apply_batch (br @ bl) m) pfx key True meta' ls'"
    by (rule same [OF assms(1)]) (simp only: apply_batch_simps, rule apply_batch_cong, rule l)
  moreover have "side_ok (apply_batch (bl @ br) m) pfx key False meta' rs'"
    by (rule same [OF assms(2)]) (simp only: apply_batch_simps, rule apply_batch_cong, rule r)
  ultimately show "list_rep (apply_batch (bl @ br) m) pfx key meta' (ls' @ rs')"
    "list_rep (apply_batch (br @ bl) m) pfx key meta' (ls' @ rs')"
    using assms(5) unfolding list_rep_def by blast+
qed

section \<open>Commits\<close>

interpretation list_left: counted_family KIND_LIST_META KIND_LIST_L LIST_FAMILY
  by unfold_locales (simp_all add: family_of_def kind_simps LIST_FAMILY_def is_user_key_kind_def META_KINDS_def)

interpretation list_right: counted_family KIND_LIST_META KIND_LIST_R LIST_FAMILY
  by unfold_locales (simp_all add: family_of_def kind_simps LIST_FAMILY_def is_user_key_kind_def META_KINDS_def)

text \<open>What a commit starts from: an absent key or a live list.\<close>
definition list_base :: "content \<Rightarrow> bytes \<Rightarrow> bytes \<Rightarrow> bool" where
  "list_base m pfx key \<longleftrightarrow>
     single_shape m pfx key \<and> m (string_key pfx key) = None \<and> first_kind m pfx key \<in> {None, Some KIND_LIST_META}"

lemma list_at_base: "list_at m pfx key now meta xs \<Longrightarrow> single_shape m pfx key \<Longrightarrow> list_base m pfx key"
  using lookup_EnvelopedD by (auto simp: list_base_def list_at_def)

lemma holds_list_commit:
  assumes base: "list_base m pfx key" and live: "\<not> is_expired (lm_expire meta) now" "lm_expire meta < 2 ^ 63"
    and b: "elems_only pfx key b" and rep: "list_rep (apply_batch b m) pfx key meta xs" "xs \<noteq> []"
    and key: "classify key = Raw" "length key < 2 ^ 32"
  shows "list_step m (apply_batch (b @ meta_entries pfx key meta) m) pfx key now (lm_expire meta) xs"
proof -
  let ?m = "apply_batch (b @ meta_entries pfx key meta) m"
  have at: "list_at ?m pfx key now meta xs"
    using base unfolding list_base_def by (intro commit_at live b rep key) auto
  then have lk: "?m (string_key pfx key) = None" "first_kind ?m pfx key = Some KIND_LIST_META"
    using lookup_EnvelopedD unfolding list_at_def by blast+
  have root: "?m (data_key pfx KIND_LIST_META key) \<noteq> None" using first_kind_SomeD [OF lk(2)] by blast
  have only: "kind = KIND_LIST_META" if "is_user_key_kind kind" "?m (data_key pfx kind key) \<noteq> None" for kind
  proof (rule ccontr)
    assume ne: "kind \<noteq> KIND_LIST_META"
    then have here: "m (data_key pfx kind key) \<noteq> None" using that commit_other_kind [OF _ _ b] by metis
    then have "first_kind m pfx key \<noteq> None" using that(1) by (auto simp: first_kind_None_iff)
    then have "m (data_key pfx KIND_LIST_META key) \<noteq> None"
      using base by (auto simp: list_base_def dest: first_kind_SomeD)
    then show False using here that(1) ne base list_meta_kind(2) unfolding list_base_def single_shape_def by blast
  qed
  have "single_shape ?m pfx key" using lk(1) only unfolding single_shape_def by (metis (no_types))
  moreover have "rooted ?m pfx LIST_FAMILY key"
    using root unfolding rooted_def by (metis list_left.root)
  ultimately have "holds_list ?m pfx key now (lm_expire meta) xs"
    using at rep(2) unfolding holds_list_def by auto
  then show ?thesis using commit_foreign [OF b _ key(2)] unfolding list_step_def by blast
qed

lemma holds_list_drop:
  assumes "list_at m pfx key now meta xs" "single_shape m pfx key" "bounded_prefix pfx" "elems_only pfx key b"
    and key: "classify key = Raw" "length key < 2 ^ 32"
  shows "list_step m (apply_batch (b @ list_delete_family R pfx key (lm_expire meta)) m) pfx key now e []"
proof -
  define m' where "m' = apply_batch (b @ list_delete_family R pfx key (lm_expire meta)) m"
  note gone = commit_gone [OF assms(1-4) key(1) m'_def]
  have "single_shape m' pfx key" unfolding single_shape_def using gone(1,2) by simp
  moreover have "rooted m' pfx LIST_FAMILY key" unfolding rooted_def using gone(4) by simp
  ultimately have "list_step m m' pfx key now e []"
    using gone(3,5) key(2) unfolding list_step_def holds_list_def by simp
  then show ?thesis unfolding m'_def .
qed

lemma list_rep_empty: "list_rep m pfx key meta xs \<Longrightarrow> lm_is_empty meta \<longleftrightarrow> xs = []"
  using list_rep_len(1) by (fastforce simp: lm_is_empty_def unat_eq_0)

context healthy_rocksdb
begin

lemma commit_list_eq:
  "\<exists>db'. commit_list R key e meta b cmd ctx = (True, with_store db' (ctx\<lparr>cx_wrote := True\<rparr>)) \<and>
     content db' = apply_batch (b @ (case meta of
         None \<Rightarrow> list_delete_family R (cx_prefix ctx) key e
       | Some m \<Rightarrow> set_ttl_entries (cx_prefix ctx) (list_meta_key (cx_prefix ctx) key) e e @
           list_write_meta (cx_prefix ctx) key m)) (content (sh_store (cx_shared ctx)))"
proof -
  define batch where "batch = b @ (case meta of
         None \<Rightarrow> list_delete_family R (cx_prefix ctx) key e
       | Some m \<Rightarrow> set_ttl_entries (cx_prefix ctx) (list_meta_key (cx_prefix ctx) key) e e @
           list_write_meta (cx_prefix ctx) key m)"
  obtain db' where "commit R batch ctx = (Inr (), ctx\<lparr>cx_wrote := True, cx_shared := (cx_shared ctx)\<lparr>sh_store := db'\<rparr>\<rparr>)"
      "content db' = apply_batch batch (content (sh_store (cx_shared ctx)))"
    using commit_eq by blast
  then show ?thesis
    unfolding commit_list_def Let_def batch_def [symmetric] with_store_def by (intro exI [of _ db']) simp
qed

lemma commit_list_keep:
  assumes "list_base (content (sh_store (cx_shared ctx))) (cx_prefix ctx) key"
    and "\<not> is_expired (lm_expire meta) now" "lm_expire meta < 2 ^ 63" "elems_only (cx_prefix ctx) key b"
    and "list_rep (apply_batch b (content (sh_store (cx_shared ctx)))) (cx_prefix ctx) key meta xs" "xs \<noteq> []"
    and "classify key = Raw" "length key < 2 ^ 32"
  shows "\<exists>db'. commit_list R key (lm_expire meta) (Some meta) b cmd ctx = (True, with_store db' (ctx\<lparr>cx_wrote := True\<rparr>)) \<and>
     list_step (content (sh_store (cx_shared ctx))) (content db') (cx_prefix ctx) key now (lm_expire meta) xs"
  using commit_list_eq [of key "lm_expire meta" "Some meta" b cmd ctx] holds_list_commit [OF assms]
  by (auto simp add: meta_entries_def simp del: apply_batch_simps)

lemma commit_list_rest:
  assumes at: "list_at (content (sh_store (cx_shared ctx))) (cx_prefix ctx) key now meta xs"
    and shape: "single_shape (content (sh_store (cx_shared ctx))) (cx_prefix ctx) key"
    and b: "elems_only (cx_prefix ctx) key b" and pfx: "bounded_prefix (cx_prefix ctx)"
    and rep: "list_rep (apply_batch b (content (sh_store (cx_shared ctx)))) (cx_prefix ctx) key meta' xs'"
    and e: "lm_expire meta' = lm_expire meta" and key: "classify key = Raw" "length key < 2 ^ 32"
  shows "\<exists>db'. commit_list R key (lm_expire meta) (if lm_is_empty meta' then None else Some meta') b cmd ctx =
       (True, with_store db' (ctx\<lparr>cx_wrote := True\<rparr>)) \<and>
     list_step (content (sh_store (cx_shared ctx))) (content db') (cx_prefix ctx) key now (lm_expire meta) xs'"
proof (cases "xs' = []")
  case True
  then have "lm_is_empty meta'" using list_rep_empty [OF rep] by simp
  then show ?thesis
    using commit_list_eq [of key "lm_expire meta" None b cmd ctx] True
      holds_list_drop [OF at shape pfx b key, of R "lm_expire meta"]
    by (auto simp del: apply_batch_simps)
next
  case False
  then have "\<not> lm_is_empty meta'" using list_rep_empty [OF rep] by simp
  moreover have "\<not> is_expired (lm_expire meta) now" "lm_expire meta < 2 ^ 63"
    using at lookup_EnvelopedD unfolding list_at_def by blast+
  ultimately show ?thesis
    using commit_list_keep [of ctx key meta' now b xs' cmd] list_at_base [OF at shape] b rep False key e by auto
qed

lemma ctx_list_state_missing:
  assumes "holds_list (content (sh_store (cx_shared ctx))) (cx_prefix ctx) key now e []" "bounded_prefix (cx_prefix ctx)"
    and key: "classify key = Raw" "length key < 2 ^ 32"
  shows "\<exists>db'. ctx_list_state R key now ctx = (ListMissing, with_store db' ctx) \<and>
     list_step (content (sh_store (cx_shared ctx))) (content db') (cx_prefix ctx) key now e [] \<and>
     list_base (content db') (cx_prefix ctx) key \<and> list_rep (content db') (cx_prefix ctx) key blank_meta []"
proof -
  let ?db = "sh_store (cx_shared ctx)" and ?pfx = "cx_prefix ctx"
  define db' where "db' = snd (resolve R ?db ?pfx key now)"
  have miss: "lookup (content ?db) ?pfx key now = Missing" and shape: "single_shape (content ?db) ?pfx key"
    and root: "rooted (content ?db) ?pfx LIST_FAMILY key"
    using assms(1) by (auto simp: holds_list_def)
  have m': "content db' = (\<lambda>k. if cleared_record (content ?db) ?pfx key k then None else content ?db k)"
    using resolve_content(2) [OF assms(2)] miss by (simp add: db'_def)
  have raw: "content db' (string_key ?pfx key) = None" and user: "is_user_key_kind kind \<Longrightarrow> content db' (data_key ?pfx kind key) = None" for kind
    using cleared_gone [OF shape key(1)] unfolding m' by blast+
  have fam: "family_record ?pfx LIST_FAMILY key k \<Longrightarrow> content db' k = None" for k
    using list_left.cleared_family [OF shape root] unfolding m' by simp
  have "family_record ?pfx LIST_FAMILY key (elem_key ?pfx (side_kind left) key s)" for left s
    using list_left.elem_record list_right.elem_record by (simp add: side_kind_def)
  then have elem: "content db' (elem_key ?pfx (side_kind left) key s) = None" for left s using fam by blast
  have none: "first_kind (content db') ?pfx key = None" using user by (simp add: first_kind_None_iff)
  have "resolve R ?db ?pfx key now = (Missing, db')"
    using resolve_content(1) [OF assms(2)] miss by (simp add: db'_def prod_eq_iff)
  then have "ctx_list_state R key now ctx = (ListMissing, with_store db' ctx)"
    by (simp add: ctx_list_state_def list_state_of_def with_store_def)
  moreover have shape': "single_shape (content db') ?pfx key" using raw user by (simp add: single_shape_def)
  moreover have "rooted (content db') ?pfx LIST_FAMILY key"
    using fam by (simp add: rooted_def)
  moreover have "lookup (content db') ?pfx key now = Missing" using raw none by (simp add: lookup_def)
  moreover have "foreign ?pfx key k \<Longrightarrow> content db' k = content ?db k" for k
    using cleared_foreign [OF _ key(2,1)] by (simp add: m')
  moreover have "side_ok (content db') ?pfx key left blank_meta []" for left
    using elem by (simp add: side_ok_def side_key_def side_count_def side_next_def blank_meta_def)
  then have "list_rep (content db') ?pfx key blank_meta []" by (auto simp: list_rep_def)
  ultimately show ?thesis
    using raw none by (auto simp: list_step_def holds_list_def list_base_def)
qed

end

section \<open>Pushes\<close>

lemma push_batch_side:
  "push_batch pfx key left meta es =
     side_batch pfx key left [] (map (\<lambda>(i, e). (side_next left meta + word_of_nat i, e)) (enumerate 0 es))"
proof -
  have "push_batch pfx key left meta es =
      concat (map (\<lambda>(i, e). [Put (side_key pfx key left (side_next left meta + word_of_nat i)) e]) (enumerate 0 es))"
    by (cases left) (simp_all add: push_batch_def put_l_def put_r_def side_key_simps side_next_def)
  also have "\<dots> = map (\<lambda>(i, e). Put (side_key pfx key left (side_next left meta + word_of_nat i)) e) (enumerate 0 es)"
    by (simp add: case_prod_unfold)
  finally show ?thesis by (simp add: side_batch_def case_prod_unfold)
qed

lemma list_repI:
  "side_ok m pfx key True meta ls \<Longrightarrow> side_ok m pfx key False meta rs \<Longrightarrow> length ls + length rs < 2 ^ 64 \<Longrightarrow>
     list_rep m pfx key meta (ls @ rs)"
  unfolding list_rep_def by blast

lemma push_rep:
  assumes "list_rep m pfx key meta xs" "unat (side_next left meta) + length es < 2 ^ 64" "length xs + length es < 2 ^ 64"
  shows "list_rep (apply_batch (push_batch pfx key left meta es) m) pfx key (push_meta left (word_of_nat (length es)) meta)
    (if left then rev es @ xs else xs @ es)"
proof -
  obtain ls rs where xs: "xs = ls @ rs" and ok: "side_ok m pfx key True meta ls" "side_ok m pfx key False meta rs"
    using assms(1) unfolding list_rep_def by blast
  let ?m = "apply_batch (push_batch pfx key left meta es) m" and ?meta = "push_meta left (word_of_nat (length es)) meta"
  have same: "side_ok ?m pfx key (\<not> left) ?meta vs" if "side_ok m pfx key (\<not> left) meta vs" for vs
  proof (rule side_ok_frame [THEN iffD2, OF _ _ _ that])
    show "?m (elem_key pfx (side_kind (\<not> left)) key s) = m (elem_key pfx (side_kind (\<not> left)) key s)" for s
      unfolding push_batch_side by (rule side_batch_other_side) simp
  qed (auto simp: push_meta_def side_count_def side_next_def)
  have grown: "side_ok ?m pfx key left ?meta (if left then rev es @ vs else vs @ es)" if "side_ok m pfx key left meta vs" for vs
    by (rule side_push [OF that assms(2)])
  show ?thesis
  proof (cases left)
    case True
    then show ?thesis using grown [of ls] same [of rs] ok xs assms(3) list_repI [of ?m pfx key ?meta "rev es @ ls" rs] by simp
  next
    case False
    then show ?thesis using grown [of rs] same [of ls] ok xs assms(3) list_repI [of ?m pfx key ?meta ls "rs @ es"] by simp
  qed
qed

lemma elems_only_push: "elems_only pfx key (push_batch pfx key left meta es)"
  by (simp add: push_batch_side elems_only_side)

lemma push_meta_expire [simp]: "lm_expire (push_meta left n meta) = lm_expire meta"
  by (simp add: push_meta_def)

lemma list_step_trans:
  "list_step m1 m2 pfx key now e1 xs \<Longrightarrow> list_step m2 m3 pfx key now e2 ys \<Longrightarrow> list_step m1 m3 pfx key now e2 ys"
  by (simp add: list_step_def)

lemma list_step_refl: "holds_list m pfx key now e xs \<Longrightarrow> list_step m m pfx key now e xs"
  by (simp add: list_step_def)

context healthy_rocksdb
begin

lemma push_onto_eq:
  assumes "cx_args ctx = key # es" "es \<noteq> []" "classify key = Raw" "length key < 2 ^ 32"
    and "list_base (content (sh_store (cx_shared ctx))) (cx_prefix ctx) key"
    and "list_rep (content (sh_store (cx_shared ctx))) (cx_prefix ctx) key meta xs"
    and "\<not> is_expired (lm_expire meta) now" "lm_expire meta < 2 ^ 63"
    and "unat (side_next left meta) + length es < 2 ^ 64" "length xs + length es < 2 ^ 64"
  defines "ys \<equiv> (if left then rev es @ xs else xs @ es)"
  shows "\<exists>db'. push_onto R left cmd meta ctx =
      reply (\<lambda>out. append_int out (word_of_nat (length ys)))
        (notify_list (list_meta_key (cx_prefix ctx) key) (length es) (with_store db' (ctx\<lparr>cx_wrote := True\<rparr>))) \<and>
      list_step (content (sh_store (cx_shared ctx))) (content db') (cx_prefix ctx) key now (lm_expire meta) ys"
proof -
  let ?meta = "push_meta left (word_of_nat (length es)) meta" and ?b = "push_batch (cx_prefix ctx) key left meta es"
  have rep: "list_rep (apply_batch ?b (content (sh_store (cx_shared ctx)))) (cx_prefix ctx) key ?meta ys"
    unfolding ys_def by (rule push_rep [OF assms(6,9,10)])
  have ne: "ys \<noteq> []" using assms(2) by (simp add: ys_def)
  obtain db' where "commit_list R key (lm_expire meta) (Some ?meta) ?b cmd ctx = (True, with_store db' (ctx\<lparr>cx_wrote := True\<rparr>))"
      "list_step (content (sh_store (cx_shared ctx))) (content db') (cx_prefix ctx) key now (lm_expire meta) ys"
    using commit_list_keep [of ctx key ?meta now ?b ys cmd] assms(3-5,7,8) rep ne elems_only_push by auto
  then show ?thesis
    using list_rep_len(2) [OF rep] by (intro exI [of _ db']) (simp add: push_onto_def assms(1))
qed

text \<open>A push of the elements \<open>es\<close>.\<close>
lemma push_holds:
  assumes args: "cx_args ctx = key # es" "es \<noteq> []" and key: "classify key = Raw" "length key < 2 ^ 32"
    and pfx: "bounded_prefix (cx_prefix ctx)"
    and holds: "holds_list (content (sh_store (cx_shared ctx))) (cx_prefix ctx) key now e xs"
    and room: "length xs + length es < 2 ^ 64"
      "unat (side_next left (stored_meta (content (sh_store (cx_shared ctx))) (cx_prefix ctx) key now)) + length es < 2 ^ 64"
    and create: "create \<or> xs \<noteq> []"
  defines "ys \<equiv> (if left then rev es @ xs else xs @ es)"
  shows "\<exists>db'. push_variant R now left create cmd ctx =
      reply (\<lambda>out. append_int out (word_of_nat (length ys)))
        (notify_list (list_meta_key (cx_prefix ctx) key) (length es) (with_store db' (ctx\<lparr>cx_wrote := True\<rparr>))) \<and>
      list_step (content (sh_store (cx_shared ctx))) (content db') (cx_prefix ctx) key now (if xs = [] then 0 else e) ys"
proof (cases "xs = []")
  case True
  then obtain db1 where st: "ctx_list_state R key now ctx = (ListMissing, with_store db1 ctx)"
      and step: "list_step (content (sh_store (cx_shared ctx))) (content db1) (cx_prefix ctx) key now e []"
      and base: "list_base (content db1) (cx_prefix ctx) key" "list_rep (content db1) (cx_prefix ctx) key blank_meta []"
    using ctx_list_state_missing [OF _ pfx key] holds by blast
  have "unat (side_next left blank_meta) + length es < 2 ^ 64"
    using room True by (simp add: side_next_def blank_meta_def)
  then obtain db' where "push_onto R left cmd blank_meta (with_store db1 ctx) =
      reply (\<lambda>out. append_int out (word_of_nat (length ys)))
        (notify_list (list_meta_key (cx_prefix ctx) key) (length es) (with_store db' (ctx\<lparr>cx_wrote := True\<rparr>)))"
      "list_step (content db1) (content db') (cx_prefix ctx) key now 0 ys"
    using push_onto_eq [of "with_store db1 ctx" key es blank_meta "[]" now left cmd] args key base room True
    by (auto simp: ys_def blank_meta_def is_expired_def)
  then show ?thesis
    using st args create True step by (auto simp: push_variant_def intro: list_step_trans)
next
  case False
  define meta where "meta = stored_meta (content (sh_store (cx_shared ctx))) (cx_prefix ctx) key now"
  have at: "list_at (content (sh_store (cx_shared ctx))) (cx_prefix ctx) key now meta xs" "lm_expire meta = e"
    using holds_list_ne [OF holds False] by (simp_all add: meta_def)
  have "\<not> is_expired (lm_expire meta) now" "lm_expire meta < 2 ^ 63"
    "list_rep (content (sh_store (cx_shared ctx))) (cx_prefix ctx) key meta xs"
    using at lookup_EnvelopedD unfolding list_at_def by blast+
  moreover have "list_base (content (sh_store (cx_shared ctx))) (cx_prefix ctx) key"
    using list_at_base [OF at(1)] holds by (simp add: holds_list_def)
  moreover have "push_variant R now left create cmd ctx = push_onto R left cmd meta ctx"
    using args ctx_list_state_at [OF at(1)] by (simp add: push_variant_def)
  ultimately show ?thesis
    using push_onto_eq [of ctx key es meta xs now left cmd] args key room at(2) False by (simp add: ys_def meta_def)
qed

end

section \<open>Pops\<close>

definition shrink_front :: "u64 \<Rightarrow> u64 \<Rightarrow> list_meta \<Rightarrow> list_meta" where
  "shrink_front tkl tkr meta = meta\<lparr>l_next := l_next meta - tkl, l_count := l_count meta - tkl, r_count := r_count meta - tkr\<rparr>"

definition shrink_back :: "u64 \<Rightarrow> u64 \<Rightarrow> list_meta \<Rightarrow> list_meta" where
  "shrink_back tkl tkr meta = meta\<lparr>r_next := r_next meta - tkr, r_count := r_count meta - tkr, l_count := l_count meta - tkl\<rparr>"

lemma unat_sub_le: "t \<le> c \<Longrightarrow> unat (c - t) = unat c - unat t" for c t :: u64
  by (rule unat_sub)

lemma sub_mono: "t \<le> c \<Longrightarrow> c \<le> n \<Longrightarrow> c - t \<le> n - t" for c t n :: u64
  using unat_sub_le [of t c] unat_sub_le [of t n] by (simp add: word_le_nat_alt)

lemma sub_le_self: "t \<le> c \<Longrightarrow> c \<le> n \<Longrightarrow> c - t \<le> n" for c t n :: u64
  using unat_sub_le [of t c] by (simp add: word_le_nat_alt)

lemma side_deletes:
  "concat (map (\<lambda>i. del_l pfx key (f i)) is) = side_batch pfx key True (map f is) []"
  "concat (map (\<lambda>i. del_r pfx key (f i)) is) = side_batch pfx key False (map f is) []"
  by (simp_all add: del_l_def del_r_def side_key_simps side_batch_def)

lemma shrink_front_rep:
  assumes ok: "side_ok m pfx key True meta ls" "side_ok m pfx key False meta rs" and room: "length ls + length rs < 2 ^ 64"
    and t: "tkl \<le> l_count meta" "tkr \<le> r_count meta"
  shows "list_rep (apply_batch
      (side_batch pfx key True (map (\<lambda>i. l_next meta - 1 - word_of_nat i) [0..<unat tkl]) [] @
       side_batch pfx key False (map (\<lambda>i. r_base meta + word_of_nat i) [0..<unat tkr]) []) m)
    pfx key (shrink_front tkl tkr meta) (drop (unat tkl) ls @ drop (unat tkr) rs)"
proof -
  let ?meta = "shrink_front tkl tkr meta"
  have len: "length ls = unat (l_count meta)" "l_count meta \<le> l_next meta" "length rs = unat (r_count meta)" "r_count meta \<le> r_next meta"
    using ok by (auto simp: side_ok_def side_count_def side_next_def)
  have "side_ok (apply_batch (side_batch pfx key True (map (at True meta) (map int [0..<unat tkl])) []) m) pfx key True ?meta (drop (unat tkl) ls)"
    using t len by (intro side_drop [OF ok(1)])
      (auto simp: at_def shrink_front_def side_count_def side_next_def word_le_nat_alt unat_sub_le sub_mono)
  moreover have "side_ok (apply_batch (side_batch pfx key False (map (at False meta) (map int [0..<unat tkr])) []) m) pfx key False ?meta (drop (unat tkr) rs)"
    using t len by (intro side_drop [OF ok(2)])
      (auto simp: at_def shrink_front_def side_count_def side_next_def r_base_def word_le_nat_alt unat_sub_le sub_le_self)
  ultimately show ?thesis
    using room by (intro list_rep_sides(1)) (auto simp: at_def comp_def)
qed

lemma shrink_back_rep:
  assumes ok: "side_ok m pfx key True meta ls" "side_ok m pfx key False meta rs" and room: "length ls + length rs < 2 ^ 64"
    and t: "tkl \<le> l_count meta" "tkr \<le> r_count meta"
  shows "list_rep (apply_batch
      (side_batch pfx key False (map (\<lambda>i. r_next meta - 1 - word_of_nat i) [0..<unat tkr]) [] @
       side_batch pfx key True (map (\<lambda>i. l_base meta + word_of_nat i) [0..<unat tkl]) []) m)
    pfx key (shrink_back tkl tkr meta) (take (length ls - unat tkl) ls @ take (length rs - unat tkr) rs)"
proof -
  let ?meta = "shrink_back tkl tkr meta"
  have len: "length ls = unat (l_count meta)" "l_count meta \<le> l_next meta" "length rs = unat (r_count meta)" "r_count meta \<le> r_next meta"
    using ok by (auto simp: side_ok_def side_count_def side_next_def)
  have "side_ok (apply_batch (side_batch pfx key True
      (map (at True meta) (map (\<lambda>i. int (length ls) - 1 - int i) [0..<unat tkl])) []) m) pfx key True ?meta (take (length ls - unat tkl) ls)"
    using t len by (intro side_take [OF ok(1)])
      (auto simp: at_def shrink_back_def side_count_def side_next_def word_le_nat_alt unat_sub_le sub_le_self)
  moreover have "side_ok (apply_batch (side_batch pfx key False
      (map (at False meta) (map (\<lambda>i. int (length rs) - 1 - int i) [0..<unat tkr])) []) m) pfx key False ?meta (take (length rs - unat tkr) rs)"
    using t len by (intro side_take [OF ok(2)])
      (auto simp: at_def shrink_back_def side_count_def side_next_def r_base_def word_le_nat_alt unat_sub_le sub_mono)
  moreover have "map (at True meta) (map (\<lambda>i. int (length ls) - 1 - int i) [0..<unat tkl]) =
      map (\<lambda>i. l_base meta + word_of_nat i) [0..<unat tkl]"
    "map (at False meta) (map (\<lambda>i. int (length rs) - 1 - int i) [0..<unat tkr]) =
      map (\<lambda>i. r_next meta - 1 - word_of_nat i) [0..<unat tkr]"
    by (simp_all add: at_def l_base_def r_base_def len)
  ultimately have "side_ok (apply_batch (side_batch pfx key True (map (\<lambda>i. l_base meta + word_of_nat i) [0..<unat tkl]) []) m)
      pfx key True ?meta (take (length ls - unat tkl) ls)"
    "side_ok (apply_batch (side_batch pfx key False (map (\<lambda>i. r_next meta - 1 - word_of_nat i) [0..<unat tkr]) []) m)
      pfx key False ?meta (take (length rs - unat tkr) rs)"
    by (simp_all only:)
  then show ?thesis
    by (rule list_rep_sides(2) [OF _ _ refl refl]) (use room in simp)
qed


lemma pop_plan_eq:
  "pop_plan pfx key meta left n =
     (if left then
        (let tkl = min n (l_count meta); tkr = n - tkl in
         (side_batch pfx key True (map (\<lambda>i. l_next meta - 1 - word_of_nat i) [0..<unat tkl]) [] @
          side_batch pfx key False (map (\<lambda>i. r_base meta + word_of_nat i) [0..<unat tkr]) [],
          shrink_front tkl tkr meta))
      else
        (let tkr = min n (r_count meta); tkl = n - tkr in
         (side_batch pfx key False (map (\<lambda>i. r_next meta - 1 - word_of_nat i) [0..<unat tkr]) [] @
          side_batch pfx key True (map (\<lambda>i. l_base meta + word_of_nat i) [0..<unat tkl]) [],
          shrink_back tkl tkr meta)))"
  by (simp add: pop_plan_def shrink_front_def shrink_back_def Let_def side_deletes)

lemma unat_min_le: "unat (min a b) = min (unat a) (unat b)" for a b :: u64
  by (simp add: min_def word_le_nat_alt)

lemma pop_plan_rep:
  assumes rep: "list_rep m pfx key meta xs" and n: "unat n \<le> length xs" and plan: "pop_plan pfx key meta left n = (b, meta')"
  shows "list_rep (apply_batch b m) pfx key meta' (if left then drop (unat n) xs else take (length xs - unat n) xs)"
    "elems_only pfx key b" "lm_expire meta' = lm_expire meta"
proof -
  obtain ls rs where xs: "xs = ls @ rs" and ok: "side_ok m pfx key True meta ls" "side_ok m pfx key False meta rs"
      and room: "length ls + length rs < 2 ^ 64"
    using rep unfolding list_rep_def by blast
  have len: "length ls = unat (l_count meta)" "length rs = unat (r_count meta)"
    using ok by (auto simp: side_ok_def side_count_def)
  show "elems_only pfx key b" "lm_expire meta' = lm_expire meta"
    using plan by (auto simp: pop_plan_eq Let_def shrink_front_def shrink_back_def elems_only_append elems_only_side split: if_splits)
  show "list_rep (apply_batch b m) pfx key meta' (if left then drop (unat n) xs else take (length xs - unat n) xs)"
  proof (cases left)
    case True
    define tkl where "tkl = min n (l_count meta)"
    have t: "tkl \<le> l_count meta" "unat (n - tkl) = unat n - unat tkl" "unat tkl = min (unat n) (length ls)"
      by (simp_all add: tkl_def unat_sub_le unat_min_le len)
    have r: "n - tkl \<le> r_count meta" using t n len xs by (simp add: word_le_nat_alt)
    have "drop (unat tkl) ls @ drop (unat (n - tkl)) rs = drop (unat n) xs"
      using t xs by (cases "unat n \<le> length ls") auto
    moreover have "b = side_batch pfx key True (map (\<lambda>i. l_next meta - 1 - word_of_nat i) [0..<unat tkl]) [] @
          side_batch pfx key False (map (\<lambda>i. r_base meta + word_of_nat i) [0..<unat (n - tkl)]) []"
        "meta' = shrink_front tkl (n - tkl) meta"
      using plan True by (simp_all add: pop_plan_eq Let_def tkl_def)
    ultimately show ?thesis using shrink_front_rep [OF ok room t(1) r] True by (simp only: if_True)
  next
    case False
    define tkr where "tkr = min n (r_count meta)"
    have t: "tkr \<le> r_count meta" "unat (n - tkr) = unat n - unat tkr" "unat tkr = min (unat n) (length rs)"
      by (simp_all add: tkr_def unat_sub_le unat_min_le len)
    have l: "n - tkr \<le> l_count meta" using t n len xs by (simp add: word_le_nat_alt)
    have "take (length ls - unat (n - tkr)) ls @ take (length rs - unat tkr) rs = take (length xs - unat n) xs"
      using t n xs by (cases "unat n \<le> length rs") auto
    moreover have "b = side_batch pfx key False (map (\<lambda>i. r_next meta - 1 - word_of_nat i) [0..<unat tkr]) [] @
          side_batch pfx key True (map (\<lambda>i. l_base meta + word_of_nat i) [0..<unat (n - tkr)]) []"
        "meta' = shrink_back (n - tkr) tkr meta"
      using plan False by (simp_all add: pop_plan_eq Let_def tkr_def)
    ultimately show ?thesis using shrink_back_rep [OF ok room l t(1)] False by (simp only: if_False)
  qed
qed


lemma locate_slot:
  assumes ok: "side_ok m pfx key True meta ls" "side_ok m pfx key False meta rs" and p: "p < length ls + length rs"
    and room: "length ls + length rs < 2 ^ 64"
  shows "locate meta (word_of_nat p) =
    (if p < length ls then (True, slot_at True meta p) else (False, slot_at False meta (p - length ls)))"
proof -
  have len: "unat (l_count meta) = length ls" "l_count meta = word_of_nat (length ls)"
    using ok(1) by (auto simp: side_ok_def side_count_def)
  have "unat (word_of_nat p :: u64) = p" using p room by (simp add: unat_of_nat)
  then have "(word_of_nat p :: u64) < l_count meta \<longleftrightarrow> p < length ls" by (simp add: word_less_nat_alt len(1))
  then show ?thesis
    by (auto simp: locate_def slot_at_def l_base_def len(2) of_nat_diff)
qed

lemma pop_targets:
  assumes "list_rep m pfx key meta xs" "xs \<noteq> []"
  shows "pop_left_target meta = locate meta 0" "pop_right_target meta = locate meta (word_of_nat (length xs - 1))"
proof -
  obtain ls rs where xs: "xs = ls @ rs" and ok: "side_ok m pfx key True meta ls" "side_ok m pfx key False meta rs"
      and room: "length ls + length rs < 2 ^ 64"
    using assms(1) unfolding list_rep_def by blast
  have len: "unat (l_count meta) = length ls" "unat (r_count meta) = length rs"
      "l_count meta = word_of_nat (length ls)" "r_count meta = word_of_nat (length rs)"
    using ok by (auto simp: side_ok_def side_count_def)
  have pos: "0 < l_count meta \<longleftrightarrow> ls \<noteq> []" "0 < r_count meta \<longleftrightarrow> rs \<noteq> []"
    by (auto simp: word_less_nat_alt len(1,2))
  have "locate meta (word_of_nat 0) = (if 0 < length ls then (True, slot_at True meta 0) else (False, slot_at False meta (0 - length ls)))"
    using assms(2) xs by (intro locate_slot [OF ok _ room]) auto
  then show "pop_left_target meta = locate meta 0"
    by (auto simp: pop_left_target_def pos slot_at_def)
  have "locate meta (word_of_nat (length xs - 1)) = (if length xs - 1 < length ls then (True, slot_at True meta (length xs - 1))
      else (False, slot_at False meta (length xs - 1 - length ls)))"
    using assms(2) xs by (intro locate_slot [OF ok _ room]) auto
  also have "\<dots> = pop_right_target meta"
  proof (cases "rs = []")
    case True
    then have "length xs - 1 < length ls" "length ls - 1 < length ls" using xs assms(2) by (simp_all add: Suc_le_eq)
    then show ?thesis using True xs pos(2)
      by (cases ls) (simp_all add: pop_right_target_def slot_at_def l_base_def len(3))
  next
    case False
    then have "\<not> length xs - 1 < length ls" "length xs - 1 - length ls = length rs - 1" "1 \<le> length rs"
      using xs by (cases rs; simp)+
    then show ?thesis using pos(2) False
      by (cases rs) (simp_all add: pop_right_target_def slot_at_def r_base_def len(4))
  qed
  finally show "pop_right_target meta = locate meta (word_of_nat (length xs - 1))" by simp
qed

context healthy_rocksdb
begin

lemma locate_get:
  assumes rep: "list_rep (content db) pfx key meta xs" and p: "p < length xs"
  shows "(case locate meta (word_of_nat p) of (is_left, idx) \<Rightarrow> if is_left then get_l R db pfx key idx else get_r R db pfx key idx) =
    Inr (Some (xs ! p))"
proof -
  obtain ls rs where xs: "xs = ls @ rs" and ok: "side_ok (content db) pfx key True meta ls" "side_ok (content db) pfx key False meta rs"
      and room: "length ls + length rs < 2 ^ 64"
    using rep unfolding list_rep_def by blast
  show ?thesis
    using locate_slot [OF ok _ room, of p] side_ok_slot [OF ok(1), of p] side_ok_slot [OF ok(2), of "p - length ls"] p xs
    by (auto simp: get_l_def get_r_def get_physical_def side_key_simps nth_append)
qed

lemma pop_one_elem:
  assumes rep: "list_rep (content db) pfx key meta xs" and ne: "xs \<noteq> []"
  shows "\<exists>meta'. pop_one R db pfx key meta left = Inr (if left then hd xs else List.last xs, meta')"
proof -
  define p where "p = (if left then 0 else length xs - 1)"
  have target: "(if left then pop_left_target meta else pop_right_target meta) = locate meta (word_of_nat p)"
    using pop_targets [OF rep ne] by (simp add: p_def)
  have "p < length xs" "xs ! p = (if left then hd xs else List.last xs)"
    using ne by (simp_all add: p_def hd_conv_nth last_conv_nth)
  then show ?thesis
    using locate_get [OF rep, of p] by (auto simp: pop_one_def target Let_def split: prod.splits)
qed

text \<open>The elements a pop returns.\<close>
lemma pop_elems_eq:
  assumes rep: "list_rep (content db) pfx key meta xs" and n: "0 < unat n" "unat n \<le> length xs"
  shows "pop_elems R db pfx key meta left n = Inr (take (unat n) (if left then xs else rev xs))"
proof (cases "n = 1")
  case True
  have ne: "xs \<noteq> []" using n by auto
  then show ?thesis
    using True pop_one_elem [OF rep ne, of left]
    by (auto simp: pop_elems_def Let_def take_Suc hd_rev neq_Nil_conv)
next
  case False
  obtain ls rs where xs: "xs = ls @ rs" and ok: "side_ok (content db) pfx key True meta ls" "side_ok (content db) pfx key False meta rs"
      and room: "length ls + length rs < 2 ^ 64"
    using rep unfolding list_rep_def by blast
  note rng = collect_range_eq [OF ok room, folded xs]
  have len: "unat (lm_len meta) = length xs" by (rule list_rep_len [OF rep])
  have sub: "unat (n - 1) = unat n - 1" "unat (lm_len meta - 1) = length xs - 1" "unat (lm_len meta - n) = length xs - unat n"
    using n len by (simp_all add: unat_sub_le word_le_nat_alt)
  have "rev (take (Suc (length xs - 1) - (length xs - unat n)) (drop (length xs - unat n) xs)) = take (unat n) (rev xs)"
    using n by (simp add: take_rev)
  then show ?thesis
    using False n by (simp add: pop_elems_def Let_def rng sub)
qed

lemma pop_core_holds:
  assumes key: "classify key = Raw" "length key < 2 ^ 32" and pfx: "bounded_prefix (cx_prefix ctx)"
    and holds: "holds_list (content (sh_store (cx_shared ctx))) (cx_prefix ctx) key now e xs"
    and count: "\<And>c. count = Some c \<Longrightarrow> 0 \<le> sint c"
  defines "n \<equiv> (case count of None \<Rightarrow> 1 | Some c \<Rightarrow> unat c)"
  shows "\<exists>db'. pop_core R now key left count cmd ctx =
      (Some (take n (if left then xs else rev xs)),
       with_store db' (ctx\<lparr>cx_wrote := (cx_wrote ctx \<or> 0 < n \<and> xs \<noteq> [])\<rparr>)) \<and>
      list_step (content (sh_store (cx_shared ctx))) (content db') (cx_prefix ctx) key now e
        (if left then drop n xs else take (length xs - n) xs)"
proof (cases "xs = []")
  case True
  then show ?thesis
    using ctx_list_state_missing [OF _ pfx key] holds by (fastforce simp: pop_core_def)
next
  case False
  let ?m = "content (sh_store (cx_shared ctx))" and ?pfx = "cx_prefix ctx"
  define meta where "meta = stored_meta ?m ?pfx key now"
  have at: "list_at ?m ?pfx key now meta xs" and e: "lm_expire meta = e" and shape: "single_shape ?m ?pfx key"
    using holds_list_ne [OF holds False] holds by (simp_all add: meta_def holds_list_def)
  have rep: "list_rep ?m ?pfx key meta xs" using at by (simp add: list_at_def)
  have len: "unat (lm_len meta) = length xs" by (rule list_rep_len [OF rep])
  then have len0: "lm_len meta \<noteq> 0" using False by auto
  note st = ctx_list_state_at [OF at]
  show ?thesis
  proof (cases "count = Some 0")
    case True
    then show ?thesis
      using st holds by (intro exI [of _ "sh_store (cx_shared ctx)"])
        (simp add: pop_core_def n_def list_step_refl with_store_def)
  next
    case c: False
    define w where "w = (case count of None \<Rightarrow> 1 | Some c \<Rightarrow> min c (lm_len meta))"
    have "min 1 (length xs) = 1" using False by (simp add: min_def Suc_le_eq)
    then have w: "unat w = min n (length xs)" and w0: "0 < n"
      using c by (auto simp: w_def n_def unat_min_le len unat_gt_0 split: option.splits)
    obtain b meta' where plan: "pop_plan ?pfx key meta left w = (b, meta')" by fastforce
    note after = pop_plan_rep [OF rep _ plan]
    have "\<exists>db'. commit_list R key e (if lm_is_empty meta' then None else Some meta') b cmd ctx =
         (True, with_store db' (ctx\<lparr>cx_wrote := True\<rparr>)) \<and>
       list_step ?m (content db') ?pfx key now e (if left then drop (unat w) xs else take (length xs - unat w) xs)"
      using commit_list_rest [OF at shape _ pfx _ _ key, of b meta'] after w e by simp
    moreover have "pop_elems R (sh_store (cx_shared ctx)) ?pfx key meta left w = Inr (take (unat w) (if left then xs else rev xs))"
      using w w0 False by (intro pop_elems_eq [OF rep]) auto
    moreover have "take (unat w) (if left then xs else rev xs) = take n (if left then xs else rev xs)"
        "(if left then drop (unat w) xs else take (length xs - unat w) xs) = (if left then drop n xs else take (length xs - n) xs)"
      using w by (auto simp: min_def)
    ultimately show ?thesis
      using w0 False c len0 e by (auto simp: pop_core_def st w_def [symmetric] plan)
  qed
qed

end

section \<open>Rewrites\<close>

lemma nths_kept: fixes vs :: "'a list" shows "map ((!) vs) (kept_at ks (length vs)) = nths vs {p. p \<notin> set ks}"
proof -
  have "map fst (filter (\<lambda>q. snd q \<in> A) (zip ys [0..<length ys])) = map ((!) ys) (filter (\<lambda>p. p \<in> A) [0..<length ys])"
    for ys :: "'a list" and A
    by (induction ys rule: rev_induct) (auto simp: nth_append)
  from this [where A = "{p. p \<notin> set ks}" and ys = vs] show ?thesis by (simp add: nths_def kept_at_def)
qed

lemma length_nths_le: "length (nths xs A) \<le> length xs"
  by (simp add: length_nths card_mono [of "{..<length xs}", simplified] subset_iff)

lemma set_count_simps [simp]:
  "lm_expire (set_count left c meta) = lm_expire meta"
  "side_count left' (set_count left c meta) = (if left' = left then c else side_count left' meta)"
  "side_next left' (set_count left c meta) = side_next left' meta"
  by (auto simp: set_count_def side_count_def side_next_def)

lemma compact_half:
  assumes ok: "side_ok m pfx key left meta vs" and ks: "set ks \<subseteq> {..<length vs}"
  defines "r \<equiv> (if map (slot_at left meta) ks \<noteq> [] then
       (case compact_side pfx key (live_entries left meta vs) (map (slot_at left meta) ks) left of (b, c) \<Rightarrow> (b, c)) else ([], side_count left meta))"
  shows "side_ok (apply_batch (fst r) m) pfx key left (set_count left (snd r) meta) (nths vs {p. p \<notin> set ks})"
    "\<exists>dels puts. fst r = side_batch pfx key left dels puts"
proof -
  have "side_ok (apply_batch (fst r) m) pfx key left (set_count left (snd r) meta) (nths vs {p. p \<notin> set ks}) \<and>
      (\<exists>dels puts. fst r = side_batch pfx key left dels puts)"
  proof (cases "ks = []")
    case True
    have "\<exists>dels puts. [] = side_batch pfx key left dels puts" by (intro exI [of _ "[]"]) (simp add: side_batch_def)
    moreover have "set_count left (side_count left meta) meta = meta" by (simp add: set_count_def side_count_def)
    ultimately show ?thesis using True ok by (simp add: r_def nths_all)
  next
    case False
    then have ne: "vs \<noteq> []" using ks by (cases ks) auto
    obtain b c where bc: "compact_side pfx key (live_entries left meta vs) (map (slot_at left meta) ks) left = (b, c)"
      by fastforce
    then show ?thesis using side_compact [OF ok ne ks bc] False by (simp add: r_def nths_kept)
  qed
  then show "side_ok (apply_batch (fst r) m) pfx key left (set_count left (snd r) meta) (nths vs {p. p \<notin> set ks})"
    "\<exists>dels puts. fst r = side_batch pfx key left dels puts" by blast+
qed

lemma compact_both_rep:
  assumes ok: "side_ok m pfx key True meta ls" "side_ok m pfx key False meta rs" and room: "length ls + length rs < 2 ^ 64"
    and ks: "set kl \<subseteq> {..<length ls}" "set kr \<subseteq> {..<length rs}"
    and both: "compact_both pfx key meta (live_entries True meta ls) (live_entries False meta rs)
      (map (slot_at True meta) kl) (map (slot_at False meta) kr) = (b, meta')"
  shows "list_rep (apply_batch b m) pfx key meta' (nths ls {p. p \<notin> set kl} @ nths rs {p. p \<notin> set kr})"
    "elems_only pfx key b" "lm_expire meta' = lm_expire meta"
proof -
  define l where "l = (if map (slot_at True meta) kl \<noteq> [] then
       (case compact_side pfx key (live_entries True meta ls) (map (slot_at True meta) kl) True of (b, c) \<Rightarrow> (b, c)) else ([], side_count True meta))"
  define r where "r = (if map (slot_at False meta) kr \<noteq> [] then
       (case compact_side pfx key (live_entries False meta rs) (map (slot_at False meta) kr) False of (b, c) \<Rightarrow> (b, c)) else ([], side_count False meta))"
  have eq: "b = fst l @ fst r" "meta' = set_count False (snd r) (set_count True (snd l) meta)"
    using both by (auto simp: compact_both_def l_def r_def set_count_def side_count_def split: if_splits prod.splits)
  note L = compact_half [OF ok(1) ks(1), folded l_def] and Rt = compact_half [OF ok(2) ks(2), folded r_def]
  obtain dl pl dr pr where b: "fst l = side_batch pfx key True dl pl" "fst r = side_batch pfx key False dr pr"
    using L(2) Rt(2) by blast
  have "side_ok (apply_batch (fst l) m) pfx key True meta' (nths ls {p. p \<notin> set kl})"
    by (rule side_ok_frame [THEN iffD2, OF refl _ _ L(1)]) (simp_all add: eq(2))
  moreover have "side_ok (apply_batch (fst r) m) pfx key False meta' (nths rs {p. p \<notin> set kr})"
    by (rule side_ok_frame [THEN iffD2, OF refl _ _ Rt(1)]) (simp_all add: eq(2))
  ultimately show "list_rep (apply_batch b m) pfx key meta' (nths ls {p. p \<notin> set kl} @ nths rs {p. p \<notin> set kr})"
    unfolding eq(1) by (rule list_rep_sides(1) [OF _ _ b])
      (use room length_nths_le [of ls "{p. p \<notin> set kl}"] length_nths_le [of rs "{p. p \<notin> set kr}"] in linarith)
  show "elems_only pfx key b" "lm_expire meta' = lm_expire meta"
    by (simp_all add: eq b elems_only_append elems_only_side)
qed

text \<open>What \<open>LREM\<close> means on a sequence.\<close>
fun remove_first :: "nat \<Rightarrow> 'a \<Rightarrow> 'a list \<Rightarrow> 'a list" where
  "remove_first n x [] = []"
| "remove_first 0 x ys = ys"
| "remove_first (Suc n) x (y # ys) = (if y = x then remove_first n x ys else y # remove_first (Suc n) x ys)"

definition list_remove :: "int \<Rightarrow> 'a \<Rightarrow> 'a list \<Rightarrow> 'a list" where
  "list_remove cnt x xs =
     (if cnt = 0 then filter (\<lambda>y. y \<noteq> x) xs
      else if cnt > 0 then remove_first (nat cnt) x xs
      else rev (remove_first (nat (- cnt)) x (rev xs)))"

definition matches :: "'a \<Rightarrow> 'a list \<Rightarrow> nat list \<Rightarrow> nat list" where
  "matches x xs ps = filter (\<lambda>p. xs ! p = x) ps"

lemma remove_first_0 [simp]: "remove_first 0 x xs = xs"
  by (cases xs) simp_all

lemma matches_Cons:
  "matches x (y # ys) [0..<Suc (length ys)] = (if y = x then [0] else []) @ map Suc (matches x ys [0..<length ys])"
  unfolding matches_def upt_conv_Cons [OF zero_less_Suc] map_Suc_upt [symmetric] by (simp add: filter_map comp_def)

lemma nths_remove_first: "nths xs {p. p \<notin> set (take n (matches x xs [0..<length xs]))} = remove_first n x xs"
proof (induction n x xs rule: remove_first.induct)
  case (3 n x y ys)
  show ?case
  proof (cases "y = x")
    case True
    then have "{p. Suc p \<notin> set (take (Suc n) (matches x (y # ys) [0..<Suc (length ys)]))} =
        {p. p \<notin> set (take n (matches x ys [0..<length ys]))}"
      unfolding matches_Cons by (simp add: take_map image_iff)
    then show ?thesis using 3(1) True matches_Cons [of x y ys] by (simp add: nths_Cons del: upt_Suc)
  next
    case False
    then have "{p. Suc p \<notin> set (take (Suc n) (matches x (y # ys) [0..<Suc (length ys)]))} =
        {p. p \<notin> set (take (Suc n) (matches x ys [0..<length ys]))}"
      unfolding matches_Cons by (simp add: take_map image_iff)
    moreover have "0 \<notin> set (take (Suc n) (matches x (y # ys) [0..<Suc (length ys)]))"
      using False unfolding matches_Cons by (auto simp: take_map)
    ultimately show ?thesis using 3(2) False by (simp add: nths_Cons del: upt_Suc take_Suc_Cons)
  qed
qed (simp_all add: nths_all)

lemma matches_rev: "matches x (ys @ [y]) (rev [0..<Suc (length ys)]) = (if y = x then [length ys] else []) @ matches x ys (rev [0..<length ys])"
  by (auto simp: matches_def nth_append intro: filter_cong)

lemma nths_remove_last: "nths xs {p. p \<notin> set (take n (matches x xs (rev [0..<length xs])))} = rev (remove_first n x (rev xs))"
proof (induction xs arbitrary: n rule: rev_induct)
  case (snoc y ys)
  have below: "p < length ys" if "p \<in> set (take k (matches x ys (rev [0..<length ys])))" for p k
    using set_take_subset [of k] that by (fastforce simp: matches_def)
  show ?case
  proof (cases n)
    case (Suc k)
    show ?thesis
    proof (cases "y = x")
      case True
      have "nths ys {p. p \<notin> set (take (Suc k) (matches x (ys @ [y]) (rev [0..<Suc (length ys)])))} =
          nths ys {p. p \<notin> set (take k (matches x ys (rev [0..<length ys])))}"
        unfolding matches_rev using True by (auto simp: nths_def intro!: arg_cong [where f = "map fst"] filter_cong dest: set_zip_rightD)
      then show ?thesis
        using snoc [of k] True Suc matches_rev [of x ys y] by (simp add: nths_append del: upt_Suc)
    next
      case False
      have "length ys \<notin> set (take (Suc k) (matches x ys (rev [0..<length ys])))" using below by blast
      then show ?thesis
        using snoc [of "Suc k"] False Suc matches_rev [of x ys y] by (simp add: nths_append del: upt_Suc)
    qed
  qed (simp add: nths_all)
qed simp

lemma remove_first_all: "length (filter (\<lambda>y. y = x) xs) \<le> n \<Longrightarrow> remove_first n x xs = filter (\<lambda>y. y \<noteq> x) xs"
proof (induction n x xs rule: remove_first.induct)
  case (2 x y ys)
  then have "filter (\<lambda>z. z = x) (y # ys) = []" by simp
  then show ?case by (auto simp: filter_empty_conv intro: filter_True [symmetric] simp del: filter.simps)
qed auto

lemma length_nths_drop:
  assumes "distinct ks" "set ks \<subseteq> {..<length xs}"
  shows "length (nths xs {p. p \<notin> set ks}) = length xs - length ks" "length ks \<le> length xs"
proof -
  have "{i. i < length xs \<and> i \<in> {p. p \<notin> set ks}} = {..<length xs} - set ks" by auto
  then show "length (nths xs {p. p \<notin> set ks}) = length xs - length ks"
    using assms by (simp add: length_nths card_Diff_subset distinct_card)
  show "length ks \<le> length xs" using assms card_mono [of "{..<length xs}" "set ks"] by (simp add: distinct_card)
qed

text \<open>The budget of \<open>LREM\<close>: its count, or more than any list holds.\<close>
lemma nths_budget:
  fixes c :: i64 and xs :: "'a list"
  assumes "length xs < 2 ^ 64"
  shows "nths xs {p. p \<notin> set (take (unat (if c = 0 then - 1 else word_of_int \<bar>sint c\<bar> :: u64))
      (matches x xs (if sint c < 0 then rev [0..<length xs] else [0..<length xs])))} = list_remove (sint c) x xs"
proof (cases "c = 0")
  case True
  have "length xs \<le> unat (- 1 :: u64)" using assms by (simp add: unsigned_minus_1_eq_mask mask_eq_exp_minus_1)
  then have "length (filter (\<lambda>y. y = x) xs) \<le> unat (- 1 :: u64)" by (rule order_trans [OF length_filter_le])
  then show ?thesis using True by (simp add: nths_remove_first remove_first_all list_remove_def)
next
  case False
  then have ne: "sint c \<noteq> 0" by (simp add: signed_eq_0_iff)
  have "\<bar>sint c\<bar> < 2 ^ 64" using sint_range_size [of c] by (auto simp: word_size)
  then have "unat (word_of_int \<bar>sint c\<bar> :: u64) = nat \<bar>sint c\<bar>" by (simp add: unat_eq_nat_uint uint_word_of_int)
  then show ?thesis
    using False ne by (cases "sint c < 0") (simp_all add: nths_remove_first nths_remove_last list_remove_def)
qed

text \<open>The marking loop marks the first matches it meets.\<close>
lemma mark_kills_eq:
  fixes ls rs :: "bytes list" and meta :: list_meta
  defines "entry \<equiv> \<lambda>p. if p < length ls then (True, slot_at True meta p, ls ! p)
      else (False, slot_at False meta (p - length ls), rs ! (p - length ls))"
  shows "mark_kills budget elem (map entry ps) (kl, kr) =
    (let ks = take (unat budget) (matches elem (ls @ rs) ps) in
     (kl @ map (slot_at True meta) (filter (\<lambda>p. p < length ls) ks),
      kr @ map (slot_at False meta) (map (\<lambda>p. p - length ls) (filter (\<lambda>p. \<not> p < length ls) ks))))"
proof (induction ps arbitrary: budget kl kr)
  case Nil
  then show ?case by (simp add: matches_def)
next
  case (Cons p ps)
  show ?case
  proof (cases "budget = 0")
    case True
    then show ?thesis by (cases "entry p") simp
  next
    case False
    then have "unat budget = Suc (unat (budget - 1))" by (simp add: unat_minus_one unat_gt_0)
    then show ?thesis
      using False Cons.IH [of "budget - 1"] Cons.IH [of budget] by (simp add: entry_def matches_def nth_append Let_def)
  qed
qed

lemma entries_todo:
  fixes ls rs :: "bytes list" and meta :: list_meta
  defines "entry \<equiv> \<lambda>p. if p < length ls then (True, slot_at True meta p, ls ! p)
      else (False, slot_at False meta (p - length ls), rs ! (p - length ls))"
  shows "map (Pair True) (live_entries True meta ls) @ map (Pair False) (live_entries False meta rs) =
    map entry [0..<length ls + length rs]"
proof -
  have "map entry [0..<length ls + length rs] = map entry [0..<length ls] @ map entry [length ls..<length ls + length rs]"
    by (simp flip: map_append upt_add_eq_append add: le_add1)
  also have "[length ls..<length ls + length rs] = map (\<lambda>p. p + length ls) [0..<length rs]"
    by (simp add: map_add_upt add.commute)
  finally show ?thesis by (simp add: entry_def live_entries_def)
qed

text \<open>Killing positions on both sides is killing positions of the sequence.\<close>
lemma nths_sides:
  assumes "set ks \<subseteq> {..<length ls + length rs}"
  shows "nths ls {p. p \<notin> set (filter (\<lambda>p. p < length ls) ks)} @
      nths rs {p. p \<notin> set (map (\<lambda>p. p - length ls) (filter (\<lambda>p. \<not> p < length ls) ks))} = nths (ls @ rs) {p. p \<notin> set ks}"
proof -
  have "nths ls {p. p \<notin> set (filter (\<lambda>p. p < length ls) ks)} = nths ls {p. p \<notin> set ks}"
    by (auto simp: nths_def intro!: arg_cong [where f = "map fst"] filter_cong dest: set_zip_rightD)
  moreover have "{p. p \<notin> set (map (\<lambda>p. p - length ls) (filter (\<lambda>p. \<not> p < length ls) ks))} = {p. p + length ls \<notin> set ks}"
    by (force simp: image_iff)
  ultimately show ?thesis by (simp add: nths_append)
qed

context healthy_rocksdb
begin

lemma sides_eq:
  assumes "side_ok (content db) pfx key True meta ls" "side_ok (content db) pfx key False meta rs"
  shows "sides R db pfx key meta = Inr (live_entries True meta ls, live_entries False meta rs)"
  by (simp add: sides_def collect_side_eq [OF assms(1)] collect_side_eq [OF assms(2)] live_entries_def)

text \<open>A rewrite that keeps the positions outside \<open>ks\<close>.\<close>
lemma rewrite_holds:
  assumes at: "list_at (content (sh_store (cx_shared ctx))) (cx_prefix ctx) key now meta (ls @ rs)"
    and shape: "single_shape (content (sh_store (cx_shared ctx))) (cx_prefix ctx) key"
    and pfx: "bounded_prefix (cx_prefix ctx)" and key: "classify key = Raw" "length key < 2 ^ 32"
    and ok: "side_ok (content (sh_store (cx_shared ctx))) (cx_prefix ctx) key True meta ls"
      "side_ok (content (sh_store (cx_shared ctx))) (cx_prefix ctx) key False meta rs" "length ls + length rs < 2 ^ 64"
    and ks: "set ks \<subseteq> {..<length ls + length rs}"
    and both: "compact_both (cx_prefix ctx) key meta (live_entries True meta ls) (live_entries False meta rs)
      (map (slot_at True meta) (filter (\<lambda>p. p < length ls) ks))
      (map (slot_at False meta) (map (\<lambda>p. p - length ls) (filter (\<lambda>p. \<not> p < length ls) ks))) = (b, meta')"
  shows "\<exists>db'. commit_list R key (lm_expire meta) (if lm_is_empty meta' then None else Some meta') b cmd ctx =
       (True, with_store db' (ctx\<lparr>cx_wrote := True\<rparr>)) \<and>
     list_step (content (sh_store (cx_shared ctx))) (content db') (cx_prefix ctx) key now (lm_expire meta)
       (nths (ls @ rs) {p. p \<notin> set ks})"
proof -
  have "set (filter (\<lambda>p. p < length ls) ks) \<subseteq> {..<length ls}"
    "set (map (\<lambda>p. p - length ls) (filter (\<lambda>p. \<not> p < length ls) ks)) \<subseteq> {..<length rs}"
    using ks by auto
  note after = compact_both_rep [OF ok this both, unfolded nths_sides [OF ks]]
  show ?thesis by (rule commit_list_rest [OF at shape after(2) pfx after(1,3) key])
qed

lemma lrem_holds:
  assumes args: "cx_args ctx = [key, cnt, elem]" "parse_i64 cnt = Some c"
    and key: "classify key = Raw" "length key < 2 ^ 32" and pfx: "bounded_prefix (cx_prefix ctx)"
    and holds: "holds_list (content (sh_store (cx_shared ctx))) (cx_prefix ctx) key now e xs"
  defines "ys \<equiv> list_remove (sint c) elem xs"
  shows "\<exists>db'. lrem R now ctx =
      reply (\<lambda>out. append_int out (word_of_nat (length xs - length ys)))
        (with_store db' (ctx\<lparr>cx_wrote := (cx_wrote ctx \<or> xs \<noteq> [])\<rparr>)) \<and>
      list_step (content (sh_store (cx_shared ctx))) (content db') (cx_prefix ctx) key now e ys"
proof (cases "xs = []")
  case True
  then show ?thesis
    using ctx_list_state_missing [OF _ pfx key] holds args by (fastforce simp: lrem_def ys_def list_remove_def)
next
  case False
  let ?m = "content (sh_store (cx_shared ctx))" and ?pfx = "cx_prefix ctx"
  define meta where "meta = stored_meta ?m ?pfx key now"
  have at: "list_at ?m ?pfx key now meta xs" and e: "lm_expire meta = e" and shape: "single_shape ?m ?pfx key"
    using holds_list_ne [OF holds False] holds by (simp_all add: meta_def holds_list_def)
  obtain ls rs where xs: "xs = ls @ rs" and ok: "side_ok ?m ?pfx key True meta ls" "side_ok ?m ?pfx key False meta rs"
      and room: "length ls + length rs < 2 ^ 64"
    using at unfolding list_at_def list_rep_def by blast
  define budget :: u64 where "budget = (if c = 0 then - 1 else word_of_int \<bar>sint c\<bar>)"
  define ps where "ps = (if sint c < 0 then rev [0..<length xs] else [0..<length xs])"
  define ks where "ks = take (unat budget) (matches elem xs ps)"
  have bound: "set ks \<subseteq> {..<length ls + length rs}"
    using set_take_subset [of "unat budget" "matches elem xs ps"] by (auto simp: ks_def matches_def ps_def xs split: if_splits)
  have "distinct ks" by (simp add: ks_def matches_def ps_def)
  then have len: "length ks = length xs - length (nths xs {p. p \<notin> set ks})" using length_nths_drop [of ks xs] bound xs by simp
  have ys: "nths xs {p. p \<notin> set ks} = ys"
    unfolding ks_def ps_def budget_def ys_def using room xs by (intro nths_budget) simp
  obtain b meta' where both: "compact_both ?pfx key meta (live_entries True meta ls) (live_entries False meta rs)
      (map (slot_at True meta) (filter (\<lambda>p. p < length ls) ks))
      (map (slot_at False meta) (map (\<lambda>p. p - length ls) (filter (\<lambda>p. \<not> p < length ls) ks))) = (b, meta')"
    by fastforce
  have marks: "mark_kills budget elem (if sint c < 0
        then rev (map (Pair True) (live_entries True meta ls) @ map (Pair False) (live_entries False meta rs))
        else map (Pair True) (live_entries True meta ls) @ map (Pair False) (live_entries False meta rs)) ([], []) =
      (map (slot_at True meta) (filter (\<lambda>p. p < length ls) ks),
       map (slot_at False meta) (map (\<lambda>p. p - length ls) (filter (\<lambda>p. \<not> p < length ls) ks)))"
    unfolding entries_todo
    using mark_kills_eq [of budget elem ls meta rs ps "[]" "[]"]
    by (cases "sint c < 0") (simp_all add: ks_def ps_def xs Let_def rev_map)
  obtain db' where commit: "commit_list R key e (if lm_is_empty meta' then None else Some meta') b ''lrem'' ctx =
       (True, with_store db' (ctx\<lparr>cx_wrote := True\<rparr>))"
      and step: "list_step ?m (content db') ?pfx key now e ys"
    using rewrite_holds [OF at [unfolded xs] shape pfx key ok room bound both, of "''lrem''"] ys e xs by auto
  have "length (filter (\<lambda>p. p < length ls) ks) + length (filter (\<lambda>p. \<not> p < length ls) ks) = length xs - length ys"
    using len ys by (simp add: sum_length_filter_compl)
  then have "lrem R now ctx = reply (\<lambda>out. append_int out (word_of_nat (length xs - length ys))) (with_store db' (ctx\<lparr>cx_wrote := True\<rparr>))"
    using args ctx_list_state_at [OF at] e
    by (simp add: lrem_def sides_eq [OF ok] Let_def marks budget_def [symmetric] both commit del: rev_append map_map split del: if_split)
  then show ?thesis using step False by auto
qed

end

section \<open>Ranges\<close>

text \<open>The elements from \<open>start\<close> to \<open>stop\<close>, negative positions counting from the end.\<close>
definition list_slice :: "int \<Rightarrow> int \<Rightarrow> 'a list \<Rightarrow> 'a list" where
  "list_slice start stop xs =
     (let len = int (length xs);
          s = (if start < 0 then max (len + start) 0 else start);
          e = (if stop < 0 then len + stop else stop) in
      take (nat (e - s + 1)) (drop (nat s) xs))"

lemma clamp_range_slice:
  assumes "unat len = length xs" "length xs < 2 ^ 63"
  shows "case clamp_range start stop len of
      None \<Rightarrow> list_slice (sint start) (sint stop) xs = []
    | Some (lo, hi) \<Rightarrow> unat lo \<le> unat hi \<and> unat hi < length xs \<and>
        list_slice (sint start) (sint stop) xs = take (Suc (unat hi) - unat lo) (drop (unat lo) xs)"
proof -
  define s where "s = (if sint start < 0 then max (int (length xs) + sint start) 0 else min (sint start) (int (length xs)))"
  define e where "e = (if sint stop < 0 then int (length xs) + sint stop else sint stop)"
  have len: "len_i64 len = int (length xs)"
  proof -
    have "uint len = int (length xs)" by (simp flip: assms(1))
    then show ?thesis using assms(2) by (simp add: len_i64_def)
  qed
  have slice: "list_slice (sint start) (sint stop) xs = take (nat (e - s + 1)) (drop (nat s) xs)"
    by (cases "sint start > int (length xs)") (auto simp: list_slice_def s_def e_def Let_def)
  have clamp: "clamp_range start stop len =
      (if e < 0 \<or> s > e \<or> s \<ge> int (length xs) then None else Some (word_of_int s, word_of_int (min e (int (length xs) - 1))))"
    by (simp add: clamp_range_def len s_def e_def Let_def)
  show ?thesis
  proof (cases "e < 0 \<or> s > e \<or> s \<ge> int (length xs)")
    case True
    have "0 \<le> s" by (auto simp: s_def)
    then show ?thesis using True by (auto simp: clamp slice)
  next
    case False
    have s0: "0 \<le> s" by (auto simp: s_def)
    have small: "unat (word_of_int z :: u64) = nat z" if "0 \<le> z" "z < 2 ^ 63" for z
      using that by (simp add: unat_eq_nat_uint uint_word_of_int)
    have u: "unat (word_of_int s :: u64) = nat s" "unat (word_of_int (min e (int (length xs) - 1)) :: u64) = nat (min e (int (length xs) - 1))"
      using False assms(2) s0 by (auto intro!: small)
    have "take (nat (e - s + 1)) (drop (nat s) xs) = take (Suc (nat (min e (int (length xs) - 1))) - nat s) (drop (nat s) xs)"
    proof (cases "e \<le> int (length xs) - 1")
      case True
      then have "Suc (nat e) - nat s = nat (e - s + 1)" using False s0 by linarith
      then show ?thesis using True by (simp add: min_def)
    next
      case e: False
      have "min e (int (length xs) - 1) = int (length xs) - 1" using e by simp
      moreover have "length (drop (nat s) xs) \<le> nat (e - s + 1)" using e s0 by simp
      moreover have "length (drop (nat s) xs) \<le> Suc (nat (int (length xs) - 1)) - nat s" by simp
      ultimately show ?thesis by (simp only: take_all)
    qed
    moreover have "nat s \<le> nat (min e (int (length xs) - 1))" "nat (min e (int (length xs) - 1)) < length xs"
      using False s0 by linarith+
    ultimately show ?thesis using False by (simp add: clamp slice u)
  qed
qed

context healthy_rocksdb
begin

lemma lrange_holds:
  assumes args: "cx_args ctx = [key, a, b]" "parse_i64 a = Some start" "parse_i64 b = Some stop"
    and key: "classify key = Raw" "length key < 2 ^ 32" and pfx: "bounded_prefix (cx_prefix ctx)"
    and holds: "holds_list (content (sh_store (cx_shared ctx))) (cx_prefix ctx) key now e xs" and len: "length xs < 2 ^ 63"
  shows "\<exists>db'. lrange R now ctx =
      reply (\<lambda>out. append_bulks out (list_slice (sint start) (sint stop) xs)) (with_store db' ctx) \<and>
      list_step (content (sh_store (cx_shared ctx))) (content db') (cx_prefix ctx) key now e xs"
proof (cases "xs = []")
  case True
  have "append_bulks out [] = append_array out 0" for out by (simp add: append_bulks_def)
  then show ?thesis
    using ctx_list_state_missing [OF _ pfx key] holds args True by (fastforce simp: lrange_def list_slice_def)
next
  case False
  let ?m = "content (sh_store (cx_shared ctx))" and ?pfx = "cx_prefix ctx"
  define meta where "meta = stored_meta ?m ?pfx key now"
  have at: "list_at ?m ?pfx key now meta xs" using holds_list_ne [OF holds False] by (simp add: meta_def)
  obtain ls rs where xs: "xs = ls @ rs" and ok: "side_ok ?m ?pfx key True meta ls" "side_ok ?m ?pfx key False meta rs"
      and room: "length ls + length rs < 2 ^ 64"
    using at unfolding list_at_def list_rep_def by blast
  have "unat (lm_len meta) = length xs" using at list_rep_len(1) unfolding list_at_def by blast
  then have "(case clamp_range start stop (lm_len meta) of None \<Rightarrow> Inr []
      | Some (lo, hi) \<Rightarrow> collect_range R (sh_store (cx_shared ctx)) ?pfx key meta lo hi) =
      Inr (list_slice (sint start) (sint stop) xs)"
    using clamp_range_slice [of "lm_len meta" xs start stop] len collect_range_eq [OF ok room] xs by (auto split: option.splits)
  then have "lrange R now ctx = reply (\<lambda>out. append_bulks out (list_slice (sint start) (sint stop) xs)) ctx"
    using args ctx_list_state_at [OF at] by (simp add: lrange_def)
  then show ?thesis
    using list_step_refl [OF holds] by (intro exI [of _ "sh_store (cx_shared ctx)"]) (simp add: with_store_def)
qed

end

text \<open>The positions \<open>LTRIM\<close> drops.\<close>
lemma trim_kills:
  fixes lo hi :: u64
  assumes ok: "side_ok m pfx key True meta ls" "side_ok m pfx key False meta rs" and room: "length ls + length rs < 2 ^ 64"
  defines "ks \<equiv> filter (\<lambda>p. p < unat lo \<or> p > unat hi) [0..<length ls + length rs]"
  shows "filter (\<lambda>i. l_base meta + l_count meta - 1 - i < lo \<or> l_base meta + l_count meta - 1 - i > hi) (map fst (live_entries True meta ls)) =
      map (slot_at True meta) (filter (\<lambda>p. p < length ls) ks)"
    "filter (\<lambda>i. l_count meta + (i - r_base meta) < lo \<or> l_count meta + (i - r_base meta) > hi) (map fst (live_entries False meta rs)) =
      map (slot_at False meta) (map (\<lambda>p. p - length ls) (filter (\<lambda>p. \<not> p < length ls) ks))"
proof -
  have lc: "l_count meta = word_of_nat (length ls)" using ok(1) by (auto simp: side_ok_def side_count_def)
  have split: "[0..<length ls + length rs] = [0..<length ls] @ map (\<lambda>p. p + length ls) [0..<length rs]"
    using upt_add_eq_append [of 0 "length ls" "length rs"] by (simp add: map_add_upt add.commute)
  have p: "unat (word_of_nat p :: u64) = p" if "p < length ls + length rs" for p using that room by (simp add: unat_of_nat)
  have "filter (\<lambda>p. p < length ls) ks = filter (\<lambda>p. p < unat lo \<or> p > unat hi) [0..<length ls]"
    by (auto simp: ks_def split filter_map comp_def intro: filter_cong)
  moreover have "l_base meta + l_count meta - 1 - slot_at True meta p = word_of_nat p" for p
    by (simp add: slot_at_def l_base_def)
  ultimately show "filter (\<lambda>i. l_base meta + l_count meta - 1 - i < lo \<or> l_base meta + l_count meta - 1 - i > hi) (map fst (live_entries True meta ls)) =
      map (slot_at True meta) (filter (\<lambda>p. p < length ls) ks)"
    by (auto simp: live_entries_def filter_map comp_def word_less_nat_alt p intro!: arg_cong [where f = "map (slot_at True meta)"] filter_cong)
  have "filter (\<lambda>p. \<not> p < length ls) ks = map (\<lambda>p. p + length ls) (filter (\<lambda>p. p + length ls < unat lo \<or> p + length ls > unat hi) [0..<length rs])"
    by (auto simp: ks_def split filter_map comp_def intro: filter_cong)
  moreover have "l_count meta + (slot_at False meta p - r_base meta) = word_of_nat (p + length ls)" for p
    by (simp add: slot_at_def lc)
  ultimately show "filter (\<lambda>i. l_count meta + (i - r_base meta) < lo \<or> l_count meta + (i - r_base meta) > hi) (map fst (live_entries False meta rs)) =
      map (slot_at False meta) (map (\<lambda>p. p - length ls) (filter (\<lambda>p. \<not> p < length ls) ks))"
    by (auto simp: live_entries_def filter_map comp_def word_less_nat_alt p simp del: of_nat_add
        intro!: arg_cong [where f = "map (slot_at False meta)"] filter_cong)
qed

lemma nths_range:
  assumes "lo \<le> hi" "hi < length xs"
  shows "nths xs {p. p \<notin> set (filter (\<lambda>p. p < lo \<or> p > hi) [0..<length xs])} = take (Suc hi - lo) (drop lo xs)"
proof -
  have "nths xs {p. p \<notin> set (filter (\<lambda>p. p < lo \<or> p > hi) [0..<length xs])} = nths xs ((+) lo ` {..<Suc hi - lo})"
  proof -
    have "p \<in> (+) lo ` {..<Suc hi - lo} \<longleftrightarrow> lo \<le> p \<and> p \<le> hi" for p
      using assms by (auto simp: image_iff intro: bexI [of _ "p - lo"])
    then show ?thesis
      by (auto simp: nths_def intro!: arg_cong [where f = "map fst"] filter_cong dest: set_zip_rightD)
  qed
  also have "\<dots> = nths (drop lo xs) {..<Suc hi - lo}" by (rule nths_drop [symmetric])
  finally show ?thesis by (simp only: nths_upt_eq_take)
qed

context healthy_rocksdb
begin

lemma ltrim_holds:
  assumes args: "cx_args ctx = [key, a, b]" "parse_i64 a = Some start" "parse_i64 b = Some stop"
    and key: "classify key = Raw" "length key < 2 ^ 32" and pfx: "bounded_prefix (cx_prefix ctx)"
    and holds: "holds_list (content (sh_store (cx_shared ctx))) (cx_prefix ctx) key now e xs" and len: "length xs < 2 ^ 63"
  shows "\<exists>db'. ltrim R now ctx =
      reply (\<lambda>out. append_string out (ascii ''OK'')) (with_store db' (ctx\<lparr>cx_wrote := (cx_wrote ctx \<or> xs \<noteq> [])\<rparr>)) \<and>
      list_step (content (sh_store (cx_shared ctx))) (content db') (cx_prefix ctx) key now e (list_slice (sint start) (sint stop) xs)"
proof (cases "xs = []")
  case True
  then show ?thesis
    using ctx_list_state_missing [OF _ pfx key] holds args by (fastforce simp: ltrim_def list_slice_def)
next
  case False
  let ?m = "content (sh_store (cx_shared ctx))" and ?pfx = "cx_prefix ctx"
  define meta where "meta = stored_meta ?m ?pfx key now"
  have at: "list_at ?m ?pfx key now meta xs" and e: "lm_expire meta = e" and shape: "single_shape ?m ?pfx key"
    using holds_list_ne [OF holds False] holds by (simp_all add: meta_def holds_list_def)
  obtain ls rs where xs: "xs = ls @ rs" and ok: "side_ok ?m ?pfx key True meta ls" "side_ok ?m ?pfx key False meta rs"
      and room: "length ls + length rs < 2 ^ 64"
    using at unfolding list_at_def list_rep_def by blast
  have "unat (lm_len meta) = length xs" using at list_rep_len(1) unfolding list_at_def by blast
  note clamp = clamp_range_slice [OF this len, of start stop]
  note st = ctx_list_state_at [OF at]
  show ?thesis
  proof (cases "clamp_range start stop (lm_len meta)")
    case None
    have "elems_only ?pfx key []" by (rule elems_only_Nil)
    note holds_list_drop [OF at shape pfx this key, of R e]
    then have "\<exists>db'. commit_list R key e None [] ''ltrim'' ctx = (True, with_store db' (ctx\<lparr>cx_wrote := True\<rparr>)) \<and>
        list_step ?m (content db') ?pfx key now e []"
      using commit_list_eq [of key e None "[]" "''ltrim''" ctx] e by (auto simp del: apply_batch_simps)
    then show ?thesis using None clamp False args st e by (auto simp: ltrim_def)
  next
    case (Some r)
    obtain lo hi where r: "r = (lo, hi)" by fastforce
    define ks where "ks = filter (\<lambda>p. p < unat lo \<or> p > unat hi) [0..<length ls + length rs]"
    note kills = trim_kills [OF ok room, of lo hi, folded ks_def]
    obtain b meta' where both: "compact_both ?pfx key meta (live_entries True meta ls) (live_entries False meta rs)
        (map (slot_at True meta) (filter (\<lambda>p. p < length ls) ks))
        (map (slot_at False meta) (map (\<lambda>p. p - length ls) (filter (\<lambda>p. \<not> p < length ls) ks))) = (b, meta')"
      by fastforce
    have "set ks \<subseteq> {..<length ls + length rs}" by (auto simp: ks_def)
    note step = rewrite_holds [OF at [unfolded xs] shape pfx key ok room this both, of "''ltrim''"]
    have "nths (ls @ rs) {p. p \<notin> set ks} = list_slice (sint start) (sint stop) xs"
      using clamp nths_range [of "unat lo" "unat hi" xs] by (simp add: Some r ks_def xs)
    then obtain db' where "commit_list R key e (if lm_is_empty meta' then None else Some meta') b ''ltrim'' ctx =
         (True, with_store db' (ctx\<lparr>cx_wrote := True\<rparr>))"
        "list_step ?m (content db') ?pfx key now e (list_slice (sint start) (sint stop) xs)"
      using step e by auto
    then show ?thesis
      using args st e False
      by (intro exI [of _ db']) (simp add: ltrim_def Some r sides_eq [OF ok] Let_def kills both del: map_map)
  qed
qed

end

section \<open>The list commands as sequence operations\<close>

text \<open>The optional count of a pop: \<open>None\<close> when the arguments are refused.\<close>
definition pop_request :: "bytes list \<Rightarrow> i64 option option" where
  "pop_request opts =
     (case opts of
        [] \<Rightarrow> Some None
      | [a] \<Rightarrow> (case parse_i64 a of Some c \<Rightarrow> if sint c < 0 then None else Some (Some c) | None \<Rightarrow> None)
      | _ \<Rightarrow> None)"

definition pop_reply :: "i64 option \<Rightarrow> bytes list \<Rightarrow> bytes \<Rightarrow> bytes" where
  "pop_reply count popped out =
     (case count of
        None \<Rightarrow> (case popped of [] \<Rightarrow> append_null out | x # _ \<Rightarrow> append_bulk out x)
      | Some _ \<Rightarrow> append_bulks out popped)"

text \<open>C3: A push puts its elements at its end of the list, one after the other (so \<open>LPUSH\<close> reverses
  them), creates the list when it is absent or expired unless told not to, keeps the deadline, answers
  the new length, wakes as many waiters as there are new elements, and changes no record of
  another key.  The \<open>X\<close> forms on an absent list answer 0.\<close>
theorem push_refines:
  assumes "healthy_rocksdb R content" "cx_args ctx = key # es" "es \<noteq> []" "cx_prefix ctx = slot_prefix slot"
    and "classify key = Raw" "length key < 2 ^ 32"
    and "holds_list (content (sh_store (cx_shared ctx))) (slot_prefix slot) key now e xs" "length xs + length es < 2 ^ 64"
    and "unat (side_next left (stored_meta (content (sh_store (cx_shared ctx))) (slot_prefix slot) key now)) + length es < 2 ^ 64"
  shows "\<exists>db'. push_variant R now left create cmd ctx =
      (if create \<or> xs \<noteq> [] then
         reply (\<lambda>out. append_int out (word_of_nat (length xs + length es)))
           (notify_list (list_meta_key (slot_prefix slot) key) (length es) (with_store db' (ctx\<lparr>cx_wrote := True\<rparr>)))
       else reply (\<lambda>out. append_int out 0) (with_store db' ctx)) \<and>
    list_step (content (sh_store (cx_shared ctx))) (content db') (slot_prefix slot) key now (if xs = [] then 0 else e)
      (if \<not> create \<and> xs = [] then [] else if left then rev es @ xs else xs @ es)"
proof (cases "create \<or> xs \<noteq> []")
  case True
  then show ?thesis
    using healthy_rocksdb.push_holds [OF assms(1-3,5,6), of now e xs left create cmd] assms(4,7-9) bounded_slot_prefix
    by (auto simp: add.commute)
next
  case False
  then have "holds_list (content (sh_store (cx_shared ctx))) (cx_prefix ctx) key now 0 []"
    using assms(4,7) by (simp add: holds_list_def)
  then show ?thesis
    using healthy_rocksdb.ctx_list_state_missing [OF assms(1), of ctx key now 0] assms(2-6) bounded_slot_prefix False
    by (auto simp: push_variant_def neq_Nil_conv)
qed

text \<open>C4: A pop returns the first elements of its end, as many as asked for or as there are, in the
  order in which they leave; the rest stays in order, and a list popped empty goes with all its records.\<close>
theorem pop_refines:
  assumes "healthy_rocksdb R content" "cx_args ctx = key # opts" "pop_request opts = Some count" "cx_prefix ctx = slot_prefix slot"
    and "classify key = Raw" "length key < 2 ^ 32"
    and "holds_list (content (sh_store (cx_shared ctx))) (slot_prefix slot) key now e xs"
    and n: "n = (case count of None \<Rightarrow> 1 | Some c \<Rightarrow> unat c)"
  shows "\<exists>db'. pop R now left cmd ctx =
      reply (pop_reply count (take n (if left then xs else rev xs)))
        (with_store db' (ctx\<lparr>cx_wrote := (cx_wrote ctx \<or> 0 < n \<and> xs \<noteq> [])\<rparr>)) \<and>
    list_step (content (sh_store (cx_shared ctx))) (content db') (slot_prefix slot) key now e
      (if left then drop n xs else rev (drop n (rev xs)))"
proof -
  have "pop R now left cmd ctx = (case pop_core R now key left count cmd ctx of
      (None, ctx) \<Rightarrow> ctx | (Some elems, ctx) \<Rightarrow> reply (pop_reply count elems) ctx)"
  proof (cases count)
    case None
    then have "opts = []" using assms(3) by (auto simp: pop_request_def split: list.splits option.splits if_splits)
    then show ?thesis using assms(2) None
      by (auto simp: pop_def pop_reply_def get_at_def first_of_def reply_def split: list.splits option.splits prod.splits)
  next
    case (Some c)
    then obtain a where "opts = [a]" "parse_i64 a = Some c" "\<not> sint c < 0"
      using assms(3) by (auto simp: pop_request_def split: list.splits option.splits if_splits)
    then show ?thesis using assms(2) Some
      by (auto simp: pop_def pop_reply_def get_at_def reply_def split: option.splits prod.splits)
  qed
  moreover have "0 \<le> sint c" if "count = Some c" for c
    using that assms(3) by (auto simp: pop_request_def split: list.splits option.splits if_splits)
  then obtain db' where "pop_core R now key left count cmd ctx =
      (Some (take n (if left then xs else rev xs)), with_store db' (ctx\<lparr>cx_wrote := (cx_wrote ctx \<or> 0 < n \<and> xs \<noteq> [])\<rparr>))"
      "list_step (content (sh_store (cx_shared ctx))) (content db') (slot_prefix slot) key now e
        (if left then drop n xs else take (length xs - n) xs)"
    using healthy_rocksdb.pop_core_holds [OF assms(1,5,6), of ctx now e xs count left cmd] assms(4,7) n bounded_slot_prefix by auto
  ultimately show ?thesis by (intro exI [of _ db']) (cases left; simp add: rev_drop)
qed

text \<open>C14: \<open>LREM\<close> removes the first occurrences of the element from the head, from the tail for a
  negative count, all of them for 0, and answers how many it removed; the others keep their order.\<close>
theorem lrem_refines:
  assumes "healthy_rocksdb R content" "cx_args ctx = [key, cnt, elem]" "parse_i64 cnt = Some c" "cx_prefix ctx = slot_prefix slot"
    and "classify key = Raw" "length key < 2 ^ 32"
    and "holds_list (content (sh_store (cx_shared ctx))) (slot_prefix slot) key now e xs"
  shows "\<exists>db'. lrem R now ctx =
      reply (\<lambda>out. append_int out (word_of_nat (length xs - length (list_remove (sint c) elem xs))))
        (with_store db' (ctx\<lparr>cx_wrote := (cx_wrote ctx \<or> xs \<noteq> [])\<rparr>)) \<and>
    list_step (content (sh_store (cx_shared ctx))) (content db') (slot_prefix slot) key now e (list_remove (sint c) elem xs)"
  using healthy_rocksdb.lrem_holds [OF assms(1-3,5,6), of now e xs] assms(4,7) bounded_slot_prefix by simp

text \<open>C18: \<open>LRANGE\<close> answers, and \<open>LTRIM\<close> keeps, exactly the elements from the first position to the last,
  both included, negative positions counting from the end and positions outside the list cut off.\<close>
theorem ranges_refine:
  assumes "healthy_rocksdb R content" "cx_args ctx = [key, a, b]" "parse_i64 a = Some start" "parse_i64 b = Some stop"
    and "cx_prefix ctx = slot_prefix slot" "classify key = Raw" "length key < 2 ^ 32" "length xs < 2 ^ 63"
    and "holds_list (content (sh_store (cx_shared ctx))) (slot_prefix slot) key now e xs"
  shows "(\<exists>db'. lrange R now ctx =
        reply (\<lambda>out. append_bulks out (list_slice (sint start) (sint stop) xs)) (with_store db' ctx) \<and>
      list_step (content (sh_store (cx_shared ctx))) (content db') (slot_prefix slot) key now e xs) \<and>
    (\<exists>db'. ltrim R now ctx =
        reply (\<lambda>out. append_string out (ascii ''OK'')) (with_store db' (ctx\<lparr>cx_wrote := (cx_wrote ctx \<or> xs \<noteq> [])\<rparr>)) \<and>
      list_step (content (sh_store (cx_shared ctx))) (content db') (slot_prefix slot) key now e
        (list_slice (sint start) (sint stop) xs))"
  using healthy_rocksdb.lrange_holds [OF assms(1-4,6,7), of now e xs]
    healthy_rocksdb.ltrim_holds [OF assms(1-4,6,7), of now e xs] assms(5,8,9) bounded_slot_prefix by simp

text \<open>An empty store, and the list it holds after one push.\<close>
definition list_demo :: "bytes list \<Rightarrow> mem_db ctx" where
  "list_demo args = \<lparr>cx_shared = \<lparr>sh_store = [], sh_detached = [], sh_reaps = [], sh_wait = wait_hub_new\<rparr>,
     cx_prefix = slot_prefix 1, cx_args = args, cx_out = [], cx_close = False, cx_conn = conn_default, cx_wrote = False\<rparr>"

definition list_full :: "bytes list \<Rightarrow> mem_db ctx" where
  "list_full args = (rpush mem_rocksdb 5 (list_demo [[107], [1], [2], [1], [3]]))\<lparr>cx_args := args\<rparr>"

lemma list_demo_simps [simp]:
  "cx_args (list_demo args) = args" "cx_prefix (list_demo args) = slot_prefix 1" "sh_store (cx_shared (list_demo args)) = []"
  by (simp_all add: list_demo_def)

lemma demo_key: "classify [107] = Raw" by (simp add: classify_Cons kind_simps)

lemma list_demo_empty: "holds_list Map.empty pfx [107] now e []"
  by (simp add: holds_list_def single_shape_def rooted_def lookup_def first_kind_None_iff [THEN iffD2])

lemma stored_meta_empty: "stored_meta Map.empty pfx key now = blank_meta"
  by (simp add: stored_meta_def lookup_def first_kind_None_iff [THEN iffD2])

lemma list_full_holds:
  "cx_args (list_full args) = args" "cx_prefix (list_full args) = slot_prefix 1"
  "holds_list (map_of (sh_store (cx_shared (list_full args)))) (slot_prefix 1) [107] 5 0 [[1], [2], [1], [3]]"
proof -
  let ?ctx = "list_demo [[107], [1], [2], [1], [3]]"
  have "unat (side_next False (stored_meta Map.empty (slot_prefix 1) [107] 5)) + length [[1], [2], [1], [3]] < 2 ^ 64"
    unfolding stored_meta_empty by (simp add: side_next_def blank_meta_def)
  then obtain db' where "rpush mem_rocksdb 5 ?ctx =
      reply (\<lambda>out. append_int out (word_of_nat (length [[1], [2], [1], [3 :: u8]])))
        (notify_list (list_meta_key (slot_prefix 1) [107]) (length [[1], [2], [1], [3 :: u8]]) (with_store db' (?ctx\<lparr>cx_wrote := True\<rparr>)))"
      "list_step Map.empty (map_of db') (slot_prefix 1) [107] 5 0 [[1], [2], [1], [3]]"
    using mem.push_holds [of ?ctx "[107]" "[[1], [2], [1], [3]]" 5 0 "[]" False True "''rpush''"]
      list_demo_empty demo_key bounded_slot_prefix
    by (auto simp: rpush_def)
  then show "cx_args (list_full args) = args" "cx_prefix (list_full args) = slot_prefix 1"
    "holds_list (map_of (sh_store (cx_shared (list_full args)))) (slot_prefix 1) [107] 5 0 [[1], [2], [1], [3]]"
    by (simp_all add: list_full_def list_step_def reply_def notify_list_def with_store_def list_demo_def)
qed

theorem push_refines_witness:
  "\<exists>db'. lpush mem_rocksdb 5 (list_demo [[107], [1], [2]]) =
      reply (\<lambda>out. append_int out 2) (notify_list (list_meta_key (slot_prefix 1) [107]) 2
        (with_store db' ((list_demo [[107], [1], [2]])\<lparr>cx_wrote := True\<rparr>))) \<and>
    list_step Map.empty (map_of db') (slot_prefix 1) [107] 5 0 [[2], [1]]"
  using push_refines [OF mem_healthy, of "list_demo [[107], [1], [2]]" "[107]" "[[1], [2]]" 1 5 0 "[]" True True "''lpush''"]
    list_demo_empty stored_meta_empty demo_key
  by (simp add: lpush_def side_next_def blank_meta_def flip: numeral_2_eq_2)

theorem pop_refines_witness:
  "\<exists>db'. rpop mem_rocksdb 5 (list_full [[107], [51]]) =
      reply (\<lambda>out. append_bulks out [[3], [1], [2]]) (with_store db' ((list_full [[107], [51]])\<lparr>cx_wrote := True\<rparr>)) \<and>
    holds_list (map_of db') (slot_prefix 1) [107] 5 0 [[1]]"
proof -
  have "parse_i64 [51] = Some 3" by (simp add: parse_i64_def is_ascii_digit_def dec_val_def)
  then have "pop_request [[51]] = Some (Some 3)" by (simp add: pop_request_def)
  then show ?thesis
    using pop_refines [OF mem_healthy list_full_holds(1) _ list_full_holds(2) demo_key _ list_full_holds(3) refl,
        of "[[51]]" "Some 3" False "''rpop''"]
    by (auto simp: rpop_def list_step_def pop_reply_def reply_def)
qed

theorem lrem_refines_witness:
  "\<exists>db'. lrem mem_rocksdb 5 (list_full [[107], [45, 49], [1]]) =
      reply (\<lambda>out. append_int out 1) (with_store db' ((list_full [[107], [45, 49], [1]])\<lparr>cx_wrote := True\<rparr>)) \<and>
    holds_list (map_of db') (slot_prefix 1) [107] 5 0 [[1], [2], [3]]"
proof -
  have "parse_i64 [45, 49] = Some (- 1)" by (simp add: parse_i64_def is_ascii_digit_def dec_val_def)
  moreover have "list_remove (sint (- 1 :: i64)) [1] [[1], [2], [1], [3]] = [[1], [2], [3 :: u8]]" by (simp add: list_remove_def)
  ultimately show ?thesis
    using lrem_refines [OF mem_healthy list_full_holds(1) _ list_full_holds(2) demo_key _ list_full_holds(3),
        where cnt = "[45, 49]" and c = "- 1" and elem = "[1]"]
    by (auto simp: list_step_def)
qed

theorem ranges_refine_witness:
  "\<exists>db'. ltrim mem_rocksdb 5 (list_full [[107], [49], [45, 50]]) =
      reply (\<lambda>out. append_string out (ascii ''OK'')) (with_store db' ((list_full [[107], [49], [45, 50]])\<lparr>cx_wrote := True\<rparr>)) \<and>
    holds_list (map_of db') (slot_prefix 1) [107] 5 0 [[2], [1]]"
proof -
  have "parse_i64 [49] = Some 1" "parse_i64 [45, 50] = Some (- 2)" by (simp_all add: parse_i64_def is_ascii_digit_def dec_val_def)
  moreover have "list_slice (sint (1 :: i64)) (sint (- 2 :: i64)) [[1], [2], [1], [3]] = [[2], [1 :: u8]]"
    by (simp add: list_slice_def)
  ultimately show ?thesis
    using ranges_refine [OF mem_healthy list_full_holds(1) _ _ list_full_holds(2) demo_key _ _ list_full_holds(3),
        where a = "[49]" and start = 1 and b = "[45, 50]" and stop = "- 2"]
    by (auto simp: list_step_def)
qed

end
