(* ===== verification/Rdb_Strings.thy ===== *)
theory Rdb_Strings
  imports Rdb_Cmd
begin

text \<open>
  String commands, \<^verbatim>\<open>src/command/string.rs\<close>, \<^verbatim>\<open>string_opts.rs\<close>, \<^verbatim>\<open>string_incr.rs\<close> and
  \<^verbatim>\<open>string_rw.rs\<close>.  A string lives in a raw record or, with a deadline, in a STRING_TTL envelope;
  the properties see both as one value with a deadline.  \<open>f64\<close> is its bit pattern and the float
  operations of the standard library are the argument \<open>float_fns\<close>.
\<close>

section \<open>Records (string.rs)\<close>

datatype old_value = OldMissing | OldStr bytes | OldWrongType

definition old_string_value :: "key_state \<Rightarrow> old_value" where
  "old_string_value st =
     (case st of
        Missing \<Rightarrow> OldMissing
      | RawString val \<Rightarrow> OldStr val
      | Enveloped kind _ payload \<Rightarrow> if kind = KIND_STRING_TTL then OldStr payload else OldWrongType)"

text \<open>The \<open>unreachable!\<close> of the wrong type is the panic message.\<close>
definition reply_old_or_null :: "old_value \<Rightarrow> 'db handler" where
  "reply_old_or_null old ctx =
     (case old of
        OldStr v \<Rightarrow> (None, reply (\<lambda>out. append_bulk out v) ctx)
      | OldMissing \<Rightarrow> (None, reply append_null ctx)
      | OldWrongType \<Rightarrow> (Some ''internal error: entered unreachable code: wrong type must be rejected earlier'', ctx))"

definition clear_key_family :: "'db rocksdb \<Rightarrow> bytes \<Rightarrow> bytes \<Rightarrow> key_state \<Rightarrow> write_batch" where
  "clear_key_family R pfx key st =
     (case st of
        Missing \<Rightarrow> []
      | RawString _ \<Rightarrow> [Delete (string_key pfx key)]
      | Enveloped kind expire _ \<Rightarrow>
          family_delete_entries R None pfx (family_or STRING_FAMILY kind) key expire)"

definition write_string_record :: "bytes \<Rightarrow> bytes \<Rightarrow> bytes \<Rightarrow> u64 \<Rightarrow> write_batch" where
  "write_string_record pfx key val dl =
     (if dl > 0 then
        (let root = data_key pfx KIND_STRING_TTL key in
         Put root (encode_envelope dl val) # set_ttl_entries pfx root 0 dl)
      else [Put (string_key pfx key) val])"

text \<open>The rewrite every mutation ends in: clear, write, commit.\<close>
definition rewrite_string ::
    "'db rocksdb \<Rightarrow> bytes \<Rightarrow> key_state \<Rightarrow> bytes \<Rightarrow> u64 \<Rightarrow> 'db ctx \<Rightarrow> unit result \<times> 'db ctx" where
  "rewrite_string R key st val dl ctx =
     commit R (clear_key_family R (cx_prefix ctx) key st @ write_string_record (cx_prefix ctx) key val dl) ctx"

section \<open>Options of SET (string_opts.rs)\<close>

datatype ttl_spec = RelativeMs u64 | AbsoluteMs u64

record set_options =
  so_ttl :: "ttl_spec option"
  so_nx :: bool
  so_xx :: bool
  so_keepttl :: bool
  so_get :: bool

definition set_options_default :: set_options where
  "set_options_default = \<lparr>so_ttl = None, so_nx = False, so_xx = False, so_keepttl = False, so_get = False\<rparr>"

datatype set_syntax_error = Syntax | NotInteger | InvalidExpire

definition error_text :: "set_syntax_error \<Rightarrow> bytes" where
  "error_text err =
     (case err of
        Syntax \<Rightarrow> ascii ''ERR syntax error''
      | NotInteger \<Rightarrow> ascii ''ERR value is not an integer or out of range''
      | InvalidExpire \<Rightarrow> ascii (''ERR invalid expire time in '' @ [CHR 0x27] @ ''set'' @ [CHR 0x27] @ '' command''))"

definition saturating_add :: "u64 \<Rightarrow> u64 \<Rightarrow> u64" where
  "saturating_add a b = (if unat a + unat b < 2 ^ 64 then a + b else - 1)"

definition resolve_ttl :: "ttl_spec option \<Rightarrow> u64 \<Rightarrow> u64 option" where
  "resolve_ttl spec now =
     (case spec of
        None \<Rightarrow> None
      | Some (RelativeMs ms) \<Rightarrow> Some (saturating_add now ms)
      | Some (AbsoluteMs at) \<Rightarrow> Some at)"

text \<open>The value of a TTL option, in milliseconds; \<open>i64::MAX / 1000 = 9223372036854775\<close>.\<close>
definition set_ttl_value :: "bytes \<Rightarrow> bytes \<Rightarrow> set_syntax_error + ttl_spec" where
  "set_ttl_value arg raw =
     (let seconds = (arg = ascii ''EX'' \<or> arg = ascii ''EXAT'') in
      case parse_i64 raw of
        None \<Rightarrow> Inl NotInteger
      | Some n \<Rightarrow>
          if sint n \<le> 0 \<or> seconds \<and> sint n > 9223372036854775 then Inl InvalidExpire
          else
            (let ms = word_of_int (sint n * (if seconds then 1000 else 1)) in
             Inr (if arg = ascii ''EX'' \<or> arg = ascii ''PX'' then RelativeMs ms else AbsoluteMs ms)))"

text \<open>The option loop: what is left of the arguments, the options so far.\<close>
fun set_parse_loop :: "bytes list \<Rightarrow> set_options \<Rightarrow> set_syntax_error + set_options" where
  "set_parse_loop [] opts = Inr opts"
| "set_parse_loop (a # rest) opts =
     (let arg = to_ascii_uppercase a in
      if arg = ascii ''NX'' then set_parse_loop rest (opts\<lparr>so_nx := True\<rparr>)
      else if arg = ascii ''XX'' then set_parse_loop rest (opts\<lparr>so_xx := True\<rparr>)
      else if arg = ascii ''KEEPTTL'' then set_parse_loop rest (opts\<lparr>so_keepttl := True\<rparr>)
      else if arg = ascii ''GET'' then
        (if so_get opts then Inl Syntax else set_parse_loop rest (opts\<lparr>so_get := True\<rparr>))
      else if arg = ascii ''EX'' \<or> arg = ascii ''PX'' \<or> arg = ascii ''EXAT'' \<or> arg = ascii ''PXAT'' then
        (if so_ttl opts \<noteq> None then Inl Syntax
         else
           (case rest of
              [] \<Rightarrow> Inl Syntax
            | raw # rest \<Rightarrow>
                (case set_ttl_value arg raw of
                   Inl e \<Rightarrow> Inl e
                 | Inr spec \<Rightarrow> set_parse_loop rest (opts\<lparr>so_ttl := Some spec\<rparr>))))
      else Inl Syntax)"

definition set_parse :: "bytes list \<Rightarrow> set_syntax_error + set_options" where
  "set_parse args =
     (case set_parse_loop args set_options_default of
        Inl e \<Rightarrow> Inl e
      | Inr opts \<Rightarrow>
          if so_nx opts \<and> so_xx opts \<or> so_keepttl opts \<and> so_ttl opts \<noteq> None then Inl Syntax else Inr opts)"

section \<open>GET, SET, MGET, MSET (string.rs)\<close>

definition ping :: "'db ctx \<Rightarrow> 'db ctx" where
  "ping ctx =
     (if length (cx_args ctx) > 1 then reply (\<lambda>out. arity out ''ping'') ctx
      else
        (case first_of (cx_args ctx) of
           Some msg \<Rightarrow> reply (\<lambda>out. append_bulk out msg) ctx
         | None \<Rightarrow> reply (\<lambda>out. append_string out (ascii ''PONG'')) ctx))"

definition quit :: "'db ctx \<Rightarrow> 'db ctx" where
  "quit ctx = (reply (\<lambda>out. append_string out (ascii ''OK'')) ctx)\<lparr>cx_close := True\<rparr>"

definition config :: "'db ctx \<Rightarrow> 'db ctx" where
  "config ctx =
     reply (\<lambda>out. append_bulk (append_bulk (append_array out 2) (ascii ''cluster-require-full-coverage'')) (ascii ''no'')) ctx"

definition get_cmd :: "'db rocksdb \<Rightarrow> u64 \<Rightarrow> 'db ctx \<Rightarrow> 'db ctx" where
  "get_cmd R now ctx =
     (if length (cx_args ctx) \<noteq> 1 then reply (\<lambda>out. arity out ''get'') ctx
      else
        (case ctx_resolve_arc R (cx_args ctx ! 0) now ctx of
           (st, ctx) \<Rightarrow>
             (case old_string_value st of
                OldStr v \<Rightarrow> reply (\<lambda>out. append_bulk out v) ctx
              | OldMissing \<Rightarrow> reply append_null ctx
              | OldWrongType \<Rightarrow> reply (\<lambda>out. append_error out WRONGTYPE) ctx)))"

definition set_cmd :: "'db rocksdb \<Rightarrow> u64 \<Rightarrow> 'db handler" where
  "set_cmd R now ctx =
     (if length (cx_args ctx) < 2 then (None, reply (\<lambda>out. arity out ''set'') ctx)
      else
        (case set_parse (drop 2 (cx_args ctx)) of
           Inl err \<Rightarrow> (None, reply (\<lambda>out. append_error out (error_text err)) ctx)
         | Inr opts \<Rightarrow>
             (let key = cx_args ctx ! 0; val = cx_args ctx ! 1;
                  expire = resolve_ttl (so_ttl opts) now;
                  (st, ctx) = ctx_resolve_arc R key now ctx;
                  old = old_string_value st in
              if old = OldWrongType \<and> so_get opts then (None, reply (\<lambda>out. append_error out WRONGTYPE) ctx)
              else if so_nx opts \<and> is_present st \<or> so_xx opts \<and> \<not> is_present st then
                (if so_get opts then reply_old_or_null old ctx else (None, reply append_null ctx))
              else
                (let dl = (if so_keepttl opts then expire_ms st
                       else (case expire of Some e \<Rightarrow> e | None \<Rightarrow> 0)) in
                 case rewrite_string R key st val dl ctx of
                   (Inr _, ctx) \<Rightarrow>
                     if so_get opts then reply_old_or_null old ctx
                     else (None, reply (\<lambda>out. append_string out (ascii ''OK'')) ctx)
                 | (Inl _, ctx) \<Rightarrow> (None, reply (\<lambda>out. append_error out (ascii ''ERR: set key failed'')) ctx)))))"

text \<open>The operands of MGET in order; \<open>Inl\<close> at the first one that is not a string.\<close>
fun mget_rows ::
    "'db rocksdb \<Rightarrow> bytes \<Rightarrow> u64 \<Rightarrow> bytes list \<Rightarrow> old_value list \<Rightarrow> 'db \<Rightarrow> (unit + old_value list) \<times> 'db" where
  "mget_rows R pfx now [] rows db = (Inr rows, db)"
| "mget_rows R pfx now (key # keys) rows db =
     (case resolve R db pfx key now of
        (st, db) \<Rightarrow>
          (case old_string_value st of
             OldWrongType \<Rightarrow> (Inl (), db)
           | row \<Rightarrow> mget_rows R pfx now keys (rows @ [row]) db))"

definition append_row :: "old_value \<Rightarrow> bytes \<Rightarrow> bytes" where
  "append_row row out = (case row of OldStr v \<Rightarrow> append_bulk out v | _ \<Rightarrow> append_null out)"

definition mget_cmd :: "'db rocksdb \<Rightarrow> u64 \<Rightarrow> 'db ctx \<Rightarrow> 'db ctx" where
  "mget_cmd R now ctx =
     (if cx_args ctx = [] then reply (\<lambda>out. arity out ''mget'') ctx
      else
        (case require_same_slot (cx_args ctx) ctx of
           (False, ctx) \<Rightarrow> ctx
         | (True, ctx) \<Rightarrow>
             (case mget_rows R (cx_prefix ctx) now (cx_args ctx) [] (sh_store (cx_shared ctx)) of
                (Inl _, db) \<Rightarrow> reply (\<lambda>out. append_error out WRONGTYPE) (with_store db ctx)
              | (Inr rows, db) \<Rightarrow>
                  reply (\<lambda>out. fold append_row rows (append_array out (length rows))) (with_store db ctx))))"

fun chunk_pairs :: "bytes list \<Rightarrow> (bytes \<times> bytes) list" where
  "chunk_pairs (k # v # rest) = (k, v) # chunk_pairs rest"
| "chunk_pairs _ = []"

text \<open>The batch of MSET; each resolution may purge an expired key at once.\<close>
fun mset_entries ::
    "'db rocksdb \<Rightarrow> bytes \<Rightarrow> u64 \<Rightarrow> (bytes \<times> bytes) list \<Rightarrow> write_batch \<Rightarrow> 'db \<Rightarrow> write_batch \<times> 'db" where
  "mset_entries R pfx now [] batch db = (batch, db)"
| "mset_entries R pfx now ((key, val) # pairs) batch db =
     (case resolve R db pfx key now of
        (st, db) \<Rightarrow>
          mset_entries R pfx now pairs (batch @ clear_key_family R pfx key st @ write_string_record pfx key val 0) db)"

definition mset_cmd :: "'db rocksdb \<Rightarrow> u64 \<Rightarrow> 'db ctx \<Rightarrow> 'db ctx" where
  "mset_cmd R now ctx =
     (if cx_args ctx = [] then reply (\<lambda>out. arity out ''mset'') ctx
      else if odd (length (cx_args ctx)) then
        reply (\<lambda>out. append_error out (ascii ''ERR wrong number of arguments: '' @ dec_digits (length (cx_args ctx)))) ctx
      else
        (let pairs = chunk_pairs (cx_args ctx) in
         case require_same_slot (map fst pairs) ctx of
           (False, ctx) \<Rightarrow> ctx
         | (True, ctx) \<Rightarrow>
             (case mset_entries R (cx_prefix ctx) now pairs [] (sh_store (cx_shared ctx)) of
                (batch, db) \<Rightarrow>
                  (case commit R batch (with_store db (ctx\<lparr>cx_args := []\<rparr>)) of
                     (Inr _, ctx) \<Rightarrow> reply (\<lambda>out. append_string out (ascii ''OK'')) ctx
                   | (Inl _, ctx) \<Rightarrow> reply (\<lambda>out. append_error out (ascii ''ERR: set key failed'')) ctx))))"

section \<open>Counters (string_incr.rs)\<close>

definition OVERFLOW :: bytes where
  "OVERFLOW = ascii ''ERR increment or decrement would overflow''"

definition NOT_FLOAT :: bytes where
  "NOT_FLOAT = ascii ''ERR value is not a valid float''"

definition NOT_FINITE :: bytes where
  "NOT_FINITE = ascii ''ERR increment would produce NaN or Infinity''"

definition checked_add :: "i64 \<Rightarrow> i64 \<Rightarrow> i64 option" where
  "checked_add a b =
     (if - (2 ^ 63) \<le> sint a + sint b \<and> sint a + sint b < 2 ^ 63 then Some (a + b) else None)"

definition checked_neg :: "i64 \<Rightarrow> i64 option" where
  "checked_neg a = (if sint a = - (2 ^ 63) then None else Some (- a))"

definition add_int :: "'db rocksdb \<Rightarrow> u64 \<Rightarrow> i64 \<Rightarrow> 'db ctx \<Rightarrow> 'db ctx" where
  "add_int R now delta ctx =
     (let key = cx_args ctx ! 0; (st, ctx) = ctx_resolve_arc R key now ctx in
      case (case old_string_value st of
          OldMissing \<Rightarrow> Inr 0
        | OldStr v \<Rightarrow> (case parse_i64 v of Some n \<Rightarrow> Inr n | None \<Rightarrow> Inl INTEGER_ERROR)
        | OldWrongType \<Rightarrow> Inl WRONGTYPE) of
        Inl err \<Rightarrow> reply (\<lambda>out. append_error out err) ctx
      | Inr current \<Rightarrow>
          (case checked_add current delta of
             None \<Rightarrow> reply (\<lambda>out. append_error out OVERFLOW) ctx
           | Some new \<Rightarrow>
               (case rewrite_string R key st (signed_dec new) (expire_ms st) ctx of
                  (Inr _, ctx) \<Rightarrow> reply (\<lambda>out. append_int out new) ctx
                | (Inl _, ctx) \<Rightarrow> reply (\<lambda>out. append_error out (ascii ''ERR: incr failed'')) ctx)))"

definition incr :: "'db rocksdb \<Rightarrow> u64 \<Rightarrow> 'db ctx \<Rightarrow> 'db ctx" where
  "incr R now ctx =
     (if length (cx_args ctx) \<noteq> 1 then reply (\<lambda>out. arity out ''incr'') ctx else add_int R now 1 ctx)"

definition decr :: "'db rocksdb \<Rightarrow> u64 \<Rightarrow> 'db ctx \<Rightarrow> 'db ctx" where
  "decr R now ctx =
     (if length (cx_args ctx) \<noteq> 1 then reply (\<lambda>out. arity out ''decr'') ctx else add_int R now (- 1) ctx)"

definition incrby :: "'db rocksdb \<Rightarrow> u64 \<Rightarrow> 'db ctx \<Rightarrow> 'db ctx" where
  "incrby R now ctx =
     (if length (cx_args ctx) \<noteq> 2 then reply (\<lambda>out. arity out ''incrby'') ctx
      else
        (case parse_i64 (cx_args ctx ! 1) of
           None \<Rightarrow> reply (\<lambda>out. append_error out INTEGER_ERROR) ctx
         | Some delta \<Rightarrow> add_int R now delta ctx))"

definition decrby :: "'db rocksdb \<Rightarrow> u64 \<Rightarrow> 'db ctx \<Rightarrow> 'db ctx" where
  "decrby R now ctx =
     (if length (cx_args ctx) \<noteq> 2 then reply (\<lambda>out. arity out ''decrby'') ctx
      else
        (case parse_i64 (cx_args ctx ! 1) of
           None \<Rightarrow> reply (\<lambda>out. append_error out INTEGER_ERROR) ctx
         | Some parsed \<Rightarrow>
             (case checked_neg parsed of
                None \<Rightarrow> reply (\<lambda>out. append_error out OVERFLOW) ctx
              | Some delta \<Rightarrow> add_int R now delta ctx)))"

text \<open>\<open>f64\<close> as its bit pattern; parsing, addition, the finiteness test and printing.\<close>
record float_fns =
  ff_parse :: "bytes \<Rightarrow> u64 option"
  ff_add :: "u64 \<Rightarrow> u64 \<Rightarrow> u64"
  ff_finite :: "u64 \<Rightarrow> bool"
  ff_show :: "u64 \<Rightarrow> bytes"

definition incrbyfloat :: "float_fns \<Rightarrow> 'db rocksdb \<Rightarrow> u64 \<Rightarrow> 'db ctx \<Rightarrow> 'db ctx" where
  "incrbyfloat ff R now ctx =
     (if length (cx_args ctx) \<noteq> 2 then reply (\<lambda>out. arity out ''incrbyfloat'') ctx
      else
        (case ff_parse ff (cx_args ctx ! 1) of
           None \<Rightarrow> reply (\<lambda>out. append_error out NOT_FLOAT) ctx
         | Some delta \<Rightarrow>
             (let key = cx_args ctx ! 0; (st, ctx) = ctx_resolve_arc R key now ctx in
              case (case old_string_value st of
                  OldMissing \<Rightarrow> Inr 0
                | OldStr v \<Rightarrow> (case ff_parse ff v of Some n \<Rightarrow> Inr n | None \<Rightarrow> Inl NOT_FLOAT)
                | OldWrongType \<Rightarrow> Inl WRONGTYPE) of
                Inl err \<Rightarrow> reply (\<lambda>out. append_error out err) ctx
              | Inr current \<Rightarrow>
                  (let s = ff_add ff current delta in
                   if \<not> ff_finite ff s then reply (\<lambda>out. append_error out NOT_FINITE) ctx
                   else
                     (case rewrite_string R key st (ff_show ff s) (expire_ms st) ctx of
                        (Inr _, ctx) \<Rightarrow> reply (\<lambda>out. append_bulk out (ff_show ff s)) ctx
                      | (Inl _, ctx) \<Rightarrow> reply (\<lambda>out. append_error out (ascii ''ERR: incrbyfloat failed'')) ctx)))))"

section \<open>Reads and edits (string_rw.rs)\<close>

definition SETRANGE_MAX :: nat where
  "SETRANGE_MAX = 536870911"

definition wrongtype :: "'db ctx \<Rightarrow> 'db ctx" where
  "wrongtype ctx = reply (\<lambda>out. append_error out WRONGTYPE) ctx"

definition append_cmd :: "'db rocksdb \<Rightarrow> u64 \<Rightarrow> 'db ctx \<Rightarrow> 'db ctx" where
  "append_cmd R now ctx =
     (if length (cx_args ctx) \<noteq> 2 then reply (\<lambda>out. arity out ''append'') ctx
      else
        (let key = cx_args ctx ! 0; extra = cx_args ctx ! 1; (st, ctx) = ctx_resolve_arc R key now ctx;
             finish = (\<lambda>val. case rewrite_string R key st (val @ extra) (expire_ms st) ctx of
                 (Inr _, ctx) \<Rightarrow> reply (\<lambda>out. append_int out (word_of_nat (length (val @ extra)))) ctx
               | (Inl _, ctx) \<Rightarrow> reply (\<lambda>out. append_error out (failed_error ''append'')) ctx) in
         case old_string_value st of
           OldMissing \<Rightarrow> finish []
         | OldStr v \<Rightarrow> finish v
         | OldWrongType \<Rightarrow> wrongtype ctx))"

definition strlen :: "'db rocksdb \<Rightarrow> u64 \<Rightarrow> 'db ctx \<Rightarrow> 'db ctx" where
  "strlen R now ctx =
     (if length (cx_args ctx) \<noteq> 1 then reply (\<lambda>out. arity out ''strlen'') ctx
      else
        (case ctx_resolve_arc R (cx_args ctx ! 0) now ctx of
           (st, ctx) \<Rightarrow>
             (case old_string_value st of
                OldStr v \<Rightarrow> reply (\<lambda>out. append_int out (word_of_nat (length v))) ctx
              | OldMissing \<Rightarrow> reply (\<lambda>out. append_int out 0) ctx
              | OldWrongType \<Rightarrow> reply (\<lambda>out. append_error out WRONGTYPE) ctx)))"

definition getset :: "'db rocksdb \<Rightarrow> u64 \<Rightarrow> 'db handler" where
  "getset R now ctx =
     (if length (cx_args ctx) \<noteq> 2 then (None, reply (\<lambda>out. arity out ''getset'') ctx)
      else
        (let key = cx_args ctx ! 0; val = cx_args ctx ! 1; (st, ctx) = ctx_resolve_arc R key now ctx;
             old = old_string_value st in
         if old = OldWrongType then (None, wrongtype ctx)
         else
           (case rewrite_string R key st val 0 ctx of
              (Inr _, ctx) \<Rightarrow> reply_old_or_null old ctx
            | (Inl _, ctx) \<Rightarrow> (None, reply (\<lambda>out. append_error out (failed_error ''getset'')) ctx))))"

definition setnx :: "'db rocksdb \<Rightarrow> u64 \<Rightarrow> 'db ctx \<Rightarrow> 'db ctx" where
  "setnx R now ctx =
     (if length (cx_args ctx) \<noteq> 2 then reply (\<lambda>out. arity out ''setnx'') ctx
      else
        (let key = cx_args ctx ! 0; val = cx_args ctx ! 1; (st, ctx) = ctx_resolve_arc R key now ctx in
         if is_present st then reply (\<lambda>out. append_int out 0) ctx
         else
           (case commit R (write_string_record (cx_prefix ctx) key val 0) ctx of
              (Inr _, ctx) \<Rightarrow> reply (\<lambda>out. append_int out 1) ctx
            | (Inl _, ctx) \<Rightarrow> reply (\<lambda>out. append_error out (failed_error ''setnx'')) ctx)))"

text \<open>The deadline of SETEX: \<open>None\<close> unless positive and without overflow.\<close>
definition setex_deadline :: "i64 \<Rightarrow> u64 \<Rightarrow> u64 \<Rightarrow> u64 option" where
  "setex_deadline n unit_ms clock =
     (let ms = unat n * unat unit_ms in
      if sint n \<le> 0 \<or> ms \<ge> 2 ^ 64 \<or> unat clock + ms \<ge> 2 ^ 64 then None
      else Some (word_of_nat (unat clock + ms)))"

text \<open>The clock is read once for the deadline and once for the resolution.\<close>
definition setex_common :: "'db rocksdb \<Rightarrow> u64 \<Rightarrow> u64 \<Rightarrow> string \<Rightarrow> u64 \<Rightarrow> 'db ctx \<Rightarrow> 'db ctx" where
  "setex_common R clock now cmd unit_ms ctx =
     (if length (cx_args ctx) \<noteq> 3 then reply (\<lambda>out. arity out cmd) ctx
      else
        (case parse_i64 (cx_args ctx ! 1) of
           None \<Rightarrow> reply (\<lambda>out. append_error out INTEGER_ERROR) ctx
         | Some n \<Rightarrow>
             (case setex_deadline n unit_ms clock of
                None \<Rightarrow>
                  reply (\<lambda>out. append_error out
                    (ascii (''ERR invalid expire time in '' @ [CHR 0x27] @ cmd @ [CHR 0x27] @ '' command''))) ctx
              | Some dl \<Rightarrow>
                  (let key = cx_args ctx ! 0; val = cx_args ctx ! 2; (st, ctx) = ctx_resolve_arc R key now ctx in
                   case rewrite_string R key st val dl ctx of
                     (Inr _, ctx) \<Rightarrow> reply (\<lambda>out. append_string out (ascii ''OK'')) ctx
                   | (Inl _, ctx) \<Rightarrow> reply (\<lambda>out. append_error out (failed_error cmd)) ctx))))"

definition setex :: "'db rocksdb \<Rightarrow> u64 \<Rightarrow> u64 \<Rightarrow> 'db ctx \<Rightarrow> 'db ctx" where
  "setex R clock now = setex_common R clock now ''setex'' 1000"

definition psetex :: "'db rocksdb \<Rightarrow> u64 \<Rightarrow> u64 \<Rightarrow> 'db ctx \<Rightarrow> 'db ctx" where
  "psetex R clock now = setex_common R clock now ''psetex'' 1"

definition getdel :: "'db rocksdb \<Rightarrow> u64 \<Rightarrow> 'db handler" where
  "getdel R now ctx =
     (if length (cx_args ctx) \<noteq> 1 then (None, reply (\<lambda>out. arity out ''getdel'') ctx)
      else
        (let key = cx_args ctx ! 0; (st, ctx) = ctx_resolve_arc R key now ctx; old = old_string_value st in
         if old = OldWrongType then (None, wrongtype ctx)
         else if is_present st then
           (case commit R (clear_key_family R (cx_prefix ctx) key st) ctx of
              (Inr _, ctx) \<Rightarrow> reply_old_or_null old ctx
            | (Inl _, ctx) \<Rightarrow> (None, reply (\<lambda>out. append_error out (failed_error ''getdel'')) ctx))
         else (None, reply append_null ctx)))"

text \<open>\<open>resize\<close> and \<open>copy_from_slice\<close> of SETRANGE.\<close>
definition overlay :: "nat \<Rightarrow> bytes \<Rightarrow> bytes \<Rightarrow> bytes" where
  "overlay offset val old =
     (let new = old @ replicate (max (length old) (offset + length val) - length old) 0 in
      take offset new @ val @ drop (offset + length val) new)"

definition setrange :: "'db rocksdb \<Rightarrow> u64 \<Rightarrow> 'db ctx \<Rightarrow> 'db ctx" where
  "setrange R now ctx =
     (if length (cx_args ctx) \<noteq> 3 then reply (\<lambda>out. arity out ''setrange'') ctx
      else
        (case (case parse_i64 (cx_args ctx ! 1) of Some n \<Rightarrow> if sint n \<ge> 0 then Some (unat n) else None | None \<Rightarrow> None) of
           None \<Rightarrow> reply (\<lambda>out. append_error out INTEGER_ERROR) ctx
         | Some offset \<Rightarrow>
             (let val = cx_args ctx ! 2 in
              if offset + length val > SETRANGE_MAX then
                reply (\<lambda>out. append_error out (ascii ''ERR offset exceeds maximum allowed limit'')) ctx
              else
                (let key = cx_args ctx ! 0; (st, ctx) = ctx_resolve_arc R key now ctx;
                     finish = (\<lambda>old.
                       (let new_val = overlay offset val old in
                        if new_val = [] then
                          (if \<not> is_present st then reply (\<lambda>out. append_int out 0) ctx
                           else
                             (case commit R (clear_key_family R (cx_prefix ctx) key st) ctx of
                                (Inr _, ctx) \<Rightarrow> reply (\<lambda>out. append_int out 0) ctx
                              | (Inl _, ctx) \<Rightarrow> reply (\<lambda>out. append_error out (failed_error ''setrange'')) ctx))
                        else
                          (case rewrite_string R key st new_val (expire_ms st) ctx of
                             (Inr _, ctx) \<Rightarrow> reply (\<lambda>out. append_int out (word_of_nat (length new_val))) ctx
                           | (Inl _, ctx) \<Rightarrow> reply (\<lambda>out. append_error out (failed_error ''setrange'')) ctx))) in
                 case old_string_value st of
                   OldMissing \<Rightarrow> finish []
                 | OldStr v \<Rightarrow> finish v
                 | OldWrongType \<Rightarrow> wrongtype ctx))))"

definition resolve_range :: "nat \<Rightarrow> i64 \<Rightarrow> i64 \<Rightarrow> (nat \<times> nat) option" where
  "resolve_range len start stop =
     (let s = max (if sint start < 0 then int len + sint start else sint start) 0;
          e = min (if sint stop < 0 then int len + sint stop else sint stop) (int len - 1) in
      if len > 0 \<and> s \<le> e then Some (nat s, nat e) else None)"

definition getrange :: "'db rocksdb \<Rightarrow> u64 \<Rightarrow> 'db ctx \<Rightarrow> 'db ctx" where
  "getrange R now ctx =
     (if length (cx_args ctx) \<noteq> 3 then reply (\<lambda>out. arity out ''getrange'') ctx
      else
        (case (parse_i64 (cx_args ctx ! 1), parse_i64 (cx_args ctx ! 2)) of
           (Some start, Some stop) \<Rightarrow>
             (case ctx_resolve_arc R (cx_args ctx ! 0) now ctx of
                (st, ctx) \<Rightarrow>
                  (case old_string_value st of
                     OldStr v \<Rightarrow>
                       (case resolve_range (length v) start stop of
                          Some (s, e) \<Rightarrow> reply (\<lambda>out. append_bulk out (take (Suc e - s) (drop s v))) ctx
                        | None \<Rightarrow> reply (\<lambda>out. append_bulk out []) ctx)
                   | OldMissing \<Rightarrow> reply (\<lambda>out. append_bulk out []) ctx
                   | OldWrongType \<Rightarrow> reply (\<lambda>out. append_error out WRONGTYPE) ctx))
         | _ \<Rightarrow> reply (\<lambda>out. append_error out INTEGER_ERROR) ctx))"

end
