(* ===== verification/Rdb_String_Cmd.thy ===== *)
theory Rdb_String_Cmd
  imports Rdb_Strings
begin

text \<open>
  The string commands on values.  \<open>string_state\<close> is the state a string with a deadline is found in;
  \<open>string_step\<close> says that a command left that string under its key, nothing else of the key, and
  every other key as it was.
\<close>

section \<open>One rewrite\<close>

definition string_state :: "bytes \<Rightarrow> u64 \<Rightarrow> u64 \<Rightarrow> key_state" where
  "string_state val dl now =
     (if dl = 0 then RawString val else if is_expired dl now then Missing else Enveloped KIND_STRING_TTL dl val)"

definition string_step :: "content \<Rightarrow> content \<Rightarrow> bytes \<Rightarrow> bytes \<Rightarrow> bytes \<Rightarrow> u64 \<Rightarrow> bool" where
  "string_step m m' pfx key val dl \<longleftrightarrow>
     (\<forall>t. lookup m' pfx key t = string_state val dl t) \<and>
     (dl > 0 \<longrightarrow> m' (expire_index_key pfx dl (data_key pfx KIND_STRING_TTL key)) = Some []) \<and>
     (\<forall>k. foreign pfx key k \<longrightarrow> m' k = m k)"

text \<open>What clearing the family of a key removes when no store is at hand.\<close>
definition cleared_set :: "bytes \<Rightarrow> codec_family \<Rightarrow> bytes \<Rightarrow> u64 \<Rightarrow> bytes \<Rightarrow> bool" where
  "cleared_set pfx fam key e k \<longleftrightarrow>
     family_record pfx fam key k \<or> fam = STREAM_FAMILY \<and> family_record pfx OFFSET_FAMILY key k \<or>
     0 < e \<and> k = expire_index_key pfx e (data_key pfx (fst fam) key)"

lemma apply_family_delete_none:
  assumes "bounded_prefix pfx"
  shows "apply_batch (family_delete_entries R None pfx fam key e) m = (\<lambda>k. if cleared_set pfx fam key e k then None else m k)"
  by (auto simp: family_delete_entries_def cleared_set_def apply_family_ranges [OF assms] fun_eq_iff)

lemma foreign_not_cleared:
  assumes "foreign pfx key k" "length key < 2 ^ 32" "family_of kind = Some fam"
  shows "\<not> cleared_set pfx fam key e k"
proof -
  have "family_of KIND_STREAM_OFFSET = Some OFFSET_FAMILY" by (simp add: family_of_def kind_simps)
  then show ?thesis
    using foreign_not_family [OF assms] foreign_not_family [OF assms(1,2)] foreign_neq_index [OF assms(1)]
    unfolding cleared_set_def by blast
qed

lemma string_key_not_cleared:
  assumes "classify key = Raw" "family_of kind = Some fam"
  shows "\<not> cleared_set pfx fam key e (string_key pfx key)"
proof -
  have off: "family_of KIND_STREAM_OFFSET = Some OFFSET_FAMILY" by (simp add: family_of_def kind_simps)
  have "\<not> family_record pfx f key (string_key pfx key)" if "family_of k0 = Some f" for k0 f
    using string_key_neq_elem [OF assms(1)] family_span_typed [OF that] unfolding family_record_def by metis
  from this [OF assms(2)] this [OF off] show ?thesis
    using string_key_neq_index [OF assms(1)] unfolding cleared_set_def by blast
qed

text \<open>Clearing: other keys stay, the raw record goes, and nothing comes back.\<close>
lemma clear_key_family_at:
  assumes "bounded_prefix pfx" "classify key = Raw"
    and m'_def: "m' = apply_batch (clear_key_family R pfx key (lookup m pfx key now)) m"
  shows "m' (string_key pfx key) = None"
    and "foreign pfx key k \<Longrightarrow> length key < 2 ^ 32 \<Longrightarrow> m' k = m k"
    and "m' k = None \<or> m' k = m k"
proof -
  have "m' (string_key pfx key) = None \<and> (foreign pfx key k \<longrightarrow> length key < 2 ^ 32 \<longrightarrow> m' k = m k) \<and> (m' k = None \<or> m' k = m k)" for k
  proof (cases "lookup m pfx key now")
    case Missing
    then have "m (string_key pfx key) = None" by (auto simp: lookup_def split: option.splits prod.splits if_splits)
    then show ?thesis using Missing by (simp add: m'_def clear_key_family_def)
  next
    case (RawString v)
    then show ?thesis using foreign_neq_raw [OF _ assms(2)] by (auto simp: m'_def clear_key_family_def)
  next
    case (Enveloped kind e p)
    obtain fam where fam: "family_or STRING_FAMILY kind = fam" "family_of kind = Some fam"
      using lookup_EnvelopedD [OF Enveloped] family_or_user by blast
    have "m' = (\<lambda>k. if cleared_set pfx fam key e k then None else m k)"
      using Enveloped fam by (simp add: m'_def clear_key_family_def apply_family_delete_none [OF assms(1)])
    then show ?thesis
      using foreign_not_cleared [OF _ _ fam(2)] lookup_EnvelopedD [OF Enveloped] by auto
  qed
  then show "m' (string_key pfx key) = None"
    and "foreign pfx key k \<Longrightarrow> length key < 2 ^ 32 \<Longrightarrow> m' k = m k" and "m' k = None \<or> m' k = m k"
    by blast+
qed

lemma apply_write_string:
  "apply_batch (write_string_record pfx key val dl) m k =
     (if dl = 0 then if k = string_key pfx key then Some val else m k
      else if k = expire_index_key pfx dl (data_key pfx KIND_STRING_TTL key) then Some []
      else if k = data_key pfx KIND_STRING_TTL key then Some (encode_envelope dl val) else m k)"
  by (auto simp: write_string_record_def set_ttl_entries_def word_gt_0 Let_def)

lemma first_kind_string: "m (data_key pfx KIND_STRING_TTL key) \<noteq> None \<Longrightarrow> first_kind m pfx key = Some KIND_STRING_TTL"
  by (simp add: first_kind_def META_KINDS_def)

lemma rewrite_step:
  assumes "bounded_prefix pfx" "classify key = Raw" "length key < 2 ^ 32" "dl < 2 ^ 63"
  shows "string_step m (apply_batch (clear_key_family R pfx key (lookup m pfx key now) @ write_string_record pfx key val dl) m)
    pfx key val dl"
proof -
  let ?c = "apply_batch (clear_key_family R pfx key (lookup m pfx key now)) m"
  let ?m = "apply_batch (write_string_record pfx key val dl) ?c"
  note clear = clear_key_family_at [OF assms(1,2) refl, where R = R and m = m and now = now]
  have "foreign pfx key k \<Longrightarrow> ?m k = m k" for k
    using clear(2) [of k] assms(3) foreign_neq_raw [OF _ assms(2)] foreign_neq_index foreign_neq_root [OF _ assms(3) STRING_TTL_user]
    by (auto simp: apply_write_string)
  moreover have "lookup ?m pfx key t = string_state val dl t" for t
  proof (cases "dl = 0")
    case True
    then show ?thesis by (simp add: lookup_def string_state_def apply_write_string)
  next
    case False
    have ne: "data_key pfx KIND_STRING_TTL key \<noteq> expire_index_key pfx dl (data_key pfx KIND_STRING_TTL key)"
      using data_key_neq_index STRING_TTL_user by blast
    have "?m (string_key pfx key) = None" using False clear(1) by (simp add: apply_write_string)
    moreover have "first_kind ?m pfx key = Some KIND_STRING_TTL"
      using False ne by (intro first_kind_string) (simp add: apply_write_string)
    moreover have "?m (data_key pfx KIND_STRING_TTL key) = Some (encode_envelope dl val)"
      using False ne by (simp add: apply_write_string)
    ultimately show ?thesis using False assms(4) by (simp add: lookup_def string_state_def)
  qed
  ultimately show ?thesis by (simp add: string_step_def apply_write_string word_gt_0)
qed

context healthy_rocksdb
begin

text \<open>The rewrite after a resolution, on the context.\<close>
lemma rewrite_string_step:
  assumes "ctx_resolve_arc R key now ctx = (st, ctx')" "bounded_prefix (cx_prefix ctx)"
    and "classify key = Raw" "length key < 2 ^ 32" "dl < 2 ^ 63"
  shows "\<exists>sh. rewrite_string R key st val dl ctx' = (Inr (), ctx\<lparr>cx_shared := sh, cx_wrote := True\<rparr>) \<and>
     string_step (content (sh_store (cx_shared ctx))) (content (sh_store sh)) (cx_prefix ctx) key val dl"
proof -
  obtain sh where r: "ctx_resolve_arc R key now ctx =
      (lookup (content (sh_store (cx_shared ctx))) (cx_prefix ctx) key now, ctx\<lparr>cx_shared := sh\<rparr>)"
      "sh_store sh = sh_store (cx_shared ctx)"
    by (rule ctx_resolve_arc_cases)
  then have ctx': "ctx' = ctx\<lparr>cx_shared := sh\<rparr>" "st = lookup (content (sh_store (cx_shared ctx))) (cx_prefix ctx) key now"
    using assms(1) by auto
  obtain db' where "commit R (clear_key_family R (cx_prefix ctx) key st @ write_string_record (cx_prefix ctx) key val dl) ctx' =
      (Inr (), with_store db' (ctx'\<lparr>cx_wrote := True\<rparr>))"
      "content db' = apply_batch (clear_key_family R (cx_prefix ctx) key st @ write_string_record (cx_prefix ctx) key val dl)
        (content (sh_store (cx_shared ctx)))"
    using commit_store [of "clear_key_family R (cx_prefix ctx) key st @ write_string_record (cx_prefix ctx) key val dl" ctx'] r(2) ctx'
    by (auto simp del: apply_batch_simps)
  then show ?thesis
    using rewrite_step [OF assms(2-5)] ctx'
    by (intro exI [of _ "sh\<lparr>sh_store := db'\<rparr>"]) (simp add: rewrite_string_def with_store_def del: apply_batch_simps)
qed

end

section \<open>SET\<close>

definition set_refused :: "set_options \<Rightarrow> key_state \<Rightarrow> bool" where
  "set_refused opts st \<longleftrightarrow>
     old_string_value st = OldWrongType \<and> so_get opts \<or> so_nx opts \<and> is_present st \<or> so_xx opts \<and> \<not> is_present st"

definition set_deadline :: "set_options \<Rightarrow> key_state \<Rightarrow> u64 \<Rightarrow> u64" where
  "set_deadline opts st now =
     (if so_keepttl opts then expire_ms st else case resolve_ttl (so_ttl opts) now of Some e \<Rightarrow> e | None \<Rightarrow> 0)"

text \<open>The reply: an error, the old value, a null, or OK.\<close>
definition set_reply :: "set_options \<Rightarrow> key_state \<Rightarrow> bytes \<Rightarrow> bytes" where
  "set_reply opts st out =
     (if so_get opts then
        (case old_string_value st of
           OldWrongType \<Rightarrow> append_error out WRONGTYPE
         | OldStr v \<Rightarrow> append_bulk out v
         | OldMissing \<Rightarrow> append_null out)
      else if set_refused opts st then append_null out else append_string out (ascii ''OK''))"

lemma reply_old_eq:
  "old \<noteq> OldWrongType \<Longrightarrow> reply_old_or_null old ctx =
     (None, reply (\<lambda>out. case old of OldStr v \<Rightarrow> append_bulk out v | _ \<Rightarrow> append_null out) ctx)"
  by (cases old) (simp_all add: reply_old_or_null_def)



definition string_demo :: "bytes list \<Rightarrow> mem_db ctx" where
  "string_demo args = \<lparr>cx_shared = \<lparr>sh_store = [([49, 47, 107], [52, 49])], sh_detached = [], sh_reaps = [], sh_wait = wait_hub_new\<rparr>,
     cx_prefix = slot_prefix 1, cx_args = args, cx_out = [], cx_close = False, cx_conn = conn_default, cx_wrote = False\<rparr>"

lemma string_demo_simps [simp]:
  "cx_args (string_demo args) = args" "cx_prefix (string_demo args) = slot_prefix 1"
  "cx_wrote (string_demo args) = False"
  by (simp_all add: string_demo_def)

lemma slot_prefix_1: "slot_prefix 1 = [49, 47]"
  by (simp add: slot_prefix_def dec_digits.simps)

lemma string_demo_lookup:
  "lookup (map_of (sh_store (cx_shared (string_demo args)))) (slot_prefix 1) [107] now = RawString [52, 49]"
  by (simp add: lookup_def string_demo_def slot_prefix_1 string_key_def)

lemma string_demo_key: "classify [107] = Raw" by (simp add: classify_Cons kind_simps)


section \<open>Counters\<close>

lemma parse_signed_dec: "parse_i64 (signed_dec n) = Some n"
proof -
  have range: "- (2 ^ 63) \<le> sint n" "sint n < 2 ^ 63"
    using sint_range_size [of n] by (simp_all add: word_size)
  have digits: "list_all is_ascii_digit (dec_digits k)" for k
    by (simp add: list_all_iff dec_digits_digit)
  have head: "\<exists>c cs. dec_digits k = c # cs \<and> c \<noteq> 45 \<and> c \<noteq> 43" for k
    using dec_digits_digit [of "hd (dec_digits k)" k] hd_in_set [of "dec_digits k"]
    by (cases "dec_digits k") (auto simp: is_ascii_digit_def)
  show ?thesis
  proof (cases "sint n < 0")
    case True
    then show ?thesis using range by (simp add: parse_i64_def signed_dec_def digits dec_val_dec_digits)
  next
    case False
    obtain c cs where "dec_digits (nat (sint n)) = c # cs" "c \<noteq> 45" "c \<noteq> 43" using head by blast
    then show ?thesis
      using False range digits [of "nat (sint n)"] dec_val_dec_digits [of "nat (sint n)"]
      by (simp add: parse_i64_def signed_dec_def)
  qed
qed

definition counter_of :: "key_state \<Rightarrow> bytes + i64" where
  "counter_of st =
     (case old_string_value st of
        OldMissing \<Rightarrow> Inr 0
      | OldStr v \<Rightarrow> (case parse_i64 v of Some n \<Rightarrow> Inr n | None \<Rightarrow> Inl INTEGER_ERROR)
      | OldWrongType \<Rightarrow> Inl WRONGTYPE)"

lemma counter_of_string: "counter_of (string_state (signed_dec n) dl t) = Inr (if dl \<noteq> 0 \<and> is_expired dl t then 0 else n)"
  by (simp add: counter_of_def string_state_def old_string_value_def parse_signed_dec)

text \<open>C15: The counter commands: a key that holds another type or no integer, or a sum outside \<open>i64\<close>, gives
  the matching error and leaves the store alone.  Otherwise the key holds the decimal text of the exact
  sum, which the next counter command parses back, its deadline is kept, every other key stays, and
  the reply is the sum.\<close>
theorem counter_refines:
  assumes "healthy_rocksdb R content" "cx_args ctx = key # rest" "cx_prefix ctx = slot_prefix slot"
    and "classify key = Raw" "length key < 2 ^ 32"
    and "st = lookup (content (sh_store (cx_shared ctx))) (slot_prefix slot) key now" "expire_ms st < 2 ^ 63"
  shows "\<exists>sh. (case counter_of st of
      Inl err \<Rightarrow> add_int R now delta ctx = reply (\<lambda>out. append_error out err) (ctx\<lparr>cx_shared := sh\<rparr>) \<and>
        sh_store sh = sh_store (cx_shared ctx)
    | Inr n \<Rightarrow>
        if sint n + sint delta < - (2 ^ 63) \<or> sint n + sint delta \<ge> 2 ^ 63 then
          add_int R now delta ctx = reply (\<lambda>out. append_error out OVERFLOW) (ctx\<lparr>cx_shared := sh\<rparr>) \<and>
          sh_store sh = sh_store (cx_shared ctx)
        else
          add_int R now delta ctx = reply (\<lambda>out. append_int out (n + delta)) (ctx\<lparr>cx_shared := sh, cx_wrote := True\<rparr>) \<and>
          sint (n + delta) = sint n + sint delta \<and>
          string_step (content (sh_store (cx_shared ctx))) (content (sh_store sh)) (slot_prefix slot) key
            (signed_dec (n + delta)) (expire_ms st) \<and>
          (\<forall>t. counter_of (lookup (content (sh_store sh)) (slot_prefix slot) key t) =
             Inr (if expire_ms st \<noteq> 0 \<and> is_expired (expire_ms st) t then 0 else n + delta)))"
proof -
  obtain sh where r: "ctx_resolve_arc R key now ctx = (st, ctx\<lparr>cx_shared := sh\<rparr>)" "sh_store sh = sh_store (cx_shared ctx)"
    using healthy_rocksdb.ctx_resolve_arc_cases [OF assms(1), of key now ctx] assms(3,6) by auto
  have unf: "add_int R now delta ctx = (case counter_of st of
        Inl err \<Rightarrow> reply (\<lambda>out. append_error out err) (ctx\<lparr>cx_shared := sh\<rparr>)
      | Inr current \<Rightarrow>
          (case checked_add current delta of
             None \<Rightarrow> reply (\<lambda>out. append_error out OVERFLOW) (ctx\<lparr>cx_shared := sh\<rparr>)
           | Some new \<Rightarrow>
               (case rewrite_string R key st (signed_dec new) (expire_ms st) (ctx\<lparr>cx_shared := sh\<rparr>) of
                  (Inr _, ctx) \<Rightarrow> reply (\<lambda>out. append_int out new) ctx
                | (Inl _, ctx) \<Rightarrow> reply (\<lambda>out. append_error out (ascii ''ERR: incr failed'')) ctx)))"
    using assms(2) r(1) by (simp add: add_int_def counter_of_def)
  show ?thesis
  proof (cases "counter_of st")
    case (Inl err)
    then show ?thesis using unf r(2) by auto
  next
    case (Inr n)
    show ?thesis
    proof (cases "checked_add n delta")
      case None
      then show ?thesis using Inr unf r(2) by (intro exI [of _ sh]) (auto simp: checked_add_def split: if_splits)
    next
      case (Some new)
      then have new: "new = n + delta" "- (2 ^ 63) \<le> sint n + sint delta" "sint n + sint delta < 2 ^ 63"
        by (auto simp: checked_add_def split: if_splits)
      obtain sh' where w: "rewrite_string R key st (signed_dec new) (expire_ms st) (ctx\<lparr>cx_shared := sh\<rparr>) =
          (Inr (), ctx\<lparr>cx_shared := sh', cx_wrote := True\<rparr>)"
          "string_step (content (sh_store (cx_shared ctx))) (content (sh_store sh')) (slot_prefix slot) key (signed_dec new) (expire_ms st)"
        using healthy_rocksdb.rewrite_string_step [OF assms(1) r(1) _ assms(4,5,7)] assms(3) bounded_slot_prefix by auto
      have "sint (n + delta) = sint n + sint delta"
        using new(2,3) by (simp add: sint_word_ariths(1) signed_take_bit_int_eq_self)
      then show ?thesis
        using Inr Some unf w new by (intro exI [of _ sh']) (simp add: string_step_def counter_of_string)
    qed
  qed
qed


theorem counter_refines_witness:
  "\<exists>sh. incr mem_rocksdb 5 (string_demo [[107]]) =
      reply (\<lambda>out. append_int out 42) ((string_demo [[107]])\<lparr>cx_shared := sh, cx_wrote := True\<rparr>) \<and>
    counter_of (lookup (map_of (sh_store sh)) (slot_prefix 1) [107] 6) = Inr 42"
proof -
  have "counter_of (RawString [52, 49]) = Inr 41"
    by (simp add: counter_of_def old_string_value_def parse_i64_def is_ascii_digit_def dec_val_def)
  then show ?thesis
    using counter_refines [OF mem_healthy, of "string_demo [[107]]" "[107]" "[]" 1 "RawString [52, 49]" 5 1]
      string_demo_lookup string_demo_key
    by (auto simp: incr_def expire_ms_def)
qed

section \<open>Byte ranges\<close>

lemma sint_nonneg: "0 \<le> sint (n :: i64) \<Longrightarrow> sint n = int (unat n)"
  apply transfer
  subgoal for n
    using take_bit_int_less_exp [of 64 n] by (cases "bit n 63") (simp_all add: signed_take_bit_eq_take_bit_minus)
  done

lemma length_overlay: "length (overlay off val old) = max (length old) (off + length val)"
  by (simp add: overlay_def Let_def)

lemma overlay_nth:
  "i < max (length old) (off + length val) \<Longrightarrow> overlay off val old ! i =
     (if off \<le> i \<and> i < off + length val then val ! (i - off) else if i < length old then old ! i else 0)"
  by (auto simp: overlay_def Let_def nth_append min_def)

lemma overlay_window: "take (length val) (drop off (overlay off val old)) = val"
  by (simp add: overlay_def Let_def min_def)

lemma resolve_range_window:
  "sint a = int p \<Longrightarrow> sint b = int p + int k \<Longrightarrow> p + k < len \<Longrightarrow> resolve_range len a b = Some (p, p + k)"
  by (auto simp: resolve_range_def Let_def)

text \<open>C24: \<open>SETRANGE\<close> then \<open>GETRANGE\<close>: writing a non-empty value at an offset inside the size limit into a
  string or a missing key stores the old bytes with the value laid over them, zeros filling any gap, keeps
  the deadline, replies with the new length, touches no other key, and a following \<open>GETRANGE\<close> of that
  window, before the deadline, returns exactly the value.\<close>
theorem setrange_then_getrange:
  assumes "healthy_rocksdb R content" "cx_args ctx = [key, a, val]" "cx_prefix ctx = slot_prefix slot"
    and "parse_i64 a = Some off" "0 \<le> sint off" "unat off + length val \<le> SETRANGE_MAX" "val \<noteq> []"
    and "classify key = Raw" "length key < 2 ^ 32"
    and "st = lookup (content (sh_store (cx_shared ctx))) (slot_prefix slot) key now" "expire_ms st < 2 ^ 63"
    and "old_string_value st = OldStr old \<or> old_string_value st = OldMissing \<and> old = []"
    and "parse_i64 b = Some stop" "sint stop = int (unat off + length val) - 1" "expire_ms st = 0 \<or> \<not> is_expired (expire_ms st) now'"
  shows "\<exists>sh new ctx'. setrange R now ctx = ctx' \<and>
    ctx' = reply (\<lambda>out. append_int out (word_of_nat (length new))) (ctx\<lparr>cx_shared := sh, cx_wrote := True\<rparr>) \<and>
    string_step (content (sh_store (cx_shared ctx))) (content (sh_store sh)) (slot_prefix slot) key new (expire_ms st) \<and>
    length new = max (length old) (unat off + length val) \<and>
    (\<forall>i. i < length new \<longrightarrow> new ! i = (if unat off \<le> i \<and> i < unat off + length val then val ! (i - unat off)
       else if i < length old then old ! i else 0)) \<and>
    cx_out (getrange R now' (ctx'\<lparr>cx_args := [key, a, b]\<rparr>)) = append_bulk (cx_out ctx') val"
proof -
  let ?new = "overlay (unat off) val old"
  obtain sh where r: "ctx_resolve_arc R key now ctx = (st, ctx\<lparr>cx_shared := sh\<rparr>)" "sh_store sh = sh_store (cx_shared ctx)"
    using healthy_rocksdb.ctx_resolve_arc_cases [OF assms(1), of key now ctx] assms(3,10) by auto
  obtain sh' where w: "rewrite_string R key st ?new (expire_ms st) (ctx\<lparr>cx_shared := sh\<rparr>) =
      (Inr (), ctx\<lparr>cx_shared := sh', cx_wrote := True\<rparr>)"
      "string_step (content (sh_store (cx_shared ctx))) (content (sh_store sh')) (slot_prefix slot) key ?new (expire_ms st)"
    using healthy_rocksdb.rewrite_string_step [OF assms(1) r(1) _ assms(8,9,11)] assms(3) bounded_slot_prefix by auto
  have nonempty: "?new \<noteq> []" using length_overlay [of "unat off" val old] assms(7) by (cases ?new) (auto simp: max_def split: if_splits)
  let ?ctx = "reply (\<lambda>out. append_int out (word_of_nat (length ?new))) (ctx\<lparr>cx_shared := sh', cx_wrote := True\<rparr>)"
  have set: "setrange R now ctx = ?ctx"
    using assms(12)
  proof
    assume "old_string_value st = OldStr old"
    then show ?thesis using assms(2,4,5,6) r(1) w(1) nonempty by (simp add: setrange_def Let_def)
  next
    assume "old_string_value st = OldMissing \<and> old = []"
    then show ?thesis using assms(2,4,5,6) r(1) w(1) nonempty by (simp add: setrange_def Let_def)
  qed
  let ?get = "?ctx\<lparr>cx_args := [key, a, b]\<rparr>"
  have look: "lookup (content (sh_store (cx_shared ?get))) (cx_prefix ?get) key now' = string_state ?new (expire_ms st) now'"
    using w(2) assms(3) by (simp add: string_step_def reply_def)
  obtain sh'' where g: "ctx_resolve_arc R key now' ?get = (string_state ?new (expire_ms st) now', ?get\<lparr>cx_shared := sh''\<rparr>)"
    by (rule healthy_rocksdb.ctx_resolve_arc_cases [OF assms(1), of key now' ?get, unfolded look])
  have off: "sint off = int (unat off)" using assms(5) by (rule sint_nonneg)
  have "old_string_value (string_state ?new (expire_ms st) now') = OldStr ?new"
    using assms(15) by (auto simp: string_state_def old_string_value_def)
  moreover have "resolve_range (length ?new) off stop = Some (unat off, unat off + length val - 1)"
    using resolve_range_window [OF off, of stop "length val - 1" "length ?new"] assms(7,14)
    by (cases val) (simp_all add: length_overlay)
  ultimately have "cx_out (getrange R now' ?get) = append_bulk (cx_out ?ctx) val"
    using g assms(4,7,13) overlay_window [of val "unat off" old] by (simp add: getrange_def reply_def)
  then show ?thesis
    using set w(2) length_overlay overlay_nth [of _ old "unat off" val]
    by (intro exI [of _ sh'] exI [of _ ?new] exI [of _ ?ctx]) (simp del: split_paired_All)
qed


theorem setrange_then_getrange_witness:
  "\<exists>sh. setrange mem_rocksdb 5 (string_demo [[107], [51], [7, 8]]) =
      reply (\<lambda>out. append_int out 5) ((string_demo [[107], [51], [7, 8]])\<lparr>cx_shared := sh, cx_wrote := True\<rparr>) \<and>
    lookup (map_of (sh_store sh)) (slot_prefix 1) [107] 6 = RawString [52, 49, 0, 7, 8]"
proof -
  have p: "parse_i64 [51] = Some 3" "parse_i64 [52] = Some 4" by (simp_all add: parse_i64_def is_ascii_digit_def dec_val_def)
  obtain sh new where s: "setrange mem_rocksdb 5 (string_demo [[107], [51], [7, 8]]) =
      reply (\<lambda>out. append_int out (word_of_nat (length new))) ((string_demo [[107], [51], [7, 8]])\<lparr>cx_shared := sh, cx_wrote := True\<rparr>)"
      "string_step (map_of (sh_store (cx_shared (string_demo [[107], [51], [7, 8]])))) (map_of (sh_store sh)) (slot_prefix 1) [107] new 0"
      "length new = 5" "\<And>i. i < length new \<Longrightarrow> new ! i = (if 3 \<le> i \<and> i < 5 then [7, 8] ! (i - 3) else if i < 2 then [52, 49] ! i else 0)"
    using setrange_then_getrange [OF mem_healthy, of "string_demo [[107], [51], [7, 8]]" "[107]" "[51]" "[7, 8]" 1 3 "RawString [52, 49]" 5
        "[52, 49]" "[52]" 4 6] p string_demo_lookup string_demo_key
    by (auto simp: SETRANGE_MAX_def expire_ms_def old_string_value_def)
  have "new = map ((!) new) [0, 1, 2, 3, 4]"
    using s(3) map_nth [of new] by (simp add: upt_rec eval_nat_numeral)
  also have "\<dots> = [52, 49, 0, 7, 8]" using s(3) s(4) [of 0] s(4) [of 1] s(4) [of 2] s(4) [of 3] s(4) [of 4] by simp
  finally have "new = [52, 49, 0, 7, 8]" .
  then show ?thesis using s by (auto simp: string_step_def string_state_def)
qed


section \<open>MSET and MGET\<close>

lemma foreign_not_cleared_record:
  assumes "foreign pfx key k" "classify key = Raw" "length key < 2 ^ 32"
  shows "\<not> cleared_record m pfx key k"
proof (cases "m (string_key pfx key) \<noteq> None")
  case True
  then show ?thesis using foreign_neq_raw [OF assms(1,2)] by (simp add: cleared_record_def)
next
  case raw: False
  show ?thesis
  proof (cases "first_kind m pfx key")
    case None
    then show ?thesis using raw by (simp add: cleared_record_def)
  next
    case (Some kind)
    then obtain fam where "family_of kind = Some fam" using first_kind_family by metis
    then show ?thesis using raw Some foreign_not_purged [OF assms(1,3)] by (simp add: cleared_record_def)
  qed
qed

lemma apply_clear_frame:
  assumes "bounded_prefix pfx" "classify key = Raw" "length key < 2 ^ 32" "foreign pfx key k"
  shows "apply_batch (clear_key_family R pfx key (lookup m0 pfx key now)) m k = m k"
proof (cases "lookup m0 pfx key now")
  case Missing
  then show ?thesis by (simp add: clear_key_family_def)
next
  case (RawString v)
  then show ?thesis using foreign_neq_raw [OF assms(4,2)] by (simp add: clear_key_family_def)
next
  case (Enveloped kind e p)
  obtain fam where fam: "family_or STRING_FAMILY kind = fam" "family_of kind = Some fam"
    using lookup_EnvelopedD [OF Enveloped] family_or_user by blast
  then show ?thesis
    using Enveloped foreign_not_cleared [OF assms(4,3) fam(2)]
    by (simp add: clear_key_family_def apply_family_delete_none [OF assms(1)])
qed

context healthy_rocksdb
begin

lemma mset_entries_effect:
  assumes "bounded_prefix pfx" "\<And>key. key \<in> fst ` set pairs \<Longrightarrow> classify key = Raw \<and> length key < 2 ^ 32"
  shows "\<exists>b db'. mset_entries R pfx now pairs batch db = (batch @ b, db') \<and>
    (\<forall>k. (\<forall>key \<in> fst ` set pairs. foreign pfx key k) \<longrightarrow> content db' k = content db k) \<and>
    (\<forall>m k. (\<forall>key \<in> fst ` set pairs. foreign pfx key k) \<longrightarrow> apply_batch b m k = m k) \<and>
    (\<forall>m key val. map_of (rev pairs) key = Some val \<longrightarrow> apply_batch b m (string_key pfx key) = Some val)"
  using assms(2)
proof (induction pairs arbitrary: batch db)
  case Nil
  then show ?case by simp
next
  case (Cons p pairs)
  obtain key val where p: "p = (key, val)" by (cases p)
  have key: "classify key = Raw" "length key < 2 ^ 32" using Cons.prems [of key] p by simp_all
  let ?st = "lookup (content db) pfx key now"
  let ?c = "clear_key_family R pfx key ?st @ write_string_record pfx key val 0"
  obtain db1 where r: "resolve R db pfx key now = (?st, db1)" using resolve_content(1) [OF assms(1), of db key now] by (cases "resolve R db pfx key now") simp
  have db1: "content db1 k = content db k" if "foreign pfx key k" for k
    using resolve_content(2) [OF assms(1), of db key now] r foreign_not_cleared_record [OF that key] by (simp split: if_splits)
  obtain b db' where IH: "mset_entries R pfx now pairs (batch @ ?c) db1 = ((batch @ ?c) @ b, db')"
      "\<And>k. (\<forall>key \<in> fst ` set pairs. foreign pfx key k) \<Longrightarrow> content db' k = content db1 k"
      "\<And>m k. (\<forall>key \<in> fst ` set pairs. foreign pfx key k) \<Longrightarrow> apply_batch b m k = m k"
      "\<And>m key val. map_of (rev pairs) key = Some val \<Longrightarrow> apply_batch b m (string_key pfx key) = Some val"
    using Cons.IH [of "batch @ ?c" db1] Cons.prems by (simp del: apply_batch_simps) metis
  have c: "apply_batch ?c m k = m k" if "foreign pfx key k" for m k
    using apply_clear_frame [OF assms(1) key that] foreign_neq_raw [OF that key(1)]
    by (simp add: apply_write_string)
  have hit: "apply_batch (?c @ b) m (string_key pfx k) = Some v" if "map_of (rev (p # pairs)) k = Some v" for m k v
  proof (cases "map_of (rev pairs) k")
    case (Some v')
    then show ?thesis using that IH(4) by (simp add: map_add_def)
  next
    case None
    then have k: "k = key" "v = val" using that p by (auto simp: map_add_def split: if_splits)
    have "foreign pfx key' (string_key pfx key)" if "key' \<in> fst ` set pairs" for key'
      using that None k(1) key(1) by (force simp: foreign_def map_of_eq_None_iff)
    then have "apply_batch b m' (string_key pfx key) = m' (string_key pfx key)" for m' using IH(3) by blast
    then show ?thesis using k by (simp add: apply_write_string)
  qed
  have "mset_entries R pfx now (p # pairs) batch db = (batch @ (?c @ b), db')" using r IH(1) p by simp
  moreover have "content db' k = content db k \<and> apply_batch (?c @ b) m k = m k" if "\<forall>key \<in> fst ` set (p # pairs). foreign pfx key k" for m k
    using that IH(2) [of k] IH(3) [of k] db1 [of k] c [of k] p by simp
  ultimately show ?case using hit by blast
qed

lemma mget_rows_present:
  assumes "\<And>key. key \<in> set keys \<Longrightarrow> lookup (content db) pfx key now = RawString (f key)"
  shows "mget_rows R pfx now keys rows db = (Inr (rows @ map (\<lambda>key. OldStr (f key)) keys), db)"
  using assms
proof (induction keys arbitrary: rows)
  case (Cons key keys)
  have "resolve R db pfx key now = (RawString (f key), db)"
    using Cons.prems [of key] by (simp add: resolve_def resolve_with_present is_present_def)
  then show ?case using Cons by (simp add: old_string_value_def)
qed simp

end




end
