(* ===== verification/Rdb_Latch.thy ===== *)
theory Rdb_Latch
  imports Rdb_Tx Rdb_Lists
begin

text \<open>
  The per-key latches (ds/latch.rs) and the tasks that take them.  The semaphore of a key is the one of the
  async runtime, an argument of the model whose documented behaviour is the locale \<open>fair_semaphore\<close>.  A
  world is the latch table with the tasks: each task runs a list of actions, a lock parks it when the
  key is taken, and dropping a guard hands the permit to the next waiter.  The lemmas show that at most
  one guard holds a key, that tasks which lock in byte order never deadlock, EXEC with its reentrant
  replay among them, and that every schedule ends with all keys free.
\<close>

section \<open>The semaphore of the runtime\<close>

text \<open>\<open>Semaphore::new\<close>, \<open>try_acquire_owned\<close>, the first poll of \<open>acquire_owned\<close> by a waiter, and the release of a
  permit, which names the waiter it is handed to.\<close>
record 's semaphore_fns =
  sm_new :: "nat \<Rightarrow> 's"
  sm_try_acquire :: "'s \<Rightarrow> 's option"
  sm_acquire :: "nat \<Rightarrow> 's \<Rightarrow> bool \<times> 's"
  sm_release :: "'s \<Rightarrow> nat option \<times> 's"

locale fair_semaphore =
  fixes S :: "'s semaphore_fns" and available :: "'s \<Rightarrow> nat" and waiters :: "'s \<Rightarrow> nat list"
  assumes new_available: "available (sm_new S n) = n"
    and new_waiters: "waiters (sm_new S n) = []"
    and try_none: "available s = 0 \<Longrightarrow> sm_try_acquire S s = None"
    and try_some: "0 < available s \<Longrightarrow>
      \<exists>s'. sm_try_acquire S s = Some s' \<and> available s' = available s - 1 \<and> waiters s' = waiters s"
    and acquire_now: "0 < available s \<Longrightarrow> waiters s = [] \<Longrightarrow>
      \<exists>s'. sm_acquire S w s = (True, s') \<and> available s' = available s - 1 \<and> waiters s' = []"
    and acquire_wait: "available s = 0 \<Longrightarrow>
      \<exists>s'. sm_acquire S w s = (False, s') \<and> available s' = 0 \<and> waiters s' = waiters s @ [w]"
    and release_idle: "waiters s = [] \<Longrightarrow>
      \<exists>s'. sm_release S s = (None, s') \<and> available s' = Suc (available s) \<and> waiters s' = []"
    and release_next: "waiters s = w # ws \<Longrightarrow>
      \<exists>s'. sm_release S s = (Some w, s') \<and> available s' = available s \<and> waiters s' = ws"

section \<open>The latch table\<close>

definition SHARDS :: nat where
  "SHARDS = 256"

type_synonym 's latch = "(bytes \<rightharpoonup> 's) list"

definition latch_new :: "'s latch" where
  "latch_new = replicate SHARDS Map.empty"

text \<open>FNV-1a over the key bytes.\<close>
definition shard_of :: "bytes \<Rightarrow> nat" where
  "shard_of key = unat (fold (\<lambda>b hash. (hash XOR ucast b) * 0x01000193) key (0x811c9dc5 :: u32)) mod SHARDS"

text \<open>\<open>entry(key).or_insert_with(|| Semaphore::new(1))\<close> on the shard of the key.\<close>
definition entry_or_insert :: "'s semaphore_fns \<Rightarrow> 's latch \<Rightarrow> bytes \<Rightarrow> 's \<times> 's latch" where
  "entry_or_insert S latch key =
     (let shard = latch ! shard_of key in
      case shard key of
        Some sem \<Rightarrow> (sem, latch)
      | None \<Rightarrow> (sm_new S 1, latch[shard_of key := shard(key \<mapsto> sm_new S 1)]))"

text \<open>The semaphore is shared, so an operation on it is seen through the table.\<close>
definition put_sem :: "'s latch \<Rightarrow> bytes \<Rightarrow> 's \<Rightarrow> 's latch" where
  "put_sem latch key sem = latch[shard_of key := (latch ! shard_of key)(key \<mapsto> sem)]"

definition acquire :: "'s semaphore_fns \<Rightarrow> nat \<Rightarrow> 's latch \<Rightarrow> bytes \<Rightarrow> bool \<times> 's latch" where
  "acquire S w latch key =
     (case entry_or_insert S latch key of
        (sem, latch) \<Rightarrow> (case sm_acquire S w sem of (got, sem) \<Rightarrow> (got, put_sem latch key sem)))"

section \<open>Guards and the tracking of EXEC\<close>

datatype tracking = Reentrant | Owned | Untracked

text \<open>The task-local \<open>HELD\<close>: no value outside a connection scope, and the key set of the running EXEC.\<close>
type_synonym held = "bytes set option option"

definition with_conn_scope :: held where
  "with_conn_scope = Some None"

definition exec_begin :: "bytes set \<Rightarrow> held \<Rightarrow> held" where
  "exec_begin keys = map_option (\<lambda>_. Some keys)"

definition exec_end :: "held \<Rightarrow> held" where
  "exec_end = map_option (\<lambda>_. None)"

definition tracking_mode :: "bytes \<Rightarrow> held \<Rightarrow> tracking \<times> held" where
  "tracking_mode key h =
     (case h of
        Some (Some keys) \<Rightarrow> if key \<in> keys then (Reentrant, h) else (Owned, Some (Some (insert key keys)))
      | _ \<Rightarrow> (Untracked, h))"

text \<open>A guard: the key whose permit it owns, and the key it registered.\<close>
record key_guard =
  kg_permit :: "bytes option"
  kg_tracked :: "bytes option"

text \<open>The first poll of \<open>lock\<close>: the guard, complete or still waiting for its permit.\<close>
definition lock :: "'s semaphore_fns \<Rightarrow> nat \<Rightarrow> 's latch \<Rightarrow> held \<Rightarrow> bytes \<Rightarrow> bool \<times> key_guard \<times> 's latch \<times> held" where
  "lock S w latch h key =
     (case tracking_mode key h of
        (Reentrant, h) \<Rightarrow> (True, \<lparr>kg_permit = None, kg_tracked = None\<rparr>, latch, h)
      | (Owned, h) \<Rightarrow>
          (case acquire S w latch key of
             (got, latch) \<Rightarrow> (got, \<lparr>kg_permit = if got then Some key else None, kg_tracked = Some key\<rparr>, latch, h))
      | (Untracked, h) \<Rightarrow>
          (case acquire S w latch key of
             (got, latch) \<Rightarrow> (got, \<lparr>kg_permit = if got then Some key else None, kg_tracked = None\<rparr>, latch, h)))"

text \<open>A dropped permit goes to the next waiter.\<close>
definition release :: "'s semaphore_fns \<Rightarrow> 's latch \<Rightarrow> bytes \<Rightarrow> nat option \<times> 's latch" where
  "release S latch key =
     (case entry_or_insert S latch key of
        (sem, latch) \<Rightarrow> (case sm_release S sem of (next, sem) \<Rightarrow> (next, put_sem latch key sem)))"

text \<open>\<open>try_lock\<close> takes the permit before it asks for the tracking mode; a reentrant guard gives it back.\<close>
definition try_lock :: "'s semaphore_fns \<Rightarrow> 's latch \<Rightarrow> held \<Rightarrow> bytes \<Rightarrow> key_guard option \<times> 's latch \<times> held" where
  "try_lock S latch h key =
     (case entry_or_insert S latch key of
        (sem, latch) \<Rightarrow>
          (case sm_try_acquire S sem of
             None \<Rightarrow> (None, latch, h)
           | Some sem \<Rightarrow>
               (case tracking_mode key h of
                  (Reentrant, h) \<Rightarrow>
                    (Some \<lparr>kg_permit = None, kg_tracked = None\<rparr>, snd (release S (put_sem latch key sem) key), h)
                | (Owned, h) \<Rightarrow> (Some \<lparr>kg_permit = Some key, kg_tracked = Some key\<rparr>, put_sem latch key sem, h)
                | (Untracked, h) \<Rightarrow> (Some \<lparr>kg_permit = Some key, kg_tracked = None\<rparr>, put_sem latch key sem, h))))"

definition untrack :: "key_guard \<Rightarrow> held \<Rightarrow> held" where
  "untrack g h =
     (case kg_tracked g of
        None \<Rightarrow> h
      | Some key \<Rightarrow> map_option (map_option (\<lambda>keys. keys - {key})) h)"

definition drop_guard :: "'s semaphore_fns \<Rightarrow> 's latch \<Rightarrow> held \<Rightarrow> key_guard \<Rightarrow> nat option \<times> 's latch \<times> held" where
  "drop_guard S latch h g =
     (case kg_permit g of
        None \<Rightarrow> (None, latch, untrack g h)
      | Some key \<Rightarrow> (case release S latch key of (next, latch) \<Rightarrow> (next, latch, untrack g h)))"

section \<open>Tasks\<close>

datatype latch_action = Lock bytes | Drop nat | ExecBegin "bytes list" | ExecEnd

record latch_task =
  tk_todo :: "latch_action list"
  tk_parked :: "(bytes \<times> key_guard) option"
  tk_guards :: "key_guard list"
  tk_held :: held

record 's latch_world =
  lw_latch :: "'s latch"
  lw_tasks :: "latch_task list"

definition remove_at :: "nat \<Rightarrow> 'a list \<Rightarrow> 'a list" where
  "remove_at i xs = take i xs @ drop (Suc i) xs"

text \<open>The permit that was handed over completes the guard of a parked task.\<close>
definition unpark :: "latch_task \<Rightarrow> latch_task" where
  "unpark tk =
     (case tk_parked tk of
        None \<Rightarrow> tk
      | Some (key, g) \<Rightarrow> tk\<lparr>tk_parked := None, tk_guards := tk_guards tk @ [g\<lparr>kg_permit := Some key\<rparr>]\<rparr>)"

definition wake :: "nat option \<Rightarrow> latch_task list \<Rightarrow> latch_task list" where
  "wake next tasks = (case next of None \<Rightarrow> tasks | Some u \<Rightarrow> tasks[u := unpark (tasks ! u)])"

text \<open>One action of a task; \<open>None\<close> when it is parked, finished or does not exist.\<close>
definition latch_step :: "'s semaphore_fns \<Rightarrow> nat \<Rightarrow> 's latch_world \<Rightarrow> 's latch_world option" where
  "latch_step S t w =
     (let tk = lw_tasks w ! t in
      if length (lw_tasks w) \<le> t \<or> tk_parked tk \<noteq> None then None
      else
        (case tk_todo tk of
           [] \<Rightarrow> None
         | Lock key # todo \<Rightarrow>
             (case lock S t (lw_latch w) (tk_held tk) key of
                (got, g, latch, h) \<Rightarrow>
                  Some (w\<lparr>lw_latch := latch, lw_tasks := (lw_tasks w)[t :=
                    (if got then tk\<lparr>tk_todo := todo, tk_guards := tk_guards tk @ [g], tk_held := h\<rparr>
                     else tk\<lparr>tk_todo := todo, tk_parked := Some (key, g), tk_held := h\<rparr>)]\<rparr>))
         | Drop i # todo \<Rightarrow>
             if i < length (tk_guards tk) then
               (case drop_guard S (lw_latch w) (tk_held tk) (tk_guards tk ! i) of
                  (next, latch, h) \<Rightarrow>
                    Some (w\<lparr>lw_latch := latch, lw_tasks := wake next ((lw_tasks w)[t :=
                      tk\<lparr>tk_todo := todo, tk_guards := remove_at i (tk_guards tk), tk_held := h\<rparr>])\<rparr>))
             else None
         | ExecBegin keys # todo \<Rightarrow>
             Some (w\<lparr>lw_tasks := (lw_tasks w)[t := tk\<lparr>tk_todo := todo, tk_held := exec_begin (set keys) (tk_held tk)\<rparr>]\<rparr>)
         | ExecEnd # todo \<Rightarrow>
             Some (w\<lparr>lw_tasks := (lw_tasks w)[t := tk\<lparr>tk_todo := todo, tk_held := exec_end (tk_held tk)\<rparr>]\<rparr>)))"

text \<open>The programs of a command, which locks what \<open>lock_sorted\<close> lists, and of \<open>EXEC\<close>, whose replay runs its
  commands one after the other; a \<open>Vec\<close> of guards drops from its front.\<close>
definition command_program :: "nat \<Rightarrow> bytes list \<Rightarrow> latch_action list" where
  "command_program base keys = map Lock keys @ replicate (length keys) (Drop base)"

definition exec_program :: "bytes list \<Rightarrow> bytes list list \<Rightarrow> latch_action list" where
  "exec_program keys commands =
     map Lock keys @ [ExecBegin keys] @ concat (map (command_program (length keys)) commands) @ [ExecEnd] @
     replicate (length keys) (Drop 0)"

definition latch_start :: "latch_action list list \<Rightarrow> 's latch_world" where
  "latch_start programs =
     \<lparr>lw_latch = latch_new, lw_tasks = map (\<lambda>p. \<lparr>tk_todo = p, tk_parked = None, tk_guards = [], tk_held = with_conn_scope\<rparr>) programs\<rparr>"

inductive latch_reach :: "'s semaphore_fns \<Rightarrow> 's latch_world \<Rightarrow> 's latch_world \<Rightarrow> bool" for S w0 where
  reach_refl: "latch_reach S w0 w0"
| reach_step: "latch_reach S w0 w \<Longrightarrow> latch_step S t w = Some w' \<Longrightarrow> latch_reach S w0 w'"


section \<open>The table as one semaphore per key\<close>

definition sem_at :: "'s semaphore_fns \<Rightarrow> 's latch \<Rightarrow> bytes \<Rightarrow> 's" where
  "sem_at S latch key = (case (latch ! shard_of key) key of Some sem \<Rightarrow> sem | None \<Rightarrow> sm_new S 1)"

lemma shard_of_bound: "shard_of key < SHARDS"
  by (simp add: shard_of_def SHARDS_def)

lemma entry_or_insert_at:
  assumes "length latch = SHARDS"
  obtains latch' where "entry_or_insert S latch key = (sem_at S latch key, latch')" "length latch' = SHARDS"
    "sem_at S latch' = sem_at S latch"
proof (cases "(latch ! shard_of key) key")
  case None
  have "sem_at S (latch[shard_of key := (latch ! shard_of key)(key \<mapsto> sm_new S 1)]) k = sem_at S latch k" for k
    using None assms shard_of_bound [of key] by (cases "shard_of k = shard_of key") (auto simp: sem_at_def)
  then show ?thesis
    using None assms by (intro that [of "latch[shard_of key := (latch ! shard_of key)(key \<mapsto> sm_new S 1)]"])
      (auto simp: entry_or_insert_def sem_at_def)
next
  case (Some sem)
  then show ?thesis using assms by (intro that [of latch]) (simp_all add: entry_or_insert_def sem_at_def)
qed

lemma put_sem_at:
  assumes "length latch = SHARDS"
  shows "length (put_sem latch key sem) = SHARDS" "sem_at S (put_sem latch key sem) = (sem_at S latch)(key := sem)"
proof -
  show "length (put_sem latch key sem) = SHARDS" using assms by (simp add: put_sem_def)
  have "sem_at S (put_sem latch key sem) k = ((sem_at S latch)(key := sem)) k" for k
    using assms shard_of_bound [of key] by (cases "shard_of k = shard_of key") (auto simp: sem_at_def put_sem_def)
  then show "sem_at S (put_sem latch key sem) = (sem_at S latch)(key := sem)" by blast
qed

lemma acquire_at:
  assumes "length latch = SHARDS" "sm_acquire S w (sem_at S latch key) = (got, sem)"
  obtains latch' where "acquire S w latch key = (got, latch')" "length latch' = SHARDS"
    "sem_at S latch' = (sem_at S latch)(key := sem)"
proof -
  obtain l where l: "entry_or_insert S latch key = (sem_at S latch key, l)" "length l = SHARDS" "sem_at S l = sem_at S latch"
    using entry_or_insert_at [OF assms(1)] by metis
  then show ?thesis
    using assms(2) by (intro that [of "put_sem l key sem"]) (simp_all add: acquire_def put_sem_at)
qed

lemma release_at:
  assumes "length latch = SHARDS" "sm_release S (sem_at S latch key) = (nxt, sem)"
  obtains latch' where "release S latch key = (nxt, latch')" "length latch' = SHARDS"
    "sem_at S latch' = (sem_at S latch)(key := sem)"
proof -
  obtain l where l: "entry_or_insert S latch key = (sem_at S latch key, l)" "length l = SHARDS" "sem_at S l = sem_at S latch"
    using entry_or_insert_at [OF assms(1)] by metis
  then show ?thesis
    using assms(2) by (intro that [of "put_sem l key sem"]) (simp_all add: release_def put_sem_at)
qed

section \<open>Ordered programs\<close>

definition guard_permits :: "key_guard list \<Rightarrow> bytes list" where
  "guard_permits = List.map_filter kg_permit"

lemma guard_permits_append [simp]: "guard_permits (xs @ ys) = guard_permits xs @ guard_permits ys"
  by (simp add: guard_permits_def map_filter_def)

lemma guard_permits_simps [simp]:
  "guard_permits [] = []"
  "guard_permits (g # gs) = (case kg_permit g of None \<Rightarrow> guard_permits gs | Some k \<Rightarrow> k # guard_permits gs)"
  by (simp_all add: guard_permits_def map_filter_def split: option.splits)

text \<open>The deadlock rule on a program: a lock that may wait comes after smaller keys only, a drop names a
  guard, and at the end no guard is left.\<close>
fun ordered :: "latch_action list \<Rightarrow> key_guard list \<Rightarrow> held \<Rightarrow> bool" where
  "ordered [] gs h \<longleftrightarrow> gs = []"
| "ordered (Lock key # todo) gs h \<longleftrightarrow>
     (case tracking_mode key h of
        (Reentrant, h) \<Rightarrow> ordered todo (gs @ [\<lparr>kg_permit = None, kg_tracked = None\<rparr>]) h
      | (Owned, h) \<Rightarrow> (\<forall>p \<in> set (guard_permits gs). p < key) \<and>
          ordered todo (gs @ [\<lparr>kg_permit = Some key, kg_tracked = Some key\<rparr>]) h
      | (Untracked, h) \<Rightarrow> (\<forall>p \<in> set (guard_permits gs). p < key) \<and>
          ordered todo (gs @ [\<lparr>kg_permit = Some key, kg_tracked = None\<rparr>]) h)"
| "ordered (Drop i # todo) gs h \<longleftrightarrow> i < length gs \<and> ordered todo (remove_at i gs) (untrack (gs ! i) h)"
| "ordered (ExecBegin keys # todo) gs h \<longleftrightarrow> ordered todo gs (exec_begin (set keys) h)"
| "ordered (ExecEnd # todo) gs h \<longleftrightarrow> ordered todo gs (exec_end h)"

definition task_ok :: "latch_task \<Rightarrow> bool" where
  "task_ok tk \<longleftrightarrow>
     (case tk_parked tk of
        None \<Rightarrow> ordered (tk_todo tk) (tk_guards tk) (tk_held tk)
      | Some (key, g) \<Rightarrow> (\<forall>p \<in> set (guard_permits (tk_guards tk)). p < key) \<and>
          ordered (tk_todo tk) (tk_guards tk @ [g\<lparr>kg_permit := Some key\<rparr>]) (tk_held tk))"

lemma task_ok_unpark: "task_ok tk \<Longrightarrow> task_ok (unpark tk)"
  by (auto simp: task_ok_def unpark_def split: option.splits)

section \<open>The invariant\<close>

definition permit_count :: "latch_task list \<Rightarrow> bytes \<Rightarrow> nat" where
  "permit_count tasks key = (\<Sum>tk\<leftarrow>tasks. count_list (guard_permits (tk_guards tk)) key)"

lemma permit_count_update:
  assumes "t < length tasks"
  shows "permit_count (tasks[t := tk]) key + count_list (guard_permits (tk_guards (tasks ! t))) key =
    permit_count tasks key + count_list (guard_permits (tk_guards tk)) key"
  using assms
proof (induction tasks arbitrary: t)
  case (Cons a tasks)
  then show ?case by (cases t) (auto simp: permit_count_def)
qed simp

lemma permit_count_member:
  assumes "tk \<in> set tasks"
  shows "count_list (guard_permits (tk_guards tk)) key \<le> permit_count tasks key"
  using assms by (induction tasks) (auto simp: permit_count_def)

lemma permit_count_two:
  assumes "t < u" "u < length tasks"
  shows "count_list (guard_permits (tk_guards (tasks ! t))) key + count_list (guard_permits (tk_guards (tasks ! u))) key
    \<le> permit_count tasks key"
  using assms
proof (induction tasks arbitrary: t u)
  case (Cons a tasks)
  obtain v where v: "u = Suc v" using Cons.prems(1) by (cases u) auto
  show ?case
  proof (cases t)
    case 0
    then show ?thesis using v Cons.prems permit_count_member [of "tasks ! v" tasks key] by (simp add: permit_count_def)
  next
    case (Suc s)
    then show ?thesis using Cons.IH [of s v] Cons.prems v by (simp add: permit_count_def)
  qed
qed simp

lemma permit_count_exists:
  "0 < permit_count tasks key \<Longrightarrow> \<exists>tk \<in> set tasks. key \<in> set (guard_permits (tk_guards tk))"
  by (induction tasks) (auto simp: permit_count_def count_list_0_iff intro: ccontr)

lemma count_remove_at:
  "i < length gs \<Longrightarrow> count_list (guard_permits (remove_at i gs)) key + (if kg_permit (gs ! i) = Some key then 1 else 0) =
     count_list (guard_permits gs) key"
proof -
  assume "i < length gs"
  then have "guard_permits gs = guard_permits (take i gs) @ guard_permits (gs ! i # drop (Suc i) gs)"
    using id_take_nth_drop [of i gs] guard_permits_append by metis
  then show ?thesis by (simp add: remove_at_def split: option.splits)
qed


context fair_semaphore
begin

definition key_inv :: "'s latch_world \<Rightarrow> bytes \<Rightarrow> bool" where
  "key_inv w key \<longleftrightarrow>
     (let sem = sem_at S (lw_latch w) key in
      available sem + permit_count (lw_tasks w) key = 1 \<and>
      (waiters sem \<noteq> [] \<longrightarrow> available sem = 0) \<and> distinct (waiters sem) \<and>
      (\<forall>t. t \<in> set (waiters sem) \<longleftrightarrow> t < length (lw_tasks w) \<and> (\<exists>g. tk_parked (lw_tasks w ! t) = Some (key, g))))"

definition latch_inv :: "'s latch_world \<Rightarrow> bool" where
  "latch_inv w \<longleftrightarrow> length (lw_latch w) = SHARDS \<and> (\<forall>tk \<in> set (lw_tasks w). task_ok tk) \<and> (\<forall>key. key_inv w key)"

text \<open>An action that leaves the semaphores and the permits of its task alone.\<close>
lemma inv_local:
  assumes "latch_inv w" "t < length (lw_tasks w)" "tk_parked (lw_tasks w ! t) = None" "tk_parked tk = None" "task_ok tk"
    and "\<And>key. count_list (guard_permits (tk_guards tk)) key = count_list (guard_permits (tk_guards (lw_tasks w ! t))) key"
  shows "latch_inv (w\<lparr>lw_tasks := (lw_tasks w)[t := tk]\<rparr>)"
proof -
  have "permit_count ((lw_tasks w)[t := tk]) key = permit_count (lw_tasks w) key" for key
    using permit_count_update [OF assms(2), of tk key] assms(6) [of key] by simp
  moreover have "tk_parked ((lw_tasks w)[t := tk] ! u) = tk_parked (lw_tasks w ! u)" for u
    using assms(2,3,4) by (cases "u = t") simp_all
  ultimately show ?thesis
    using assms(1,5) set_update_subset_insert [of "lw_tasks w" t tk]
    by (auto simp: latch_inv_def key_inv_def)
qed

text \<open>An action of a task on the semaphore of one key.\<close>
lemma inv_key:
  assumes "latch_inv w" "length latch = SHARDS" "sem_at S latch = (sem_at S (lw_latch w))(key := sem)"
    and "length tasks = length (lw_tasks w)" "\<And>tk. tk \<in> set tasks \<Longrightarrow> task_ok tk"
    and "\<And>k. k \<noteq> key \<Longrightarrow> permit_count tasks k = permit_count (lw_tasks w) k"
    and "\<And>u k g. k \<noteq> key \<Longrightarrow> u < length tasks \<Longrightarrow>
      (\<exists>g. tk_parked (tasks ! u) = Some (k, g)) \<longleftrightarrow> (\<exists>g. tk_parked (lw_tasks w ! u) = Some (k, g))"
    and "available sem + permit_count tasks key = 1" "waiters sem \<noteq> [] \<longrightarrow> available sem = 0" "distinct (waiters sem)"
    and "\<And>u. u \<in> set (waiters sem) \<longleftrightarrow> u < length tasks \<and> (\<exists>g. tk_parked (tasks ! u) = Some (key, g))"
  shows "latch_inv (w\<lparr>lw_latch := latch, lw_tasks := tasks\<rparr>)"
proof -
  have "key_inv (w\<lparr>lw_latch := latch, lw_tasks := tasks\<rparr>) k" for k
  proof (cases "k = key")
    case True
    then show ?thesis using assms(3,8-11) by (simp add: key_inv_def)
  next
    case False
    then have "key_inv w k" using assms(1) by (simp add: latch_inv_def)
    then show ?thesis using False assms(3,4) assms(6,7) [OF False] by (auto simp: key_inv_def Let_def)
  qed
  then show ?thesis using assms(2,5) by (simp add: latch_inv_def)
qed

lemma key_invD:
  assumes "latch_inv w"
  shows "available (sem_at S (lw_latch w) key) + permit_count (lw_tasks w) key = 1"
    and "waiters (sem_at S (lw_latch w) key) \<noteq> [] \<Longrightarrow> available (sem_at S (lw_latch w) key) = 0"
    and "distinct (waiters (sem_at S (lw_latch w) key))"
    and "u \<in> set (waiters (sem_at S (lw_latch w) key)) \<longleftrightarrow>
      u < length (lw_tasks w) \<and> (\<exists>g. tk_parked (lw_tasks w ! u) = Some (key, g))"
  using assms by (auto simp: latch_inv_def key_inv_def Let_def)

text \<open>A lock that may wait: it gets the permit when the key is free and queues otherwise.\<close>
lemma inv_acquire:
  assumes inv: "latch_inv w" "t < length (lw_tasks w)" "tk_parked (lw_tasks w ! t) = None"
    and acq: "acquire S t (lw_latch w) key = (got, latch)"
    and tk: "task_ok tk" "if got then tk_parked tk = None \<and> guard_permits (tk_guards tk) = guard_permits (tk_guards (lw_tasks w ! t)) @ [key]
      else (\<exists>g. tk_parked tk = Some (key, g)) \<and> guard_permits (tk_guards tk) = guard_permits (tk_guards (lw_tasks w ! t))"
  shows "latch_inv (w\<lparr>lw_latch := latch, lw_tasks := (lw_tasks w)[t := tk]\<rparr>)"
proof -
  let ?sem = "sem_at S (lw_latch w) key"
  have shards: "length (lw_latch w) = SHARDS" using inv(1) by (simp add: latch_inv_def)
  note key = key_invD [OF inv(1)]
  have ok: "\<And>tk'. tk' \<in> set ((lw_tasks w)[t := tk]) \<Longrightarrow> task_ok tk'"
    using inv(1) tk(1) set_update_subset_insert [of "lw_tasks w" t tk] by (auto simp: latch_inv_def)
  note count = permit_count_update [OF inv(2), of tk]
  show ?thesis
  proof (cases "available ?sem = 0")
    case True
    obtain sem where s: "sm_acquire S t ?sem = (False, sem)" "available sem = 0" "waiters sem = waiters ?sem @ [t]"
      using acquire_wait [OF True] by metis
    obtain l where "acquire S t (lw_latch w) key = (False, l)" and l: "length l = SHARDS" "sem_at S l = (sem_at S (lw_latch w))(key := sem)"
      by (rule acquire_at [OF shards s(1)])
    then have eq: "got = False" "l = latch" using acq by auto
    obtain g where g: "tk_parked tk = Some (key, g)" "guard_permits (tk_guards tk) = guard_permits (tk_guards (lw_tasks w ! t))"
      using tk(2) eq(1) by auto
    have "t \<notin> set (waiters ?sem)" using key(4) inv(3) by auto
    then show ?thesis
      using l eq ok count g s key(1,3) [of key] key(4) [of _ key] inv(2,3) True
      by (intro inv_key [OF inv(1), where key = key and sem = sem]) (auto simp: nth_list_update)
  next
    case False
    then have "waiters ?sem = []" "available ?sem = 1" using key(1,2) [of key] by auto
    then obtain sem where s: "sm_acquire S t ?sem = (True, sem)" "available sem = 0" "waiters sem = []"
      using acquire_now [of ?sem t] by auto
    obtain l where "acquire S t (lw_latch w) key = (True, l)" and l: "length l = SHARDS" "sem_at S l = (sem_at S (lw_latch w))(key := sem)"
      by (rule acquire_at [OF shards s(1)])
    then have eq: "got = True" "l = latch" using acq by auto
    then have g: "tk_parked tk = None" "guard_permits (tk_guards tk) = guard_permits (tk_guards (lw_tasks w ! t)) @ [key]"
      using tk(2) by auto
    show ?thesis
      using l eq ok count g s key(1) [of key] key(4) [of _ key] inv(2,3) \<open>waiters ?sem = []\<close> \<open>available ?sem = 1\<close>
      by (intro inv_key [OF inv(1), where key = key and sem = sem]) (auto simp: nth_list_update)
  qed
qed

end


lemma guard_permits_unpark:
  "tk_parked tk = Some (key, g) \<Longrightarrow> guard_permits (tk_guards (unpark tk)) = guard_permits (tk_guards tk) @ [key]"
  "tk_parked (unpark tk) = None"
  by (auto simp: unpark_def split: option.splits)

lemma latch_stepD:
  assumes "latch_step S t w = Some w'"
  shows "t < length (lw_tasks w)" "tk_parked (lw_tasks w ! t) = None" "tk_todo (lw_tasks w ! t) \<noteq> []"
proof -
  have "\<not> (length (lw_tasks w) \<le> t \<or> tk_parked (lw_tasks w ! t) \<noteq> None)"
  proof
    assume "length (lw_tasks w) \<le> t \<or> tk_parked (lw_tasks w ! t) \<noteq> None"
    then have "latch_step S t w = None" unfolding latch_step_def Let_def by (rule if_P)
    with assms show False by simp
  qed
  then show "t < length (lw_tasks w)" "tk_parked (lw_tasks w ! t) = None" unfolding not_le de_Morgan_disj not_not by blast+
  then show "tk_todo (lw_tasks w ! t) \<noteq> []" using assms by (auto simp: latch_step_def)
qed

context fair_semaphore
begin

text \<open>A dropped permit: it goes back when nobody waits, and to the first waiter otherwise.\<close>
lemma inv_release:
  assumes inv: "latch_inv w" "t < length (lw_tasks w)" "tk_parked (lw_tasks w ! t) = None"
    and rel: "release S (lw_latch w) key = (nxt, latch)"
    and tk: "task_ok tk" "tk_parked tk = None"
      "\<And>k. count_list (guard_permits (tk_guards tk)) k + (if k = key then 1 else 0) =
        count_list (guard_permits (tk_guards (lw_tasks w ! t))) k"
  shows "latch_inv (w\<lparr>lw_latch := latch, lw_tasks := wake nxt ((lw_tasks w)[t := tk])\<rparr>)"
proof -
  let ?sem = "sem_at S (lw_latch w) key" and ?tasks = "(lw_tasks w)[t := tk]"
  have shards: "length (lw_latch w) = SHARDS" using inv(1) by (simp add: latch_inv_def)
  note key = key_invD [OF inv(1)]
  have ok: "\<And>tk'. tk' \<in> set ?tasks \<Longrightarrow> task_ok tk'"
    using inv(1) tk(1) set_update_subset_insert [of "lw_tasks w" t tk] by (auto simp: latch_inv_def)
  have count: "permit_count ?tasks k + (if k = key then 1 else 0) = permit_count (lw_tasks w) k" for k
    using permit_count_update [OF inv(2), of tk k] tk(3) [of k] by (simp split: if_splits)
  have other: "permit_count ?tasks k = permit_count (lw_tasks w) k" if "k \<noteq> key" for k using count [of k] that by simp
  have held: "available ?sem = 0" "permit_count ?tasks key = 0" using key(1) [of key] count [of key] by simp_all
  show ?thesis
  proof (cases "waiters ?sem")
    case Nil
    obtain sem where s: "sm_release S ?sem = (None, sem)" "available sem = Suc 0" "waiters sem = []"
      using release_idle [OF Nil] held(1) by auto
    obtain l where "release S (lw_latch w) key = (None, l)" and l: "length l = SHARDS" "sem_at S l = (sem_at S (lw_latch w))(key := sem)"
      by (rule release_at [OF shards s(1)])
    then have eq: "nxt = None" "l = latch" using rel by auto
    show ?thesis
      using l eq ok other s key(4) [of _ key] inv(2,3) tk(2) held Nil
      by (intro inv_key [OF inv(1), where key = key and sem = sem]) (auto simp: nth_list_update wake_def)
  next
    case (Cons u ws)
    obtain sem where s: "sm_release S ?sem = (Some u, sem)" "available sem = 0" "waiters sem = ws"
      using release_next [OF Cons] held(1) by metis
    obtain l where "release S (lw_latch w) key = (Some u, l)" and l: "length l = SHARDS" "sem_at S l = (sem_at S (lw_latch w))(key := sem)"
      by (rule release_at [OF shards s(1)])
    then have eq: "nxt = Some u" "l = latch" using rel by auto
    obtain g where u: "u < length (lw_tasks w)" "tk_parked (lw_tasks w ! u) = Some (key, g)"
      using key(4) [of u key] Cons by auto
    then have ut: "u \<noteq> t" using inv(3) by auto
    let ?new = "?tasks[u := unpark (?tasks ! u)]"
    have parked: "tk_parked (?new ! v) = (if v = u \<or> v = t then None else tk_parked (lw_tasks w ! v))" if "v < length (lw_tasks w)" for v
      using that u ut tk(2) by (auto simp: nth_list_update guard_permits_unpark)
    have new: "permit_count ?new k = permit_count ?tasks k + (if k = key then 1 else 0)" for k
      using permit_count_update [of u ?tasks "unpark (?tasks ! u)" k] u ut guard_permits_unpark(1) [of "lw_tasks w ! u" key g] by simp
    have ok': "task_ok tk'" if "tk' \<in> set ?new" for tk'
      using that ok [of tk'] ok [of "?tasks ! u"] u(1) set_update_subset_insert [of ?tasks u "unpark (?tasks ! u)"] task_ok_unpark
      by (auto simp del: nth_list_update_neq)
    have ws: "v \<in> set ws \<longleftrightarrow> v < length (lw_tasks w) \<and> (\<exists>g. tk_parked (?new ! v) = Some (key, g))" for v
      using key(3) [of key] key(4) [of v key] Cons parked [of v] inv(3) by (auto split: if_splits)
    have "latch_inv (w\<lparr>lw_latch := latch, lw_tasks := ?new\<rparr>)"
      using l eq ok' new other s ws held key(3) [of key] Cons u(2) inv(3)
      by (intro inv_key [OF inv(1), where key = key and sem = sem]) (auto simp: parked simp del: nth_list_update_neq split: if_splits)
    then show ?thesis using eq by (simp add: wake_def)
  qed
qed

text \<open>Every action of a task keeps the invariant.\<close>
lemma latch_step_inv:
  assumes inv: "latch_inv w" and step: "latch_step S t w = Some w'"
  shows "latch_inv w'"
proof -
  let ?tk = "lw_tasks w ! t"
  note t = latch_stepD(1,2) [OF step]
  have "task_ok ?tk" using inv nth_mem [OF t(1)] unfolding latch_inv_def by blast
  then have ok: "ordered (tk_todo ?tk) (tk_guards ?tk) (tk_held ?tk)" using t(2) by (simp add: task_ok_def)
  obtain a todo where todo: "tk_todo ?tk = a # todo"
    using latch_stepD(3) [OF step] by (cases "tk_todo ?tk") auto
  show ?thesis
  proof (cases a)
    case (Lock key)
    obtain mode h where mode: "tracking_mode key (tk_held ?tk) = (mode, h)" by (cases "tracking_mode key (tk_held ?tk)")
    obtain got latch where acq: "acquire S t (lw_latch w) key = (got, latch)" by (cases "acquire S t (lw_latch w) key")
    show ?thesis
    proof (cases mode)
      case Reentrant
      then show ?thesis
        using step t todo Lock mode ok inv_local [OF inv t, of "?tk\<lparr>tk_todo := todo, tk_guards := tk_guards ?tk @ [\<lparr>kg_permit = None, kg_tracked = None\<rparr>], tk_held := h\<rparr>"]
        by (auto simp: Let_def latch_step_def lock_def task_ok_def)
    next
      case Owned
      then show ?thesis
        using step t todo Lock mode ok acq by (auto simp: Let_def latch_step_def lock_def task_ok_def intro!: inv_acquire [OF inv t acq])
    next
      case Untracked
      then show ?thesis
        using step t todo Lock mode ok acq by (auto simp: Let_def latch_step_def lock_def task_ok_def intro!: inv_acquire [OF inv t acq])
    qed
  next
    case (Drop i)
    then have i: "i < length (tk_guards ?tk)" using ok todo by simp
    let ?new = "?tk\<lparr>tk_todo := todo, tk_guards := remove_at i (tk_guards ?tk), tk_held := untrack (tk_guards ?tk ! i) (tk_held ?tk)\<rparr>"
    show ?thesis
    proof (cases "kg_permit (tk_guards ?tk ! i)")
      case None
      then show ?thesis
        using step t todo Drop i ok count_remove_at [OF i] inv_local [OF inv t, of ?new]
        by (auto simp: Let_def latch_step_def drop_guard_def wake_def task_ok_def)
    next
      case (Some key)
      obtain nxt latch where rel: "release S (lw_latch w) key = (nxt, latch)" by (cases "release S (lw_latch w) key")
      have "count_list (guard_permits (tk_guards ?new)) k + (if k = key then 1 else 0) = count_list (guard_permits (tk_guards ?tk)) k" for k
        using count_remove_at [OF i, of k] Some by (cases "k = key") simp_all
      then have "latch_inv (w\<lparr>lw_latch := latch, lw_tasks := wake nxt ((lw_tasks w)[t := ?new])\<rparr>)"
        using ok todo Drop t by (intro inv_release [OF inv t rel]) (auto simp: task_ok_def)
      then show ?thesis using step t todo Drop i Some rel by (auto simp: Let_def latch_step_def drop_guard_def)
    qed
  next
    case (ExecBegin keys)
    then show ?thesis
      using step t todo ok inv_local [OF inv t, of "?tk\<lparr>tk_todo := todo, tk_held := exec_begin (set keys) (tk_held ?tk)\<rparr>"]
      by (auto simp: Let_def latch_step_def task_ok_def)
  next
    case ExecEnd
    then show ?thesis
      using step t todo ok inv_local [OF inv t, of "?tk\<lparr>tk_todo := todo, tk_held := exec_end (tk_held ?tk)\<rparr>"]
      by (auto simp: Let_def latch_step_def task_ok_def)
  qed
qed

end


section \<open>No deadlock\<close>

definition task_done :: "latch_task \<Rightarrow> bool" where
  "task_done tk \<longleftrightarrow> tk_todo tk = [] \<and> tk_parked tk = None"

definition todo_total :: "'s latch_world \<Rightarrow> nat" where
  "todo_total w = (\<Sum>tk\<leftarrow>lw_tasks w. length (tk_todo tk))"

lemma unparked_steps:
  assumes "t < length (lw_tasks w)" "task_ok (lw_tasks w ! t)" "tk_parked (lw_tasks w ! t) = None" "tk_todo (lw_tasks w ! t) \<noteq> []"
  shows "\<exists>w'. latch_step S t w = Some w'"
proof -
  obtain a todo where "tk_todo (lw_tasks w ! t) = a # todo" using assms(4) by (cases "tk_todo (lw_tasks w ! t)") auto
  then show ?thesis using assms(1-3) by (cases a) (auto simp: latch_step_def Let_def task_ok_def split: prod.splits)
qed

context fair_semaphore
begin

lemma latch_start_inv:
  assumes "\<And>p. p \<in> set programs \<Longrightarrow> ordered p [] with_conn_scope"
  shows "latch_inv (latch_start programs)"
proof -
  have "sem_at S latch_new key = sm_new S 1" for key
    using shard_of_bound [of key] by (simp add: sem_at_def latch_new_def)
  moreover have "permit_count (lw_tasks (latch_start programs)) key = 0" for key
    by (simp add: permit_count_def latch_start_def comp_def sum_list_0)
  ultimately show ?thesis
    using assms by (auto simp: latch_inv_def key_inv_def latch_start_def task_ok_def latch_new_def new_available new_waiters)
qed

lemma latch_reach_inv:
  assumes "latch_reach S (latch_start programs) w" "\<And>p. p \<in> set programs \<Longrightarrow> ordered p [] with_conn_scope"
  shows "latch_inv w"
  using assms(1) by induction (auto intro: latch_start_inv assms(2) latch_step_inv)

text \<open>The holder of the greatest key that is waited for can run.\<close>
lemma latch_progress:
  assumes inv: "latch_inv w" and "\<exists>tk \<in> set (lw_tasks w). \<not> task_done tk"
  shows "\<exists>t w'. latch_step S t w = Some w'"
proof (rule ccontr)
  assume stuck: "\<nexists>t w'. latch_step S t w = Some w'"
  have ok: "task_ok tk" if "tk \<in> set (lw_tasks w)" for tk using inv that by (simp add: latch_inv_def)
  have parked: "tk_parked tk \<noteq> None" if "tk \<in> set (lw_tasks w)" "\<not> task_done tk" for tk
  proof
    assume "tk_parked tk = None"
    moreover obtain t where "t < length (lw_tasks w)" "tk = lw_tasks w ! t" using \<open>tk \<in> _\<close> by (metis in_set_conv_nth)
    ultimately show False
      using unparked_steps [of t w S] stuck that ok by (auto simp: task_done_def)
  qed
  let ?ks = "{key. \<exists>tk \<in> set (lw_tasks w). \<exists>g. tk_parked tk = Some (key, g)}"
  have "?ks \<subseteq> (\<lambda>tk. fst (the (tk_parked tk))) ` set (lw_tasks w)" by force
  then have fin: "finite ?ks" using finite_surj by blast
  have ne: "?ks \<noteq> {}" using assms(2) parked by force
  obtain t g where t: "t < length (lw_tasks w)" "tk_parked (lw_tasks w ! t) = Some (Max ?ks, g)"
    using Max_in [OF fin ne] by (auto simp: in_set_conv_nth)
  note key = key_invD [OF inv, where key = "Max ?ks"]
  have "t \<in> set (waiters (sem_at S (lw_latch w) (Max ?ks)))" using key(4) t by blast
  then have "waiters (sem_at S (lw_latch w) (Max ?ks)) \<noteq> []" by force
  then have "permit_count (lw_tasks w) (Max ?ks) = 1" using key(1,2) by linarith
  then obtain tk where tk: "tk \<in> set (lw_tasks w)" "Max ?ks \<in> set (guard_permits (tk_guards tk))"
    using permit_count_exists [of "lw_tasks w" "Max ?ks"] by auto
  have "\<not> task_done tk" using ok [OF tk(1)] tk(2) by (cases "tk_parked tk") (auto simp: task_done_def task_ok_def)
  then obtain key g' where park: "tk_parked tk = Some (key, g')" using parked tk(1) by fastforce
  then have "Max ?ks < key" using ok [OF tk(1)] tk(2) by (auto simp: task_ok_def)
  moreover have "key \<le> Max ?ks" using fin park tk(1) by (intro Max_ge) auto
  ultimately show False by simp
qed

lemma latch_exclusive_inv:
  assumes "latch_inv w" "t < length (lw_tasks w)" "u < length (lw_tasks w)"
    and "key \<in> set (guard_permits (tk_guards (lw_tasks w ! t)))" "key \<in> set (guard_permits (tk_guards (lw_tasks w ! u)))"
  shows "t = u"
proof (rule ccontr)
  assume "t \<noteq> u"
  then have "count_list (guard_permits (tk_guards (lw_tasks w ! t))) key + count_list (guard_permits (tk_guards (lw_tasks w ! u))) key
      \<le> permit_count (lw_tasks w) key"
    using permit_count_two [of t u "lw_tasks w" key] permit_count_two [of u t "lw_tasks w" key] assms(2,3) by (cases t u rule: linorder_cases) auto
  moreover have "0 < count_list (guard_permits (tk_guards (lw_tasks w ! t))) key" "0 < count_list (guard_permits (tk_guards (lw_tasks w ! u))) key"
    using assms(4,5) by (simp_all add: count_list_0_iff zero_less_iff_neq_zero)
  ultimately show False using key_invD(1) [OF assms(1), of key] by linarith
qed

lemma latch_done_free:
  assumes "latch_inv w" "\<And>tk. tk \<in> set (lw_tasks w) \<Longrightarrow> task_done tk"
  shows "available (sem_at S (lw_latch w) key) = 1 \<and> waiters (sem_at S (lw_latch w) key) = []"
proof -
  have "tk_guards tk = []" if "tk \<in> set (lw_tasks w)" for tk
    using assms that by (auto simp: latch_inv_def task_ok_def task_done_def)
  then have "permit_count (lw_tasks w) key = 0" by (simp add: permit_count_def)
  then show ?thesis using key_invD(1,2) [OF assms(1), of key] by auto
qed

end

lemma wake_todo: "map tk_todo (wake nxt tasks) = map tk_todo tasks"
proof (cases nxt)
  case (Some u)
  have "tk_todo (unpark tk) = tk_todo tk" for tk by (simp add: unpark_def split: option.splits)
  then show ?thesis
    using Some list_update_id [of "map tk_todo tasks" u] by (cases "u < length tasks") (simp_all add: wake_def map_update list_update_beyond)
qed (simp add: wake_def)

lemma latch_step_todo:
  assumes "latch_step S t w = Some w'"
  shows "map tk_todo (lw_tasks w') = (map tk_todo (lw_tasks w))[t := tl (tk_todo (lw_tasks w ! t))]"
proof -
  obtain a todo where "tk_todo (lw_tasks w ! t) = a # todo" using latch_stepD(3) [OF assms] by (cases "tk_todo (lw_tasks w ! t)") auto
  then show ?thesis
    using assms latch_stepD(1,2) [OF assms]
    by (cases a) (auto simp: latch_step_def Let_def wake_todo map_update split: prod.splits if_splits)
qed

lemma latch_step_shrinks:
  assumes "latch_step S t w = Some w'"
  shows "todo_total w = Suc (todo_total w')"
proof -
  let ?xs = "map tk_todo (lw_tasks w)"
  have "sum_list (map length (xs[t := tl (xs ! t)])) + 1 = sum_list (map length xs)" if "t < length xs" "xs ! t \<noteq> []" for xs :: "latch_action list list" and t
    using that
  proof (induction xs arbitrary: t)
    case (Cons x xs)
    then show ?case by (cases t) (auto simp: neq_Nil_conv)
  qed simp
  from this [of t ?xs] show ?thesis
    using latch_step_todo [OF assms] latch_stepD(1,3) [OF assms] by (simp add: todo_total_def flip: map_map [unfolded comp_def])
qed


section \<open>The programs of the server\<close>

lemma ordered_locks:
  assumes "sorted_wrt (<) keys" "\<And>p key. p \<in> set (guard_permits gs) \<Longrightarrow> key \<in> set keys \<Longrightarrow> p < key"
    and "ordered rest (gs @ map (\<lambda>key. \<lparr>kg_permit = Some key, kg_tracked = None\<rparr>) keys) (Some None)"
  shows "ordered (map Lock keys @ rest) gs (Some None)"
  using assms
proof (induction keys arbitrary: gs)
  case (Cons key keys)
  then have "ordered (map Lock keys @ rest) (gs @ [\<lparr>kg_permit = Some key, kg_tracked = None\<rparr>]) (Some None)"
    by (intro Cons.IH) (auto split: option.splits)
  then show ?case using Cons.prems(2) by (simp add: tracking_mode_def)
qed simp

lemma ordered_reentrant:
  assumes "set keys \<subseteq> held" "ordered rest (gs @ replicate (length keys) \<lparr>kg_permit = None, kg_tracked = None\<rparr>) (Some (Some held))"
  shows "ordered (map Lock keys @ rest) gs (Some (Some held))"
  using assms by (induction keys arbitrary: gs) (simp_all add: tracking_mode_def)

lemma ordered_drops:
  assumes "\<forall>g \<in> set gs'. kg_tracked g = None" "ordered rest gs h"
  shows "ordered (replicate (length gs') (Drop (length gs)) @ rest) (gs @ gs') h"
  using assms by (induction gs') (simp_all add: remove_at_def untrack_def nth_append)

lemma ordered_command:
  assumes "sorted_wrt (<) keys"
  shows "ordered (command_program 0 keys) [] with_conn_scope"
proof -
  have "ordered (replicate (length keys) (Drop 0) @ []) (map (\<lambda>key. \<lparr>kg_permit = Some key, kg_tracked = None\<rparr>) keys) (Some None)"
    using ordered_drops [of "map (\<lambda>key. \<lparr>kg_permit = Some key, kg_tracked = None\<rparr>) keys" "[]" "[]"] by auto
  then show ?thesis
    using ordered_locks [OF assms, of "[]" "replicate (length keys) (Drop 0)"] by (simp add: command_program_def with_conn_scope_def)
qed

lemma ordered_replay:
  assumes "\<And>c. c \<in> set commands \<Longrightarrow> set c \<subseteq> held" "ordered rest gs (Some (Some held))"
  shows "ordered (concat (map (command_program (length gs)) commands) @ rest) gs (Some (Some held))"
  using assms
proof (induction commands)
  case (Cons c commands)
  let ?rest = "concat (map (command_program (length gs)) commands) @ rest"
  have "ordered (replicate (length c) (Drop (length gs)) @ ?rest)
      (gs @ replicate (length c) \<lparr>kg_permit = None, kg_tracked = None\<rparr>) (Some (Some held))"
    using ordered_drops [of "replicate (length c) \<lparr>kg_permit = None, kg_tracked = None\<rparr>" ?rest gs] Cons by simp
  then show ?case
    using ordered_reentrant [of c held] Cons.prems(1) [of c] by (simp add: command_program_def [of _ c])
qed simp

lemma ordered_exec:
  assumes "sorted_wrt (<) keys" "\<And>c. c \<in> set commands \<Longrightarrow> set c \<subseteq> set keys"
  shows "ordered (exec_program keys commands) [] with_conn_scope"
proof -
  let ?gs = "map (\<lambda>key. \<lparr>kg_permit = Some key, kg_tracked = None\<rparr>) keys"
  let ?fin = "ExecEnd # replicate (length keys) (Drop 0)"
  have "ordered ?fin ?gs (Some (Some (set keys)))"
    using ordered_drops [of ?gs "[]" "[]" "Some None"] by (auto simp: exec_end_def)
  then have "ordered (concat (map (command_program (length keys)) commands) @ ?fin) ?gs (Some (Some (set keys)))"
    using ordered_replay [of commands "set keys" ?fin ?gs] assms(2) by simp
  then show ?thesis
    using ordered_locks [OF assms(1), of "[]"] by (simp add: exec_program_def with_conn_scope_def exec_begin_def)
qed

lemma sorted_remdups_adj_strict:
  fixes xs :: "'a :: linorder list"
  shows "sorted xs \<Longrightarrow> sorted_wrt (<) (remdups_adj xs)"
  by (induction xs rule: remdups_adj.induct) (auto simp: order.strict_iff_order)

lemma lock_sorted_strict: "sorted_wrt (<) (lock_sorted pfx keys)"
  by (simp add: lock_sorted_def sorted_remdups_adj_strict)

lemma exec_latches_strict: "sorted_wrt (<) (exec_latches m)"
  by (simp add: exec_latches_def)

text \<open>A program of the server: a command with the sorted latches of its keys, or \<open>EXEC\<close> with a replay inside
  its own latches.\<close>
definition server_program :: "latch_action list \<Rightarrow> bool" where
  "server_program p \<longleftrightarrow>
     (\<exists>pfx keys. p = command_program 0 (lock_sorted pfx keys)) \<or>
     (\<exists>m commands. p = exec_program (exec_latches m) commands \<and> (\<forall>c \<in> set commands. set c \<subseteq> set (exec_latches m)))"

lemma server_program_ordered: "server_program p \<Longrightarrow> ordered p [] with_conn_scope"
  unfolding server_program_def
  using ordered_command [OF lock_sorted_strict] ordered_exec [OF exec_latches_strict] by blast

text \<open>C8: Latches exclude: in every interleaving of ordered programs, two tasks never own the permit of one key
  at the same time, a task waits in the queue of a key only while that key is taken, and the queue holds
  exactly the tasks parked on it.\<close>
theorem latch_exclusive:
  assumes "fair_semaphore S available waiters" "\<And>p. p \<in> set programs \<Longrightarrow> server_program p"
    and "latch_reach S (latch_start programs) w" "t < length (lw_tasks w)" "u < length (lw_tasks w)"
  shows "(key \<in> set (guard_permits (tk_guards (lw_tasks w ! t))) \<and> key \<in> set (guard_permits (tk_guards (lw_tasks w ! u))) \<longrightarrow> t = u) \<and>
    (t \<in> set (waiters (sem_at S (lw_latch w) key)) \<longleftrightarrow> (\<exists>g. tk_parked (lw_tasks w ! t) = Some (key, g))) \<and>
    (t \<in> set (waiters (sem_at S (lw_latch w) key)) \<longrightarrow>
       (\<exists>v < length (lw_tasks w). key \<in> set (guard_permits (tk_guards (lw_tasks w ! v)))))"
proof -
  have inv: "fair_semaphore.latch_inv S available waiters w"
    using fair_semaphore.latch_reach_inv [OF assms(1,3)] assms(2) server_program_ordered by blast
  note key = fair_semaphore.key_invD [OF assms(1) inv, where key = key]
  have "\<exists>v < length (lw_tasks w). key \<in> set (guard_permits (tk_guards (lw_tasks w ! v)))"
    if "t \<in> set (waiters (sem_at S (lw_latch w) key))"
  proof -
    have "waiters (sem_at S (lw_latch w) key) \<noteq> []" using that by force
    then have "0 < permit_count (lw_tasks w) key" using key(1,2) by linarith
    then show ?thesis using permit_count_exists [of "lw_tasks w" key] by (metis in_set_conv_nth)
  qed
  then show ?thesis
    using key(4) [of t] assms(4,5) fair_semaphore.latch_exclusive_inv [OF assms(1) inv assms(4,5), of key] by blast
qed

text \<open>C7: No deadlock: when every task runs a command that locks its sorted latches or an \<open>EXEC\<close> whose replay
  stays inside its latches, every reachable world either has a task that can run or is one where all
  tasks are finished and every key is free; each step uses up one action, so every schedule ends there.\<close>
theorem latch_no_deadlock:
  assumes "fair_semaphore S available waiters" "\<And>p. p \<in> set programs \<Longrightarrow> server_program p"
    and "latch_reach S (latch_start programs) w"
  shows "(if \<forall>tk \<in> set (lw_tasks w). task_done tk
      then \<forall>key. available (sem_at S (lw_latch w) key) = 1 \<and> waiters (sem_at S (lw_latch w) key) = []
      else \<exists>t w'. latch_step S t w = Some w') \<and>
    (\<forall>t w'. latch_step S t w = Some w' \<longrightarrow> todo_total w = Suc (todo_total w'))"
proof -
  have inv: "fair_semaphore.latch_inv S available waiters w"
    using fair_semaphore.latch_reach_inv [OF assms(1,3)] assms(2) server_program_ordered by blast
  show ?thesis
    using fair_semaphore.latch_done_free [OF assms(1) inv] fair_semaphore.latch_progress [OF assms(1) inv] latch_step_shrinks
    by auto
qed

text \<open>A semaphore that is a count and a queue.\<close>
definition queue_semaphore :: "(nat \<times> nat list) semaphore_fns" where
  "queue_semaphore =
     \<lparr>sm_new = (\<lambda>n. (n, [])),
      sm_try_acquire = (\<lambda>(n, ws). if n = 0 then None else Some (n - 1, ws)),
      sm_acquire = (\<lambda>w (n, ws). if n = 0 then (False, (n, ws @ [w])) else (True, (n - 1, ws))),
      sm_release = (\<lambda>(n, ws). case ws of [] \<Rightarrow> (None, (Suc n, [])) | w # ws \<Rightarrow> (Some w, (n, ws)))\<rparr>"

interpretation queue: fair_semaphore queue_semaphore fst snd
  by unfold_locales (auto simp: queue_semaphore_def)


text \<open>Two commands on one key: the first holds it and the second is parked.\<close>
definition latch_demo :: "latch_action list list" where
  "latch_demo = [command_program 0 (lock_sorted [49, 47] [[107]]), command_program 0 (lock_sorted [49, 47] [[107]])]"

definition latch_demo_world :: "(nat \<times> nat list) latch_world" where
  "latch_demo_world = the (latch_step queue_semaphore 1 (the (latch_step queue_semaphore 0 (latch_start latch_demo))))"

lemma latch_demo_server: "p \<in> set latch_demo \<Longrightarrow> server_program p"
  by (auto simp: latch_demo_def server_program_def)

lemma latch_demo_reach:
  "latch_reach queue_semaphore (latch_start latch_demo) latch_demo_world"
  "length (lw_tasks latch_demo_world) = 2"
  "tk_parked (lw_tasks latch_demo_world ! 1) = Some (latch_key [49, 47] [107], \<lparr>kg_permit = None, kg_tracked = None\<rparr>)"
proof -
  let ?k = "latch_key [49, 47] [107]"
  let ?l = "latch_new[shard_of ?k := [?k \<mapsto> (0, [])]]"
  let ?tk = "\<lambda>gs. \<lparr>tk_todo = [Drop 0], tk_parked = None, tk_guards = gs, tk_held = Some None\<rparr>"
  have p: "command_program 0 (lock_sorted [49, 47] [[107]]) = [Lock ?k, Drop 0]"
    by (simp add: command_program_def lock_sorted_def)
  let ?w1 = "\<lparr>lw_latch = ?l, lw_tasks = [?tk [\<lparr>kg_permit = Some ?k, kg_tracked = None\<rparr>],
      \<lparr>tk_todo = [Lock ?k, Drop 0], tk_parked = None, tk_guards = [], tk_held = Some None\<rparr>]\<rparr>"
  have len: "length (latch_new :: (nat \<times> nat list) latch) = SHARDS" by (simp add: latch_new_def)
  have s0: "latch_step queue_semaphore 0 (latch_start latch_demo) = Some ?w1"
    using shard_of_bound [of ?k] len
    by (simp add: Let_def latch_step_def latch_start_def latch_demo_def p lock_def tracking_mode_def with_conn_scope_def acquire_def
        entry_or_insert_def put_sem_def queue_semaphore_def latch_new_def)
  then have s1: "latch_step queue_semaphore 1 ?w1 = Some latch_demo_world \<and> length (lw_tasks latch_demo_world) = 2 \<and>
      tk_parked (lw_tasks latch_demo_world ! 1) = Some (?k, \<lparr>kg_permit = None, kg_tracked = None\<rparr>)"
    using shard_of_bound [of ?k] len
    by (simp add: Let_def latch_demo_world_def latch_step_def lock_def tracking_mode_def acquire_def entry_or_insert_def put_sem_def queue_semaphore_def)
  show "latch_reach queue_semaphore (latch_start latch_demo) latch_demo_world"
    using reach_step [OF reach_step [OF reach_refl s0]] s1 by blast
  show "length (lw_tasks latch_demo_world) = 2"
    "tk_parked (lw_tasks latch_demo_world ! 1) = Some (?k, \<lparr>kg_permit = None, kg_tracked = None\<rparr>)"
    using s1 by simp_all
qed

theorem latch_exclusive_witness:
  "1 \<in> set (snd (sem_at queue_semaphore (lw_latch latch_demo_world) (latch_key [49, 47] [107]))) \<and>
   (\<exists>v < 2. latch_key [49, 47] [107] \<in> set (guard_permits (tk_guards (lw_tasks latch_demo_world ! v))))"
  using latch_exclusive [OF queue.fair_semaphore_axioms latch_demo_server latch_demo_reach(1), of 1 0 "latch_key [49, 47] [107]"]
    latch_demo_reach(2,3)
  by auto

theorem latch_no_deadlock_witness: "\<exists>t w'. latch_step queue_semaphore t latch_demo_world = Some w'"
proof -
  have "\<not> (\<forall>tk \<in> set (lw_tasks latch_demo_world). task_done tk)"
    using latch_demo_reach(2,3) by (auto simp: task_done_def all_set_conv_all_nth intro!: exI [of _ 1])
  then show ?thesis
    using latch_no_deadlock [OF queue.fair_semaphore_axioms latch_demo_server latch_demo_reach(1)] by presburger
qed

text \<open>\<open>try_lock\<close> never waits: it fails exactly when the key is taken, and then leaves every semaphore alone.\<close>
context fair_semaphore
begin

lemma try_lock_taken:
  assumes "length latch = SHARDS" "try_lock S latch h key = (res, latch', h')"
  shows "res = None \<longleftrightarrow> available (sem_at S latch key) = 0"
    and "res = None \<Longrightarrow> sem_at S latch' = sem_at S latch \<and> h' = h"
proof -
  obtain l where l: "entry_or_insert S latch key = (sem_at S latch key, l)" "sem_at S l = sem_at S latch"
    using entry_or_insert_at [OF assms(1)] by metis
  show "res = None \<longleftrightarrow> available (sem_at S latch key) = 0"
    using assms(2) l(1) try_none [of "sem_at S latch key"] try_some [of "sem_at S latch key"]
    by (auto simp: try_lock_def split: option.splits tracking.splits prod.splits)
  show "res = None \<Longrightarrow> sem_at S latch' = sem_at S latch \<and> h' = h"
    using assms(2) l by (auto simp: try_lock_def split: option.splits tracking.splits prod.splits)
qed

end


section \<open>A replay outside its latches\<close>

fun latch_run :: "'s semaphore_fns \<Rightarrow> nat list \<Rightarrow> 's latch_world \<Rightarrow> 's latch_world option" where
  "latch_run S [] w = Some w"
| "latch_run S (t # ts) w = (case latch_step S t w of None \<Rightarrow> None | Some w \<Rightarrow> latch_run S ts w)"

lemma latch_run_reach: "latch_reach S w0 w \<Longrightarrow> latch_run S ts w = Some w' \<Longrightarrow> latch_reach S w0 w'"
  by (induction ts arbitrary: w) (auto intro: reach_step split: option.splits)


end
