(* ===== verification/Spec2Isabelle.thy ===== *)
theory Spec2Isabelle
  imports Rdb_Slot Rdb_Store Rdb_Codec Rdb_Expire Rdb_Glob Rdb_Keys Rdb_Sets Rdb_Resp Rdb_Tx Rdb_Conn Rdb_List_Cmd Rdb_String_Cmd Rdb_Latch
begin

text \<open>
  A verification of rdb, a multi-model database over RocksDB: the key-value core.
\<close>

end
